(* ===== verification/Prelude.thy ===== *)
theory Prelude
  imports Main "HOL-Library.Multiset"
begin

text \<open>
  Shared base of the development: the result type of every modelled C++ operation, the
  collections of rewrite rules the component theories fill, and the generic lemmas on
  lists that the buffer, queue and heap proofs share.

  A C++ operation that can leave the defined behaviour of the language (an access outside an
  array, a null or indeterminate pointer, an unlock of a mutex that is not held, an
  out-of-range conversion) or that ends the process is a function into \<open>'a res\<close>: \<open>Inl\<close> of
  the fault, or \<open>Inr\<close> of the value it returns together with the new state.
\<close>

datatype fault =
    OutOfBounds        \<comment> \<open>read or write outside an array or a heap block\<close>
  | NullPointer        \<comment> \<open>dereference of a null pointer\<close>
  | Indeterminate      \<comment> \<open>use of a member no constructor or assignment has set\<close>
  | BadConversion      \<comment> \<open>\<open>atoi\<close> of a number an \<open>int\<close> cannot hold\<close>
  | DivideByZero       \<comment> \<open>integer division or remainder by 0\<close>
  | IntOverflow        \<comment> \<open>signed arithmetic outside the range of \<open>int\<close>\<close>
  | UnlockNotHeld      \<comment> \<open>\<open>pthread_mutex_unlock\<close> of a mutex that is not locked\<close>
  | SelfDeadlock       \<comment> \<open>\<open>pthread_mutex_lock\<close> of a mutex the thread already holds\<close>
  | UseAfterFree       \<comment> \<open>dereference of a pointer to a deleted object\<close>
  | EmptyContainer     \<comment> \<open>\<open>front\<close> or \<open>top\<close> of an empty standard container\<close>
  | ProcessExit int    \<comment> \<open>\<open>exit(n)\<close>\<close>
  | AssertFailed       \<comment> \<open>\<open>assert\<close> of a false condition\<close>
  | Thrown             \<comment> \<open>\<open>throw std::exception()\<close>\<close>

type_synonym 'a res = "fault + 'a"

text \<open>Sequencing of operations: the first fault ends the computation.\<close>

definition andThen :: "'a res \<Rightarrow> ('a \<Rightarrow> 'b res) \<Rightarrow> 'b res" where
  "andThen m f = (case m of Inl e \<Rightarrow> Inl e | Inr x \<Rightarrow> f x)"

lemma andThen_simps [simp]:
  "andThen (Inl e) f = Inl e"
  "andThen (Inr x) f = f x"
  by (simp_all add: andThen_def)

lemma andThen_cong [fundef_cong]:
  "m = m' \<Longrightarrow> (\<And>x. m' = Inr x \<Longrightarrow> f x = f' x) \<Longrightarrow> andThen m f = andThen m' f'"
  by (auto simp: andThen_def split: sum.split)

lemma andThen_Inr_iff [simp]:
  "andThen m f = Inr y \<longleftrightarrow> (\<exists>x. m = Inr x \<and> f x = Inr y)"
  by (auto simp: andThen_def split: sum.split)

lemma andThen_Inl_iff:
  "andThen m f = Inl e \<longleftrightarrow> m = Inl e \<or> (\<exists>x. m = Inr x \<and> f x = Inl e)"
  by (auto simp: andThen_def split: sum.split)

lemma andThen_assoc: "andThen (andThen m f) g = andThen m (\<lambda>x. andThen (f x) g)"
  by (auto simp: andThen_def split: sum.split)

text \<open>A result with a function applied to its value.\<close>

definition res_map :: "('a \<Rightarrow> 'b) \<Rightarrow> 'a res \<Rightarrow> 'b res" where
  "res_map f m = andThen m (\<lambda>x. Inr (f x))"

lemma res_map_simps [simp]: "res_map f (Inl e) = Inl e" "res_map f (Inr x) = Inr (f x)"
  by (simp_all add: res_map_def)

lemma res_map_id: "res_map (\<lambda>x. x) m = m"
  by (cases m) simp_all

text \<open>Two computations in step: the second runs on the image of the first one's state.\<close>

lemma res_map_andThen:
  "m' = res_map f m \<Longrightarrow> (\<And>x. m = Inr x \<Longrightarrow> g' (f x) = res_map k (g x)) \<Longrightarrow>
     andThen m' g' = res_map k (andThen m g)"
  by (cases m) simp_all

lemma res_map_andThen_same:
  "m' = m \<Longrightarrow> (\<And>x. m = Inr x \<Longrightarrow> g' x = res_map k (g x)) \<Longrightarrow>
     andThen m' g' = res_map k (andThen m g)"
  by (cases m) simp_all

text \<open>Every value a computation returns satisfies \<open>P\<close>.\<close>

definition post :: "('a \<Rightarrow> bool) \<Rightarrow> 'a res \<Rightarrow> bool" where
  "post P m \<longleftrightarrow> (\<forall>x. m = Inr x \<longrightarrow> P x)"

lemma post_simps [simp]: "post P (Inl e)" "post P (Inr x) = P x"
  by (simp_all add: post_def)

lemma postD: "post P m \<Longrightarrow> m = Inr x \<Longrightarrow> P x"
  by (simp add: post_def)

lemma post_andThen: "(\<And>x. m = Inr x \<Longrightarrow> post P (f x)) \<Longrightarrow> post P (andThen m f)"
  by (auto simp: post_def)

lemma post_if: "(c \<Longrightarrow> post P a) \<Longrightarrow> (\<not> c \<Longrightarrow> post P b) \<Longrightarrow> post P (if c then a else b)"
  by simp

text \<open>An operation that can block is \<open>None\<close> while it waits; what follows it waits with it.\<close>

definition wthen :: "'a res option \<Rightarrow> ('a \<Rightarrow> 'b res option) \<Rightarrow> 'b res option" where
  "wthen m f = (case m of None \<Rightarrow> None | Some (Inl e) \<Rightarrow> Some (Inl e) | Some (Inr x) \<Rightarrow> f x)"

lemma wthen_simps [simp]:
  "wthen None f = None" "wthen (Some (Inl e)) f = Some (Inl e)" "wthen (Some (Inr x)) f = f x"
  by (simp_all add: wthen_def)

lemma wthen_cong [fundef_cong]:
  "m = m' \<Longrightarrow> (\<And>x. m' = Some (Inr x) \<Longrightarrow> f x = f' x) \<Longrightarrow> wthen m f = wthen m' f'"
  by (auto simp: wthen_def split: option.split sum.split)

lemma wthen_Inr_iff: "wthen m f = Some (Inr y) \<longleftrightarrow> (\<exists>x. m = Some (Inr x) \<and> f x = Some (Inr y))"
  by (auto simp: wthen_def split: option.split sum.split)

definition returns :: "'a \<Rightarrow> 'a res option" where
  "returns x = Some (Inr x)"

lemma wthen_returns [simp]: "wthen (returns x) f = f x" "returns x = Some (Inr y) \<longleftrightarrow> x = y" "returns x = returns y \<longleftrightarrow> x = y"
  by (simp_all add: returns_def)

definition ok :: "'a res \<Rightarrow> bool" where
  "ok m \<longleftrightarrow> (case m of Inl _ \<Rightarrow> False | Inr _ \<Rightarrow> True)"

lemma ok_simps [simp]: "\<not> ok (Inl e)" "ok (Inr x)"
  by (simp_all add: ok_def)

lemma ok_iff: "ok m \<longleftrightarrow> (\<exists>x. m = Inr x)"
  by (cases m) auto

text \<open>
  A member of class type without a constructor, or a scalar no initialiser names, holds an
  indeterminate value until it is assigned.
\<close>

datatype 'a cell = Unset | Set 'a

definition fetch :: "'a cell \<Rightarrow> 'a res" where
  "fetch c = (case c of Unset \<Rightarrow> Inl Indeterminate | Set x \<Rightarrow> Inr x)"

lemma fetch_simps [simp]:
  "fetch Unset = Inl Indeterminate"
  "fetch (Set x) = Inr x"
  by (simp_all add: fetch_def)

definition deref :: "'a option \<Rightarrow> 'a res" where
  "deref p = (case p of None \<Rightarrow> Inl NullPointer | Some x \<Rightarrow> Inr x)"

lemma deref_simps [simp]:
  "deref None = Inl NullPointer"
  "deref (Some x) = Inr x"
  by (simp_all add: deref_def)

text \<open>The range of a 32-bit \<open>int\<close>.\<close>

definition INT_MAX :: int where "INT_MAX = 2147483647"
definition INT_MIN :: int where "INT_MIN = -2147483648"

definition in_int :: "int \<Rightarrow> bool" where
  "in_int n \<longleftrightarrow> INT_MIN \<le> n \<and> n \<le> INT_MAX"

definition add_int :: "int \<Rightarrow> int \<Rightarrow> int res" where
  "add_int a b = (if in_int (a + b) then Inr (a + b) else Inl IntOverflow)"

section \<open>Rule collections\<close>

named_theorems buf_simps \<open>evaluation of the buffer and C-string functions\<close>
named_theorems frame_simps \<open>fields an operation leaves alone\<close>
named_theorems step_defs \<open>definitions unfolded in case analyses of a component's steps\<close>

section \<open>Lists\<close>

lemma takeWhile_append_stop:
  "\<forall>x \<in> set xs. P x \<Longrightarrow> \<not> P y \<Longrightarrow> takeWhile P (xs @ y # ys) = xs"
  by (induction xs) auto

lemma takeWhile_neq_append:
  "y \<notin> set xs \<Longrightarrow> takeWhile (\<lambda>x. x \<noteq> y) (xs @ y # ys) = xs"
  by (induction xs) auto

lemma nth_length_takeWhile_set:
  "x \<in> set xs \<Longrightarrow> length (takeWhile (\<lambda>c. c \<noteq> x) xs) < length xs"
  by (induction xs) auto

lemma set_drop_mono: "x \<in> set (drop n xs) \<Longrightarrow> m \<le> n \<Longrightarrow> x \<in> set (drop m xs)"
  by (meson set_drop_subset_set_drop subsetD)


text \<open>What replacing one element of a list does to sums over the list: the states of the threads of
  a pool are such a list, and a step of a thread replaces its state.\<close>

lemma mset_concat_map_update:
  "i < length ps \<Longrightarrow>
     mset (concat (map f (ps[i := x]))) + mset (f (ps ! i)) = mset (concat (map f ps)) + mset (f x)"
proof (induction ps arbitrary: i)
  case (Cons a ps)
  then show ?case by (cases i) (auto simp: ac_simps)
qed simp

lemma count_list_update:
  "i < length ps \<Longrightarrow>
     count_list (ps[i := x]) q + (if ps ! i = q then 1 else 0) = count_list ps q + (if x = q then 1 else 0)"
proof (induction ps arbitrary: i)
  case (Cons a ps)
  show ?case
  proof (cases i)
    case (Suc j)
    with Cons.prems have "j < length ps" by simp
    from Cons.IH [OF this] Suc show ?thesis by (cases "a = q") (simp_all split del: if_split)
  qed simp
qed simp

lemma count_list_pos: "i < length ps \<Longrightarrow> ps ! i = q \<Longrightarrow> 0 < count_list ps q"
  by (metis count_list_0_iff gr0I nth_mem)

lemma count_list_replicate_neq [simp]: "q \<noteq> x \<Longrightarrow> count_list (replicate n x) q = 0"
  by (induction n) simp_all

text \<open>Two places of a list that contribute the same element make it occur twice.\<close>

lemma concat_map_twice:
  "i < j \<Longrightarrow> j < length ps \<Longrightarrow> c \<in> set (f (ps ! i)) \<Longrightarrow> c \<in> set (f (ps ! j)) \<Longrightarrow>
     \<not> distinct (concat (map f ps))"
proof (induction ps arbitrary: i j)
  case (Cons a ps)
  show ?case
  proof (cases i)
    case 0
    with Cons.prems have "c \<in> (\<Union>x\<in>set ps. set (f x))"
      by (cases j) (auto simp: set_conv_nth)
    with 0 Cons.prems show ?thesis by auto
  next
    case (Suc k)
    with Cons.prems have "\<not> distinct (concat (map f ps))"
      by (intro Cons.IH [of k "j - 1"]) auto
    then show ?thesis by simp
  qed
qed simp

text \<open>A pointer as the list of what it points to.\<close>

definition opt_list :: "'a option \<Rightarrow> 'a list" where
  "opt_list p = (case p of None \<Rightarrow> [] | Some x \<Rightarrow> [x])"

lemma opt_list_simps [simp]: "opt_list None = []" "opt_list (Some x) = [x]"
  by (simp_all add: opt_list_def)

end
