(* ===== verification/Locker.thy ===== *)
theory Locker
  imports Prelude
begin

text \<open>
  The wrappers of \<open>inc/locker.h\<close>. The GET server has a copy of the file (\<open>GET-WebServer/inc/locker.h\<close>) with the same semaphore and
  mutex and a condition variable of its own, at the end. A mutex is free or held; the modelled critical sections are
  run by one thread at a time, so locking a free mutex succeeds, locking it again from the
  section itself is a self-deadlock, and unlocking a mutex that is not held is undefined for
  the default mutex type \<open>pthread_mutex_init(&m, NULL)\<close> makes. A semaphore is its count: a wait on
  count 0 blocks. A condition variable is the list of the threads asleep on it. Apart from the wait of the block
  queue, the callers in the servers ignore the boolean results of these wrappers.
\<close>

datatype locker = Free | Held

definition locker_new :: locker where "locker_new = Free"

fun locker_lock :: "locker \<Rightarrow> locker res" where
  "locker_lock Free = Inr Held"
| "locker_lock Held = Inl SelfDeadlock"

fun locker_unlock :: "locker \<Rightarrow> locker res" where
  "locker_unlock Held = Inr Free"
| "locker_unlock Free = Inl UnlockNotHeld"

type_synonym sem = nat

definition sem_new :: "nat \<Rightarrow> sem" where "sem_new n = n"

text \<open>\<open>None\<close>: the caller blocks until another thread posts.\<close>

fun sem_wait :: "sem \<Rightarrow> sem option" where
  "sem_wait 0 = None"
| "sem_wait (Suc n) = Some n"

definition sem_post :: "sem \<Rightarrow> sem" where "sem_post n = Suc n"

text \<open>
  A condition variable. \<open>wait\<close> lets go of the mutex and falls asleep in one step, which is what keeps a wake-up from
  getting lost in between; the call returns once the thread is awake and the mutex is free again, which it then holds.
  \<open>signal\<close> wakes one of the threads, the system says which (\<open>t\<close>), \<open>broadcast\<close> all of them. POSIX also allows
  a thread to wake up without either, and \<open>timewait\<close> wakes it when its time has come and then returns false.
\<close>

type_synonym cond = "nat list"

definition cond_new :: cond where "cond_new = []"

definition cond_wait :: "nat \<Rightarrow> cond \<Rightarrow> locker \<Rightarrow> (cond \<times> locker) res" where
  "cond_wait t c m = andThen (locker_unlock m) (\<lambda>m. Inr (c @ [t], m))"

definition cond_wait_return :: "nat \<Rightarrow> cond \<Rightarrow> locker \<Rightarrow> locker option" where
  "cond_wait_return t c m = (if t \<notin> set c \<and> m = Free then Some Held else None)"

definition cond_wake :: "nat \<Rightarrow> cond \<Rightarrow> cond" where "cond_wake t c = removeAll t c"

definition cond_timewait :: "nat \<Rightarrow> cond \<Rightarrow> locker \<Rightarrow> (cond \<times> locker) res" where
  "cond_timewait t c m = cond_wait t c m"

definition cond_timewait_return :: "bool \<Rightarrow> nat \<Rightarrow> cond \<Rightarrow> locker \<Rightarrow> (bool \<times> cond \<times> locker) option" where
  "cond_timewait_return timed_out t c m =
     (if m \<noteq> Free then None
      else if timed_out then Some (False, cond_wake t c, Held)
      else if t \<notin> set c then Some (True, c, Held) else None)"

definition cond_signal :: "nat \<Rightarrow> cond \<Rightarrow> cond" where
  "cond_signal t c = (if t \<in> set c then cond_wake t c else c)"

definition cond_broadcast :: "cond \<Rightarrow> cond" where "cond_broadcast c = []"

text \<open>
  The condition variable of the GET server brings its own mutex, which \<open>wait\<close> takes before and releases after the
  wait; there is no broadcast. No code of that server uses it.
\<close>

record get_cond =
  gc_mutex :: locker
  gc_cond :: cond

definition get_cond_new :: get_cond where
  "get_cond_new = \<lparr>gc_mutex = locker_new, gc_cond = cond_new\<rparr>"

definition get_cond_wait :: "nat \<Rightarrow> get_cond \<Rightarrow> get_cond res" where
  "get_cond_wait t c =
     andThen (locker_lock (gc_mutex c)) (\<lambda>m.
     andThen (cond_wait t (gc_cond c) m) (\<lambda>(w, m). Inr (c\<lparr>gc_mutex := m, gc_cond := w\<rparr>)))"

definition get_cond_return :: "bool \<Rightarrow> nat \<Rightarrow> get_cond \<Rightarrow> (bool \<times> get_cond) res option" where
  "get_cond_return ret t c =
     map_option (\<lambda>m. andThen (locker_unlock m) (\<lambda>m. Inr (ret, c\<lparr>gc_mutex := m\<rparr>)))
       (cond_wait_return t (gc_cond c) (gc_mutex c))"

definition get_cond_signal :: "nat \<Rightarrow> get_cond \<Rightarrow> get_cond" where
  "get_cond_signal t c = c\<lparr>gc_cond := cond_signal t (gc_cond c)\<rparr>"

text \<open>A wait with the mutex free sleeps until a signal picks the thread, and leaves the mutex free again. A signal sent
  before the wait is lost: nothing the caller tests is guarded by this mutex.\<close>

lemma get_cond_wait_sleeps:
  assumes "gc_mutex c = Free" and "t \<notin> set (gc_cond c)"
  shows "get_cond_wait t (get_cond_signal t c) = Inr (c\<lparr>gc_cond := gc_cond c @ [t]\<rparr>) \<and>
    get_cond_return ret t (c\<lparr>gc_cond := gc_cond c @ [t]\<rparr>) = None \<and>
    get_cond_return ret t (get_cond_signal t (c\<lparr>gc_cond := gc_cond c @ [t]\<rparr>)) = Some (Inr (ret, c))"
  using assms
  by (cases c) (simp add: get_cond_wait_def get_cond_signal_def get_cond_return_def cond_signal_def cond_wake_def
      cond_wait_def cond_wait_return_def removeAll_id)

lemma sem_wait_Some_iff: "sem_wait v = Some v' \<longleftrightarrow> v = Suc v'"
  by (cases v) auto

lemma sem_wait_None_iff: "sem_wait v = None \<longleftrightarrow> v = 0"
  by (cases v) auto

lemma locker_roundtrip: "andThen (locker_lock Free) locker_unlock = Inr Free"
  by simp

end
