(* ===== verification/BlockQueue.thy ===== *)
theory BlockQueue
  imports Locker
begin

text \<open>
  The blocking queue of \<open>inc/block_queue.h\<close>: a circular array with the index of the element
  before the first (\<open>m_front\<close>) and the index of the last (\<open>m_back\<close>), both -1 at the start.
  Each member function is one definition, with its locking, its early returns and its
  accesses checked; \<open>pop\<close> is three, cut where the thread can sleep. \<open>contents\<close> is the list the array stands for, \<open>bq_inv\<close> the invariant, and
  the interface locale \<open>bounded_queue\<close> states what a client (the asynchronous log) relies on.
\<close>

section \<open>The class\<close>

record 'a block_queue =
  m_mutex :: locker
  m_cond :: cond            \<comment> \<open>the threads asleep on the condition variable\<close>
  m_array :: "'a list"
  m_size :: int
  m_max_size :: int
  m_front :: int
  m_back :: int

text \<open>C's \<open>%\<close>, which truncates towards zero, and array accesses at an \<open>int\<close> index.\<close>

definition c_mod :: "int \<Rightarrow> int \<Rightarrow> int" where
  "c_mod a b = sgn a * (\<bar>a\<bar> mod \<bar>b\<bar>)"

definition aget :: "'a list \<Rightarrow> int \<Rightarrow> 'a res" where
  "aget xs i = (if 0 \<le> i \<and> i < int (length xs) then Inr (xs ! nat i) else Inl OutOfBounds)"

definition aset :: "'a list \<Rightarrow> int \<Rightarrow> 'a \<Rightarrow> 'a list res" where
  "aset xs i x = (if 0 \<le> i \<and> i < int (length xs) then Inr (xs[nat i := x]) else Inl OutOfBounds)"

text \<open>\<open>T()\<close>, the default element \<open>new T[max_size]\<close> fills the array with, is an argument.\<close>

definition block_queue_new :: "'a \<Rightarrow> int \<Rightarrow> 'a block_queue res" where
  "block_queue_new dflt max_size =
     (if max_size \<le> 0 then Inl (ProcessExit (-1))
      else Inr \<lparr>m_mutex = locker_new, m_cond = cond_new, m_array = replicate (nat max_size) dflt,
                m_size = 0, m_max_size = max_size, m_front = -1, m_back = -1\<rparr>)"

text \<open>The two ends of every critical section.\<close>

definition enter :: "'a block_queue \<Rightarrow> 'a block_queue res" where
  "enter q = andThen (locker_lock (m_mutex q)) (\<lambda>m. Inr (q\<lparr>m_mutex := m\<rparr>))"

definition leave :: "'b \<Rightarrow> 'a block_queue \<Rightarrow> ('b \<times> 'a block_queue) res" where
  "leave r q = andThen (locker_unlock (m_mutex q)) (\<lambda>m. Inr (r, q\<lparr>m_mutex := m\<rparr>))"

definition bq_clear :: "'a block_queue \<Rightarrow> (unit \<times> 'a block_queue) res" where
  "bq_clear q = andThen (enter q) (\<lambda>q. leave () (q\<lparr>m_size := 0, m_front := -1, m_back := -1\<rparr>))"

definition bq_delete :: "'a block_queue \<Rightarrow> (unit \<times> 'a block_queue) res" where
  "bq_delete q = andThen (enter q) (\<lambda>q. leave () (q\<lparr>m_array := []\<rparr>))"

definition bq_full :: "'a block_queue \<Rightarrow> (bool \<times> 'a block_queue) res" where
  "bq_full q = andThen (enter q) (\<lambda>q.
     if m_size q \<ge> m_max_size q then leave True q else leave False q)"

definition bq_empty :: "'a block_queue \<Rightarrow> (bool \<times> 'a block_queue) res" where
  "bq_empty q = andThen (enter q) (\<lambda>q.
     if 0 = m_size q then leave True q else leave False q)"

text \<open>\<open>front(T &value)\<close> and \<open>back(T &value)\<close>: \<open>None\<close> for the result false.\<close>

definition bq_front :: "'a block_queue \<Rightarrow> ('a option \<times> 'a block_queue) res" where
  "bq_front q = andThen (enter q) (\<lambda>q.
     if 0 = m_size q then leave None q
     else andThen (aget (m_array q) (m_front q)) (\<lambda>v. leave (Some v) q))"

definition bq_back :: "'a block_queue \<Rightarrow> ('a option \<times> 'a block_queue) res" where
  "bq_back q = andThen (enter q) (\<lambda>q.
     if 0 = m_size q then leave None q
     else andThen (aget (m_array q) (m_back q)) (\<lambda>v. leave (Some v) q))"

definition bq_size :: "'a block_queue \<Rightarrow> (int \<times> 'a block_queue) res" where
  "bq_size q = andThen (enter q) (\<lambda>q. leave (m_size q) q)"

definition bq_max_size :: "'a block_queue \<Rightarrow> (int \<times> 'a block_queue) res" where
  "bq_max_size q = andThen (enter q) (\<lambda>q. leave (m_max_size q) q)"

definition bq_push :: "'a \<Rightarrow> 'a block_queue \<Rightarrow> (bool \<times> 'a block_queue) res" where
  "bq_push item q = andThen (enter q) (\<lambda>q.
     if m_size q \<ge> m_max_size q then leave False (q\<lparr>m_cond := cond_broadcast (m_cond q)\<rparr>)
     else let q = q\<lparr>m_back := c_mod (m_back q + 1) (m_max_size q)\<rparr>
          in andThen (aset (m_array q) (m_back q) item) (\<lambda>arr.
               leave True (q\<lparr>m_array := arr, m_size := m_size q + 1, m_cond := cond_broadcast (m_cond q)\<rparr>)))"

text \<open>
  \<open>pop(T &item)\<close> by thread \<open>t\<close>. The call is cut where the thread can sleep. \<open>bq_pop_wait\<close> is what it does with the mutex
  held, from the test of the \<open>while\<close> on: it falls asleep on \<open>m_cond\<close>, which lets go of the mutex (\<open>PopBlocked\<close>), or takes
  the first item. \<open>bq_pop\<close> is the call until it returns or sleeps, and \<open>bq_pop_wake\<close> what the thread does once it is
  awake and has the mutex again: \<open>None\<close> while it is asleep or another thread has the mutex; if the wait succeeded
  (\<open>woken\<close>) it goes back to the test; otherwise \<open>pop\<close> returns false.
\<close>

datatype 'a pop_out = Popped 'a | PopFailed | PopBlocked

definition bq_pop_wait :: "nat \<Rightarrow> 'a block_queue \<Rightarrow> ('a pop_out \<times> 'a block_queue) res" where
  "bq_pop_wait t q =
     (if m_size q \<le> 0 then
        andThen (cond_wait t (m_cond q) (m_mutex q)) (\<lambda>(c, m). Inr (PopBlocked, q\<lparr>m_cond := c, m_mutex := m\<rparr>))
      else let q = q\<lparr>m_front := c_mod (m_front q + 1) (m_max_size q)\<rparr>
           in andThen (aget (m_array q) (m_front q)) (\<lambda>item.
                leave (Popped item) (q\<lparr>m_size := m_size q - 1\<rparr>)))"

definition bq_pop :: "nat \<Rightarrow> 'a block_queue \<Rightarrow> ('a pop_out \<times> 'a block_queue) res" where
  "bq_pop t q = andThen (enter q) (bq_pop_wait t)"

definition bq_pop_wake :: "nat \<Rightarrow> bool \<Rightarrow> 'a block_queue \<Rightarrow> ('a pop_out \<times> 'a block_queue) res option" where
  "bq_pop_wake t woken q =
     (case cond_wait_return t (m_cond q) (m_mutex q) of
        None \<Rightarrow> None
      | Some m \<Rightarrow> Some (let q = q\<lparr>m_mutex := m\<rparr>
                         in if \<not> woken then leave PopFailed q else bq_pop_wait t q))"

section \<open>Invariant and abstraction\<close>

definition bq_inv :: "'a block_queue \<Rightarrow> bool" where
  "bq_inv q \<longleftrightarrow>
     m_mutex q = Free \<and> 0 < m_max_size q \<and> int (length (m_array q)) = m_max_size q \<and>
     0 \<le> m_size q \<and> m_size q \<le> m_max_size q \<and>
     -1 \<le> m_front q \<and> m_front q < m_max_size q \<and>
     -1 \<le> m_back q \<and> m_back q < m_max_size q \<and>
     (0 < m_size q \<longrightarrow> 0 \<le> m_back q) \<and>
     m_back q mod m_max_size q = (m_front q + m_size q) mod m_max_size q"

definition slot :: "'a block_queue \<Rightarrow> nat \<Rightarrow> nat" where
  "slot q k = nat ((m_front q + 1 + int k) mod m_max_size q)"

definition contents :: "'a block_queue \<Rightarrow> 'a list" where
  "contents q = map (\<lambda>k. m_array q ! slot q k) [0..<nat (m_size q)]"

definition capacity :: "'a block_queue \<Rightarrow> nat" where
  "capacity q = nat (m_max_size q)"

lemma enter_Free: "m_mutex q = Free \<Longrightarrow> enter q = Inr (q\<lparr>m_mutex := Held\<rparr>)"
  by (simp add: enter_def)

lemma leave_Held: "m_mutex q = Held \<Longrightarrow> leave r q = Inr (r, q\<lparr>m_mutex := Free\<rparr>)"
  by (simp add: leave_def)

lemma restore_mutex: "m_mutex q = Free \<Longrightarrow> q\<lparr>m_mutex := Free\<rparr> = q"
  by (cases q) simp

lemma c_mod_nonneg: "0 \<le> a \<Longrightarrow> 0 < b \<Longrightarrow> c_mod a b = a mod b"
  by (cases "a = 0") (auto simp: c_mod_def)

lemma length_contents [simp]: "length (contents q) = nat (m_size q)"
  by (simp add: contents_def)

lemma contents_nil_iff: "bq_inv q \<Longrightarrow> contents q = [] \<longleftrightarrow> m_size q = 0"
  by (auto simp: contents_def bq_inv_def)

lemma slot_less: "bq_inv q \<Longrightarrow> slot q k < length (m_array q)"
  by (auto simp: slot_def bq_inv_def nat_less_iff)

text \<open>Slots of different positions differ while there are at most \<open>m_max_size\<close> of them.\<close>

lemma mod_inj_window:
  fixes a n :: int
  assumes "0 \<le> i" "i < n" "0 \<le> j" "j < n" "(a + i) mod n = (a + j) mod n"
  shows "i = j"
proof -
  have "n dvd (a + i) - (a + j)"
    using assms(5) by (simp add: mod_eq_dvd_iff)
  then have d: "n dvd i - j" by simp
  show ?thesis
  proof (rule ccontr)
    assume "i \<noteq> j"
    then have "i - j \<noteq> 0" by simp
    with d have "n \<le> \<bar>i - j\<bar>" by (meson zdvd_imp_le abs_dvd_iff dvd_abs_iff zero_less_abs_iff)
    with assms(1-4) show False by arith
  qed
qed

lemma bq_new_inv:
  assumes "block_queue_new d n = Inr q"
  shows "bq_inv q" and "contents q = []" and "int (capacity q) = n"
  using assms
  by (auto simp: block_queue_new_def bq_inv_def contents_def capacity_def locker_new_def
      split: if_splits)

section \<open>Functional behaviour of the members\<close>

lemma push_full:
  assumes "bq_inv q" and "m_size q = m_max_size q"
  shows "bq_push x q = Inr (False, q\<lparr>m_cond := []\<rparr>)"
  using assms by (cases q) (simp add: bq_push_def bq_inv_def enter_Free leave_Held cond_broadcast_def)

definition pushed :: "'a \<Rightarrow> 'a block_queue \<Rightarrow> 'a block_queue" where
  "pushed x q = q\<lparr>m_back := (m_back q + 1) mod m_max_size q,
     m_array := (m_array q)[nat ((m_back q + 1) mod m_max_size q) := x],
     m_size := m_size q + 1, m_cond := []\<rparr>"

lemma push_room:
  assumes "bq_inv q" and "m_size q < m_max_size q"
  shows "bq_push x q = Inr (True, pushed x q)"
  using assms
  by (cases q)
    (simp add: bq_push_def bq_inv_def enter_Free leave_Held Let_def aset_def c_mod_nonneg
      pushed_def cond_broadcast_def)

lemma pushed_slot_back:
  assumes "bq_inv q"
  shows "(m_back q + 1) mod m_max_size q = (m_front q + 1 + m_size q) mod m_max_size q"
proof -
  have "m_back q mod m_max_size q = (m_front q + m_size q) mod m_max_size q"
    using assms by (simp add: bq_inv_def)
  then have "(m_back q + 1) mod m_max_size q = (m_front q + m_size q + 1) mod m_max_size q"
    by (rule mod_add_cong) simp
  then show ?thesis by (simp add: ac_simps)
qed

lemma pushed_inv:
  assumes "bq_inv q" and "m_size q < m_max_size q"
  shows "bq_inv (pushed x q)"
proof -
  have p: "0 < m_max_size q" using assms(1) by (simp add: bq_inv_def)
  have b: "0 \<le> (m_back q + 1) mod m_max_size q" "(m_back q + 1) mod m_max_size q < m_max_size q"
    using p by simp_all
  have "(m_back q + 1) mod m_max_size q = (m_front q + 1 + m_size q) mod m_max_size q"
    using assms(1) by (rule pushed_slot_back)
  moreover have "-1 \<le> (m_back q + 1) mod m_max_size q" using b(1) by simp
  ultimately show ?thesis using assms b(2)
    unfolding bq_inv_def by (simp add: pushed_def ac_simps)
qed

lemma pushed_contents:
  assumes "bq_inv q" and "m_size q < m_max_size q"
  shows "contents (pushed x q) = contents q @ [x]"
proof (rule nth_equalityI)
  have s: "0 \<le> m_size q" "0 < m_max_size q" using assms(1) by (simp_all add: bq_inv_def)
  show l: "length (contents (pushed x q)) = length (contents q @ [x])"
    using s by (simp add: pushed_def nat_add_distrib)
  fix k assume k: "k < length (contents (pushed x q))"
  then have k': "int k \<le> m_size q" using l s by simp
  let ?b = "nat ((m_back q + 1) mod m_max_size q)"
  have slots: "slot (pushed x q) k = slot q k" by (simp add: slot_def pushed_def)
  have b: "?b = nat ((m_front q + 1 + m_size q) mod m_max_size q)"
    using pushed_slot_back [OF assms(1)] by simp
  have lt: "slot q k < length (m_array q)" using assms(1) by (rule slot_less)
  have here: "contents (pushed x q) ! k = (m_array q)[?b := x] ! slot q k"
    using k slots by (simp add: contents_def) (simp add: pushed_def)
  show "contents (pushed x q) ! k = (contents q @ [x]) ! k"
  proof (cases "int k = m_size q")
    case True
    then have "slot q k = ?b" and "\<not> k < nat (m_size q)" and "k - nat (m_size q) = 0"
      using b by (simp_all add: slot_def)
    with here lt show ?thesis by (simp add: nth_append)
  next
    case False
    with k' have kl: "int k < m_size q" by simp
    have "slot q k \<noteq> ?b"
    proof
      assume "slot q k = ?b"
      then have "(m_front q + 1 + int k) mod m_max_size q = (m_front q + 1 + m_size q) mod m_max_size q"
        unfolding b slot_def using s(2) by (simp only: eq_nat_nat_iff pos_mod_sign)
      then have "int k = m_size q"
        using kl s(1) assms(2) mod_inj_window [of "int k" "m_max_size q" "m_size q" "m_front q + 1"]
        by simp
      with kl show False by simp
    qed
    moreover have "k < nat (m_size q)" using kl by simp
    ultimately show ?thesis using here by (simp add: nth_append contents_def)
  qed
qed

definition popped :: "'a block_queue \<Rightarrow> 'a block_queue" where
  "popped q = q\<lparr>m_front := (m_front q + 1) mod m_max_size q, m_size := m_size q - 1\<rparr>"

lemma slot_0: "slot q 0 = nat ((m_front q + 1) mod m_max_size q)"
  by (simp add: slot_def)

lemma hd_contents: "0 < m_size q \<Longrightarrow> hd (contents q) = m_array q ! slot q 0"
  by (simp add: contents_def hd_map upt_conv_Cons)

lemma contents_mutex [simp]: "contents (q\<lparr>m_mutex := m\<rparr>) = contents q"
  by (simp add: contents_def slot_def)

text \<open>What \<open>pop\<close> does to a state it reads under the mutex, with an item in the queue.\<close>

lemma pop_wait_ready:
  assumes "bq_inv (q\<lparr>m_mutex := Free\<rparr>)" and "m_mutex q = Held" and "0 < m_size q"
  shows "bq_pop_wait t q = Inr (Popped (hd (contents q)), popped (q\<lparr>m_mutex := Free\<rparr>))"
  using assms
  by (cases q)
    (simp add: bq_inv_def leave_Held bq_pop_wait_def Let_def aget_def
      c_mod_nonneg popped_def hd_contents slot_0)

lemma pop_ready:
  assumes "bq_inv q" and "0 < m_size q"
  shows "bq_pop t q = Inr (Popped (hd (contents q)), popped q)"
proof -
  have m: "m_mutex q = Free" using assms(1) by (simp add: bq_inv_def)
  with assms pop_wait_ready [of "q\<lparr>m_mutex := Held\<rparr>" t] show ?thesis
    by (simp add: bq_pop_def enter_Free restore_mutex)
qed

lemma pop_wait_empty:
  assumes "m_mutex q = Held" and "m_size q = 0"
  shows "bq_pop_wait t q = Inr (PopBlocked, q\<lparr>m_cond := m_cond q @ [t], m_mutex := Free\<rparr>)"
  using assms by (simp add: bq_pop_wait_def cond_wait_def)

lemma pop_empty:
  assumes "bq_inv q" and "m_size q = 0"
  shows "bq_pop t q = Inr (PopBlocked, q\<lparr>m_cond := m_cond q @ [t]\<rparr>)"
proof -
  have "m_mutex q = Free" using assms(1) by (simp add: bq_inv_def)
  then show ?thesis using pop_wait_empty [of "q\<lparr>m_mutex := Held\<rparr>" t] assms(2)
    by (cases q) (simp add: bq_pop_def enter_Free)
qed

text \<open>A thread whose wait has returned goes on as a call that finds the mutex free.\<close>

lemma pop_wake_awake:
  assumes "m_mutex q = Free" and "t \<notin> set (m_cond q)"
  shows "bq_pop_wake t woken q = Some (if woken then bq_pop t q else Inr (PopFailed, q))"
  using assms by (simp add: bq_pop_wake_def cond_wait_return_def bq_pop_def enter_Free leave_Held restore_mutex)

lemma bq_inv_cond [simp]: "bq_inv (q\<lparr>m_cond := c\<rparr>) = bq_inv q"
  by (simp add: bq_inv_def)

lemma contents_cond [simp]: "contents (q\<lparr>m_cond := c\<rparr>) = contents q"
  by (simp add: contents_def slot_def)

lemma capacity_cond [simp]: "capacity (q\<lparr>m_cond := c\<rparr>) = capacity q"
  by (simp add: capacity_def)

lemma popped_inv:
  assumes "bq_inv q" and "0 < m_size q"
  shows "bq_inv (popped q)"
proof -
  have p: "0 < m_max_size q" using assms(1) by (simp add: bq_inv_def)
  have "m_back q mod m_max_size q = ((m_front q + 1) + (m_size q - 1)) mod m_max_size q"
    using assms(1) by (simp add: bq_inv_def)
  also have "\<dots> = ((m_front q + 1) mod m_max_size q + (m_size q - 1)) mod m_max_size q"
    by (simp only: mod_add_left_eq)
  finally show ?thesis using assms p
    by (simp add: bq_inv_def popped_def order_trans [OF _ pos_mod_sign [OF p]])
qed

lemma popped_contents:
  assumes "bq_inv q" and "0 < m_size q"
  shows "contents (popped q) = tl (contents q)"
proof (rule nth_equalityI)
  show l: "length (contents (popped q)) = length (tl (contents q))"
    using assms(2) by (simp add: popped_def nat_diff_distrib)
  fix k assume "k < length (contents (popped q))"
  then have k: "Suc k < nat (m_size q)" using l by simp
  have "slot (popped q) k = slot q (Suc k)"
    by (simp add: slot_def popped_def mod_add_left_eq add.assoc)
  with k show "contents (popped q) ! k = tl (contents q) ! k"
    using \<open>k < length (contents (popped q))\<close>
    by (simp add: nth_tl contents_def) (simp add: popped_def)
qed

lemma full_spec: "bq_inv q \<Longrightarrow> bq_full q = Inr (length (contents q) = capacity q, q)"
  by (auto simp: bq_full_def bq_inv_def enter_Free leave_Held restore_mutex capacity_def)

lemma empty_spec: "bq_inv q \<Longrightarrow> bq_empty q = Inr (contents q = [], q)"
  by (auto simp: bq_empty_def enter_Free leave_Held restore_mutex contents_nil_iff bq_inv_def
      contents_def)

lemma size_spec: "bq_inv q \<Longrightarrow> bq_size q = Inr (int (length (contents q)), q)"
  by (auto simp: bq_size_def bq_inv_def enter_Free leave_Held restore_mutex)

lemma clear_spec:
  assumes "bq_inv q"
  shows "\<exists>q'. bq_clear q = Inr ((), q') \<and> bq_inv q' \<and> contents q' = [] \<and> capacity q' = capacity q"
  using assms
  by (auto simp: bq_clear_def bq_inv_def enter_Free leave_Held contents_def capacity_def)

lemma last_contents:
  assumes "bq_inv q" and "0 < m_size q"
  shows "last (contents q) = m_array q ! nat (m_back q)"
proof -
  let ?k = "nat (m_size q) - 1"
  have "contents q \<noteq> []" using assms(2) by (simp add: contents_def)
  then have "last (contents q) = contents q ! ?k"
    by (simp add: last_conv_nth)
  also have "\<dots> = m_array q ! slot q ?k"
    using assms(2) by (simp add: contents_def)
  also have "slot q ?k = nat ((m_front q + m_size q) mod m_max_size q)"
    using assms(2) by (simp add: slot_def of_nat_diff)
  also have "\<dots> = nat (m_back q)"
  proof -
    have "(m_front q + m_size q) mod m_max_size q = m_back q mod m_max_size q"
      using assms(1) by (simp add: bq_inv_def)
    moreover have "m_back q mod m_max_size q = m_back q"
      using assms by (intro mod_pos_pos_trivial) (simp_all add: bq_inv_def)
    ultimately show ?thesis by simp
  qed
  finally show ?thesis .
qed

section \<open>The interface a client relies on\<close>

text \<open>
  A bounded queue shared by a producer and a consumer: what the producer's \<open>enq\<close> and the
  consumer's \<open>deq\<close> do to the list the queue stands for. \<open>deq\<close> is the call that does not wait.
\<close>

datatype 'a queue_op = Enq 'a | Deq

text \<open>
  A run of calls: the items \<open>enq\<close> accepted and the items \<open>deq\<close> delivered, in order, and the
  final queue.
\<close>

fun run_queue :: "('a \<Rightarrow> 'q \<Rightarrow> (bool \<times> 'q) res) \<Rightarrow> ('q \<Rightarrow> ('a option \<times> 'q) res) \<Rightarrow>
    'a queue_op list \<Rightarrow> 'q \<Rightarrow> ('a list \<times> 'a list \<times> 'q) res" where
  "run_queue enq deq [] q = Inr ([], [], q)"
| "run_queue enq deq (Enq x # ops) q =
     andThen (enq x q) (\<lambda>(accepted, q').
       andThen (run_queue enq deq ops q') (\<lambda>(ins, outs, q'').
         Inr ((if accepted then x # ins else ins), outs, q'')))"
| "run_queue enq deq (Deq # ops) q =
     andThen (deq q) (\<lambda>(item, q').
       andThen (run_queue enq deq ops q') (\<lambda>(ins, outs, q'').
         Inr (ins, (case item of None \<Rightarrow> outs | Some x \<Rightarrow> x # outs), q'')))"

locale bounded_queue =
  fixes inv :: "'q \<Rightarrow> bool"
    and items :: "'q \<Rightarrow> 'a list"
    and cap :: "'q \<Rightarrow> nat"
    and enq :: "'a \<Rightarrow> 'q \<Rightarrow> (bool \<times> 'q) res"
    and deq :: "'q \<Rightarrow> ('a option \<times> 'q) res"
  assumes inv_cap: "inv q \<Longrightarrow> length (items q) \<le> cap q"
    and enq_room: "inv q \<Longrightarrow> length (items q) < cap q \<Longrightarrow>
      \<exists>q'. enq x q = Inr (True, q') \<and> inv q' \<and> items q' = items q @ [x] \<and> cap q' = cap q"
    and enq_full: "inv q \<Longrightarrow> length (items q) = cap q \<Longrightarrow>
      \<exists>q'. enq x q = Inr (False, q') \<and> inv q' \<and> items q' = items q \<and> cap q' = cap q"
    and deq_item: "inv q \<Longrightarrow> items q = x # xs \<Longrightarrow>
      \<exists>q'. deq q = Inr (Some x, q') \<and> inv q' \<and> items q' = xs \<and> cap q' = cap q"
    and deq_none: "inv q \<Longrightarrow> items q = [] \<Longrightarrow>
      \<exists>q'. deq q = Inr (None, q') \<and> inv q' \<and> items q' = [] \<and> cap q' = cap q"
begin

lemma enq_total:
  assumes "inv q"
  shows "\<exists>a q'. enq x q = Inr (a, q') \<and> inv q' \<and> cap q' = cap q \<and>
    items q' = items q @ (if a then [x] else []) \<and> (a \<longleftrightarrow> length (items q) < cap q)"
proof (cases "length (items q) < cap q")
  case True
  with enq_room [OF assms] show ?thesis by fastforce
next
  case False
  with inv_cap [OF assms] have "length (items q) = cap q" by simp
  with enq_full [OF assms] show ?thesis by fastforce
qed

lemma deq_total:
  assumes "inv q"
  shows "\<exists>r q'. deq q = Inr (r, q') \<and> inv q' \<and> cap q' = cap q \<and>
    items q = (case r of None \<Rightarrow> [] | Some x \<Rightarrow> [x]) @ items q' \<and> (r = None \<longleftrightarrow> items q = [])"
proof (cases "items q")
  case Nil
  with deq_none [OF assms] show ?thesis by fastforce
next
  case (Cons x xs)
  with deq_item [OF assms] show ?thesis by fastforce
qed

text \<open>No run faults, and what was accepted is what was delivered followed by what is left.\<close>

lemma run_fifo:
  "inv q \<Longrightarrow> \<exists>ins outs q'. run_queue enq deq ops q = Inr (ins, outs, q') \<and> inv q' \<and>
     cap q' = cap q \<and> items q @ ins = outs @ items q'"
proof (induction ops arbitrary: q)
  case Nil
  then show ?case by simp
next
  case (Cons op ops)
  show ?case
  proof (cases op)
    case (Enq x)
    obtain a q1 where 1: "enq x q = Inr (a, q1)" "inv q1" "cap q1 = cap q"
      "items q1 = items q @ (if a then [x] else [])"
      using enq_total [OF Cons.prems, of x] by blast
    with Cons.IH [OF 1(2)] Enq show ?thesis by (cases a) auto
  next
    case Deq
    obtain r q1 where 1: "deq q = Inr (r, q1)" "inv q1" "cap q1 = cap q"
      "items q = (case r of None \<Rightarrow> [] | Some x \<Rightarrow> [x]) @ items q1"
      using deq_total [OF Cons.prems] by blast
    with Cons.IH [OF 1(2)] Deq show ?thesis by (auto split: option.splits)
  qed
qed

end

text \<open>The queue of the server is such a queue; its \<open>deq\<close> is the call of \<open>pop\<close> by thread 0, which may fall asleep.\<close>

definition bq_try_pop :: "'a block_queue \<Rightarrow> ('a option \<times> 'a block_queue) res" where
  "bq_try_pop q = andThen (bq_pop 0 q) (\<lambda>(r, q').
     Inr (case r of Popped x \<Rightarrow> Some x | _ \<Rightarrow> None, q'))"

lemma length_contents_less: "bq_inv q \<Longrightarrow> length (contents q) < capacity q \<longleftrightarrow> m_size q < m_max_size q"
  by (auto simp: capacity_def bq_inv_def)

interpretation bq: bounded_queue bq_inv contents capacity bq_push bq_try_pop
proof
  fix q :: "'a block_queue" and x :: 'a and xs
  assume i: "bq_inv q"
  show "length (contents q) \<le> capacity q" using i by (simp add: capacity_def bq_inv_def nat_mono)
  { assume "length (contents q) < capacity q"
    with length_contents_less [OF i] have "m_size q < m_max_size q" by blast
    with i show "\<exists>q'. bq_push x q = Inr (True, q') \<and> bq_inv q' \<and>
        contents q' = contents q @ [x] \<and> capacity q' = capacity q"
      by (simp add: push_room pushed_inv pushed_contents) (simp add: pushed_def capacity_def) }
  { assume "length (contents q) = capacity q"
    with i have "m_size q = m_max_size q"
      using length_contents_less [OF i] by (simp add: bq_inv_def)
    with i show "\<exists>q'. bq_push x q = Inr (False, q') \<and> bq_inv q' \<and>
        contents q' = contents q \<and> capacity q' = capacity q"
      by (simp add: push_full) }
  { assume c: "contents q = x # xs"
    with i have "0 < m_size q" using contents_nil_iff [OF i] by (auto simp: bq_inv_def)
    with i c show "\<exists>q'. bq_try_pop q = Inr (Some x, q') \<and> bq_inv q' \<and> contents q' = xs \<and>
        capacity q' = capacity q"
      by (simp add: bq_try_pop_def pop_ready popped_inv popped_contents)
        (simp add: popped_def capacity_def) }
  { assume "contents q = []"
    with i show "\<exists>q'. bq_try_pop q = Inr (None, q') \<and> bq_inv q' \<and> contents q' = [] \<and>
        capacity q' = capacity q"
      by (simp add: bq_try_pop_def pop_empty contents_nil_iff) }
qed

section \<open>Properties\<close>

text \<open>C14: any interleaving of \<open>push\<close> and of \<open>pop\<close> calls on a fresh queue runs without a fault
  and is first in, first out: the accepted items are, in order, the delivered ones followed by
  those still queued, never more than \<open>max_size\<close> of them.\<close>

theorem block_queue_fifo:
  assumes "block_queue_new d n = Inr q"
  shows "\<exists>ins outs q'. run_queue bq_push bq_try_pop ops q = Inr (ins, outs, q') \<and>
    ins = outs @ contents q' \<and> int (length (contents q')) \<le> n \<and> bq_inv q'"
proof -
  from bq.run_fifo [OF bq_new_inv(1) [OF assms], of ops]
  obtain ins outs q' where r: "run_queue bq_push bq_try_pop ops q = Inr (ins, outs, q')"
    "bq_inv q'" "capacity q' = capacity q" "contents q @ ins = outs @ contents q'" by blast
  moreover have "length (contents q') \<le> capacity q'" using r(2) by (rule bq.inv_cap)
  ultimately show ?thesis using bq_new_inv(2,3) [OF assms] by (intro exI [of _ q'] exI) auto
qed

theorem block_queue_fifo_witness:
  "\<exists>ins outs q'. run_queue bq_push bq_try_pop [Enq (1::nat), Enq 2, Enq 3, Deq, Enq 4]
      (\<lparr>m_mutex = Free, m_cond = [], m_array = [0, 0], m_size = 0, m_max_size = 2,
        m_front = -1, m_back = -1\<rparr>) = Inr (ins, outs, q') \<and>
    ins = outs @ contents q' \<and> int (length (contents q')) \<le> 2 \<and> bq_inv q'"
  by (rule block_queue_fifo [of 0]) (simp add: block_queue_new_def locker_new_def cond_new_def numeral_2_eq_2)

text \<open>The two ways a \<open>push\<close> ends. With room it stores the item behind the others and wakes
  the waiting threads; on a full queue it changes nothing but wakes them and returns false.\<close>

lemma block_queue_push_result:
  assumes "bq_inv q"
  shows "\<exists>q'. bq_push x q = Inr (length (contents q) < capacity q, q') \<and> bq_inv q' \<and>
    m_cond q' = [] \<and>
    contents q' = (if length (contents q) < capacity q then contents q @ [x] else contents q)"
proof (cases "m_size q < m_max_size q")
  case True
  with assms length_contents_less [OF assms] show ?thesis
    by (simp add: push_room pushed_inv pushed_contents) (simp add: pushed_def)
next
  case False
  with assms have "m_size q = m_max_size q" by (simp add: bq_inv_def)
  with assms length_contents_less [OF assms] show ?thesis
    by (simp add: push_full)
qed

lemma block_queue_push_result_witness:
  "\<exists>q'. bq_push ''b'' \<lparr>m_mutex = Free, m_cond = [], m_array = [''a''], m_size = 1,
      m_max_size = 1, m_front = -1, m_back = 0\<rparr> = Inr (False, q') \<and> contents q' = [''a'']"
  using block_queue_push_result [of "\<lparr>m_mutex = Free, m_cond = [], m_array = [''a''], m_size = 1,
      m_max_size = 1, m_front = -1, m_back = 0\<rparr>" "''b''"]
  by (auto simp: bq_inv_def contents_def capacity_def slot_def)

text \<open>After a pop, \<open>front\<close> reads the slot of the item that was just removed.\<close>

lemma front_after_pop:
  assumes "bq_inv q" and "1 < m_size q"
  shows "bq_front (popped q) = Inr (Some (hd (contents q)), popped q)"
proof -
  have "0 < m_max_size q" using assms(1) by (simp add: bq_inv_def)
  with assms show ?thesis
    by (cases q) (simp add: bq_inv_def bq_front_def enter_Free leave_Held aget_def popped_def
      hd_contents slot_0)
qed

lemma bq_new_fields:
  assumes "block_queue_new d n = Inr q"
  shows "m_front q = -1" and "m_size q = 0" and "m_mutex q = Free" and "m_cond q = []"
  using assms unfolding block_queue_new_def locker_new_def cond_new_def
  by (metis (no_types, lifting) Inr_inject Inl_Inr_False block_queue.select_convs)+

text \<open>\<open>front\<close> does not return the first element. \<open>m_front\<close> is the index before the oldest
  item, so on a queue that has never been popped the call reads \<open>m_array[-1]\<close>, and after a pop
  it returns the item that was just removed instead of the new first one.\<close>

lemma block_queue_front_wrong:
  assumes "block_queue_new d n = Inr q" and "bq_push x q = Inr (True, q1)"
    and "bq_push y q1 = Inr (True, q2)"
  shows "contents q2 = [x, y] \<and> bq_front q2 = Inl OutOfBounds \<and>
    (\<exists>q3. bq_pop 0 q2 = Inr (Popped x, q3) \<and> contents q3 = [y] \<and> bq_front q3 = Inr (Some x, q3))"
proof -
  note i = bq_new_inv(1,2) [OF assms(1)] bq_new_fields [OF assms(1)]
  then have r: "m_size q < m_max_size q" by (simp add: bq_inv_def)
  with i assms(2) have q1: "q1 = pushed x q" by (simp add: push_room)
  have i1: "bq_inv q1" "contents q1 = [x]" "m_front q1 = -1" "m_size q1 = 1"
    using q1 i r by (simp_all add: pushed_inv pushed_contents) (simp_all add: pushed_def)
  have r1: "m_size q1 < m_max_size q1"
  proof (rule ccontr)
    assume "\<not> ?thesis"
    then have "m_size q1 = m_max_size q1" using i1(1) by (simp add: bq_inv_def)
    with assms(3) i1(1) show False by (simp add: push_full)
  qed
  with i1 assms(3) have q2: "q2 = pushed y q1" by (simp add: push_room)
  have i2: "bq_inv q2" "contents q2 = [x, y]" "m_front q2 = -1" "m_size q2 = 2" "m_mutex q2 = Free"
    using q2 i1 r1 by (simp_all add: pushed_inv pushed_contents) (simp_all add: pushed_def bq_inv_def)
  have "bq_front q2 = Inl OutOfBounds"
    using i2 by (simp add: bq_front_def enter_Free aget_def)
  moreover have "bq_pop 0 q2 = Inr (Popped x, popped q2)" "contents (popped q2) = [y]"
    "bq_front (popped q2) = Inr (Some x, popped q2)"
    using i2 pop_ready [of q2 0] popped_contents [of q2] front_after_pop [of q2] by simp_all
  ultimately show ?thesis using i2(2) by blast
qed

lemma block_queue_front_wrong_witness:
  "bq_front \<lparr>m_mutex = Free, m_cond = [], m_array = [''a'', ''b''], m_size = 2, m_max_size = 2,
      m_front = -1, m_back = 1\<rparr> = Inl OutOfBounds"
  using block_queue_front_wrong [of "''''" 2
      "\<lparr>m_mutex = Free, m_cond = [], m_array = ['''', ''''], m_size = 0, m_max_size = 2,
        m_front = -1, m_back = -1\<rparr>" "''a''"
      "\<lparr>m_mutex = Free, m_cond = [], m_array = [''a'', ''''], m_size = 1, m_max_size = 2,
        m_front = -1, m_back = 0\<rparr>" "''b''"
      "\<lparr>m_mutex = Free, m_cond = [], m_array = [''a'', ''b''], m_size = 2, m_max_size = 2,
        m_front = -1, m_back = 1\<rparr>"]
  by (simp add: block_queue_new_def locker_new_def cond_new_def numeral_2_eq_2 bq_push_def enter_def leave_def
      aset_def c_mod_def cond_broadcast_def)

end
