(* ===== verification/QueueWait.thy ===== *)
theory QueueWait
  imports BlockQueue
begin

text \<open>
  Threads that wait at the block queue of \<open>inc/block_queue.h\<close>: any number of them call \<open>pop\<close>, others \<open>push\<close>. What a thread
  does while it holds the mutex is one step, and every step is a call of the queue's own functions: \<open>bq_push\<close>, \<open>bq_pop\<close>
  by a thread that is not in \<open>pop\<close>, \<open>bq_pop_wake\<close> by one whose wait returns, with or without success. Who sleeps is in \<open>m_cond\<close>,
  which only these functions and the system, which may wake a thread for no reason, change.
\<close>

datatype pop_pc = Outside | InWait

record 'a pop_sys =
  queue :: "'a block_queue"
  poppers :: "pop_pc list"
  pushed_items :: "'a list"             \<comment> \<open>accepted by \<open>push\<close>, in order\<close>
  delivered_items :: "(nat \<times> 'a) list"    \<comment> \<open>what \<open>pop\<close> gave to which thread, in order\<close>

definition pop_start :: "nat \<Rightarrow> 'a block_queue \<Rightarrow> 'a pop_sys" where
  "pop_start n q = \<lparr>queue = q, poppers = replicate n Outside, pushed_items = [], delivered_items = []\<rparr>"

text \<open>Thread \<open>i\<close> comes to the end of a piece of \<open>pop\<close>.\<close>

fun pop_after :: "nat \<Rightarrow> 'a pop_out \<times> 'a block_queue \<Rightarrow> 'a pop_sys \<Rightarrow> 'a pop_sys" where
  "pop_after i (Popped x, q) s = s\<lparr>queue := q, poppers := (poppers s)[i := Outside], delivered_items := delivered_items s @ [(i, x)]\<rparr>"
| "pop_after i (PopFailed, q) s = s\<lparr>queue := q, poppers := (poppers s)[i := Outside]\<rparr>"
| "pop_after i (PopBlocked, q) s = s\<lparr>queue := q, poppers := (poppers s)[i := InWait]\<rparr>"

inductive pop_step :: "'a pop_sys \<Rightarrow> 'a pop_sys \<Rightarrow> bool" where
  push: "bq_push x (queue s) = Inr (accepted, q) \<Longrightarrow>
     pop_step s (s\<lparr>queue := q, pushed_items := pushed_items s @ (if accepted then [x] else [])\<rparr>)"
| call: "\<lbrakk>i < length (poppers s); poppers s ! i = Outside; bq_pop i (queue s) = Inr r\<rbrakk> \<Longrightarrow> pop_step s (pop_after i r s)"
| return: "\<lbrakk>i < length (poppers s); poppers s ! i = InWait; bq_pop_wake i woken (queue s) = Some (Inr r)\<rbrakk> \<Longrightarrow>
     pop_step s (pop_after i r s)"
| spurious: "pop_step s (s\<lparr>queue := (queue s)\<lparr>m_cond := cond_wake i (m_cond (queue s))\<rparr>\<rparr>)"

inductive pop_reach :: "'a pop_sys \<Rightarrow> 'a pop_sys \<Rightarrow> bool" for s0 where
  start: "pop_reach s0 s0"
| step: "pop_reach s0 s \<Longrightarrow> pop_step s t \<Longrightarrow> pop_reach s0 t"

section \<open>Nobody sleeps beside an item\<close>

definition pop_ok :: "'a pop_sys \<Rightarrow> bool" where
  "pop_ok s \<longleftrightarrow> bq_inv (queue s) \<and> (m_cond (queue s) \<noteq> [] \<longrightarrow> contents (queue s) = []) \<and>
     (\<forall>i \<in> set (m_cond (queue s)). i < length (poppers s) \<and> poppers s ! i = InWait) \<and>
     pushed_items s = map snd (delivered_items s) @ contents (queue s)"

lemma pop_ok_start: "block_queue_new d n = Inr q \<Longrightarrow> pop_ok (pop_start k q)"
  by (simp add: pop_ok_def pop_start_def bq_new_inv bq_new_fields)

text \<open>What a call of \<open>pop\<close> does up to its return or its sleep.\<close>

lemma bq_pop_result:
  assumes "bq_inv q"
  shows "bq_pop t q = Inr (case contents q of
      [] \<Rightarrow> (PopBlocked, q\<lparr>m_cond := m_cond q @ [t]\<rparr>) | x # xs \<Rightarrow> (Popped x, popped q))"
proof (cases "contents q")
  case Nil
  with pop_empty [OF assms] contents_nil_iff [OF assms] show ?thesis by simp
next
  case (Cons x xs)
  then have "0 < m_size q" using contents_nil_iff [OF assms] assms by (auto simp: bq_inv_def)
  with pop_ready [OF assms] Cons show ?thesis by simp
qed

lemma popped_spec:
  assumes "bq_inv q" and "contents q = x # xs"
  shows "bq_inv (popped q)" and "contents (popped q) = xs" and "m_cond (popped q) = m_cond q"
proof -
  have "0 < m_size q" using contents_nil_iff [OF assms(1)] assms by (auto simp: bq_inv_def)
  with popped_inv [OF assms(1)] popped_contents [OF assms(1)] assms(2)
  show "bq_inv (popped q)" "contents (popped q) = xs" by simp_all
  show "m_cond (popped q) = m_cond q" by (simp add: popped_def)
qed

lemma pop_ok_after:
  assumes "pop_ok s" and "i < length (poppers s)" and "i \<notin> set (m_cond (queue s))" and "bq_pop i (queue s) = Inr r"
  shows "pop_ok (pop_after i r s)"
proof -
  have q: "bq_inv (queue s)" using assms(1) by (simp add: pop_ok_def)
  show ?thesis
  proof (cases "contents (queue s)")
    case Nil
    then have "r = (PopBlocked, (queue s)\<lparr>m_cond := m_cond (queue s) @ [i]\<rparr>)" using assms(4) bq_pop_result [OF q] by simp
    with assms(1,2) Nil show ?thesis by (auto simp: pop_ok_def nth_list_update)
  next
    case (Cons x xs)
    then have "r = (Popped x, popped (queue s))" using assms(4) bq_pop_result [OF q] by simp
    with assms Cons popped_spec [OF q Cons] show ?thesis by (auto simp: pop_ok_def)
  qed
qed

text \<open>The return of a wait.\<close>

lemma bq_pop_wake_cases:
  assumes "bq_pop_wake i woken q = Some r"
  shows "i \<notin> set (m_cond q)" and "r = (if woken then bq_pop i q else Inr (PopFailed, q))"
proof -
  have "i \<notin> set (m_cond q) \<and> m_mutex q = Free"
    using assms by (auto simp: bq_pop_wake_def cond_wait_return_def split: if_splits)
  with assms pop_wake_awake [of q i woken]
  show "i \<notin> set (m_cond q)" "r = (if woken then bq_pop i q else Inr (PopFailed, q))" by simp_all
qed

lemma push_wakes:
  assumes "bq_inv q" and "bq_push x q = Inr (accepted, q')"
  shows "bq_inv q'" and "contents q' = contents q @ (if accepted then [x] else [])" and "m_cond q' = []"
proof -
  from bq.enq_total [OF assms(1), of x] assms(2)
  show "bq_inv q'" "contents q' = contents q @ (if accepted then [x] else [])" by auto
  from block_queue_push_result [OF assms(1), of x] assms(2) show "m_cond q' = []" by auto
qed

lemma pop_ok_step:
  assumes "pop_step s t" and "pop_ok s"
  shows "pop_ok t"
  using assms(1)
proof cases
  case (push x accepted q)
  have "bq_inv (queue s)" using assms(2) by (simp add: pop_ok_def)
  from push_wakes [OF this push(2)] push(1) assms(2) show ?thesis by (simp add: pop_ok_def)
next
  case (call i r)
  then have "i \<notin> set (m_cond (queue s))" using assms(2) by (auto simp: pop_ok_def)
  with call assms(2) show ?thesis by (auto intro: pop_ok_after)
next
  case (return i woken r)
  note w = bq_pop_wake_cases [OF return(4)]
  show ?thesis
  proof (cases woken)
    case True
    with return w assms(2) show ?thesis by (auto intro: pop_ok_after)
  next
    case False
    with w have "t = s\<lparr>poppers := (poppers s)[i := Outside]\<rparr>" using return(1) by auto
    moreover have "(poppers s)[i := Outside] ! j = poppers s ! j" if "j \<in> set (m_cond (queue s))" for j
      using w(1) that by (metis nth_list_update_neq)
    ultimately show ?thesis using assms(2) by (auto simp: pop_ok_def)
  qed
next
  case (spurious i)
  then show ?thesis using assms(2) by (auto simp: pop_ok_def cond_wake_def)
qed

lemma pop_reach_ok: "pop_reach s0 s \<Longrightarrow> pop_ok s0 \<Longrightarrow> pop_ok s"
  by (induction rule: pop_reach.induct) (auto intro: pop_ok_step)

section \<open>Properties\<close>

text \<open>C15: no wake-up is lost at the queue. In every state any number of threads in \<open>push\<close> and \<open>pop\<close> reach, spurious
  wake-ups and failing waits included, no call faults, the items accepted are those delivered, each to one thread and in
  order, followed by those in the queue; and when there is an item, no thread in \<open>pop\<close> is asleep: each can return with
  the first one.\<close>

theorem pop_never_misses:
  assumes "block_queue_new d n = Inr q" and "pop_reach (pop_start k q) s"
  shows "pushed_items s = map snd (delivered_items s) @ contents (queue s) \<and>
    (\<forall>x i. (\<exists>r. bq_push x (queue s) = Inr r) \<and> (\<exists>r. bq_pop i (queue s) = Inr r)) \<and>
    (\<forall>i x xs. i < length (poppers s) \<and> poppers s ! i = InWait \<and> contents (queue s) = x # xs \<longrightarrow>
      (\<exists>t. pop_step s t \<and> delivered_items t = delivered_items s @ [(i, x)] \<and> contents (queue t) = xs \<and>
         poppers t = (poppers s)[i := Outside]))"
proof -
  have ok: "pop_ok s" by (rule pop_reach_ok [OF assms(2) pop_ok_start [OF assms(1)]])
  then have q: "bq_inv (queue s)" by (simp add: pop_ok_def)
  have "\<exists>t. pop_step s t \<and> delivered_items t = delivered_items s @ [(i, x)] \<and> contents (queue t) = xs \<and>
       poppers t = (poppers s)[i := Outside]"
    if i: "i < length (poppers s)" "poppers s ! i = InWait" and c: "contents (queue s) = x # xs" for i x xs
  proof -
    have "m_cond (queue s) = []" "m_mutex (queue s) = Free" using ok c q by (auto simp: pop_ok_def bq_inv_def)
    then have "bq_pop_wake i True (queue s) = Some (Inr (Popped x, popped (queue s)))"
      using pop_wake_awake [of "queue s" i True] bq_pop_result [OF q] c by simp
    from pop_step.return [OF i this] popped_spec(2) [OF q c] show ?thesis by (intro exI conjI) auto
  qed
  moreover have "(\<exists>r. bq_push x (queue s) = Inr r) \<and> (\<exists>r. bq_pop i (queue s) = Inr r)" for x i
    using bq.enq_total [OF q, of x] bq_pop_result [OF q, of i] by blast
  ultimately show ?thesis using ok by (simp add: pop_ok_def)
qed

text \<open>The witness: a thread falls asleep at a queue of one place, then an item comes.\<close>

theorem pop_never_misses_witness:
  "\<exists>(q :: nat block_queue) s t. block_queue_new 0 1 = Inr q \<and> pop_reach (pop_start 1 q) s \<and> poppers s = [InWait] \<and>
     pushed_items s = [7] \<and> pop_step s t \<and> delivered_items t = [(0, 7)]"
proof -
  obtain q :: "nat block_queue" where q: "block_queue_new 0 1 = Inr q" by (simp add: block_queue_new_def)
  note i = bq_new_inv [OF q]
  let ?s0 = "pop_start 1 q"
  let ?q1 = "q\<lparr>m_cond := [0]\<rparr>"
  let ?s1 = "?s0\<lparr>queue := ?q1, poppers := [InWait]\<rparr>"
  have "pop_step ?s0 ?s1"
    using pop_step.call [of 0 ?s0 "(PopBlocked, ?q1)"] bq_pop_result [OF i(1), of 0] i(2) bq_new_fields(4) [OF q]
    by (simp add: pop_start_def)
  then have r1: "pop_reach ?s0 ?s1" by (rule pop_reach.step [OF pop_reach.start])
  obtain q2 where q2: "bq_push 7 ?q1 = Inr (True, q2)" "contents q2 = [7]"
    using bq.enq_room [of ?q1 7] i by auto
  let ?s2 = "?s1\<lparr>queue := q2, pushed_items := [7]\<rparr>"
  have "pop_step ?s1 ?s2" using pop_step.push [of 7 ?s1 True q2] q2(1) by (simp add: pop_start_def)
  then have r2: "pop_reach ?s0 ?s2" by (rule pop_reach.step [OF r1])
  have "poppers ?s2 = [InWait]" "pushed_items ?s2 = [7]" by simp_all
  moreover obtain t where "pop_step ?s2 t" "delivered_items t = [(0, 7)]"
    using pop_never_misses [OF q r2] q2(2) by (force simp: pop_start_def)
  ultimately show ?thesis using q r2 by blast
qed

end
