(* ===== verification/CString.thy ===== *)
theory CString
  imports Prelude
begin

text \<open>
  Character buffers and the functions of \<open><string.h>\<close>, \<open><strings.h>\<close> and \<open><stdlib.h>\<close> the
  servers use. A \<open>char\<close> array is a list of its characters, the length being its capacity; a
  pointer into it is an offset. Every access is checked: outside the array it is the fault
  \<open>OutOfBounds\<close>, and a function that scans for the terminating NUL faults when the array ends
  first.
\<close>

abbreviation NUL :: char where "NUL \<equiv> CHR 0x00"
abbreviation TAB :: char where "TAB \<equiv> CHR 0x09"
abbreviation LF :: char where "LF \<equiv> CHR 0x0A"
abbreviation CR :: char where "CR \<equiv> CHR 0x0D"
abbreviation SP :: char where "SP \<equiv> CHR 0x20"

type_synonym buffer = "char list"

section \<open>Checked accesses\<close>

definition rd :: "buffer \<Rightarrow> nat \<Rightarrow> char res" where
  "rd buf i = (if i < length buf then Inr (buf ! i) else Inl OutOfBounds)"

definition wr :: "buffer \<Rightarrow> nat \<Rightarrow> char \<Rightarrow> buffer res" where
  "wr buf i c = (if i < length buf then Inr (buf[i := c]) else Inl OutOfBounds)"

text \<open>A write at a signed offset, for an index the code computes from input.\<close>

definition wr_at :: "buffer \<Rightarrow> int \<Rightarrow> char \<Rightarrow> buffer res" where
  "wr_at buf i c = (if 0 \<le> i then wr buf (nat i) c else Inl OutOfBounds)"

text \<open>Storing a run of characters at an offset.\<close>

definition put :: "buffer \<Rightarrow> nat \<Rightarrow> string \<Rightarrow> buffer res" where
  "put buf p s =
     (if p + length s \<le> length buf then Inr (take p buf @ s @ drop (p + length s) buf)
      else Inl OutOfBounds)"

lemma rd_Inr [simp]: "rd buf i = Inr c \<longleftrightarrow> i < length buf \<and> c = buf ! i"
  by (auto simp: rd_def)

lemma wr_Inr [simp]: "wr buf i c = Inr b \<longleftrightarrow> i < length buf \<and> b = buf[i := c]"
  by (auto simp: wr_def)

lemma rd_ok [buf_simps]: "i < length buf \<Longrightarrow> rd buf i = Inr (buf ! i)"
  by (simp add: rd_def)

lemma wr_ok [buf_simps]: "i < length buf \<Longrightarrow> wr buf i c = Inr (buf[i := c])"
  by (simp add: wr_def)

lemma put_ok [buf_simps]:
  "p + length s \<le> length buf \<Longrightarrow> put buf p s = Inr (take p buf @ s @ drop (p + length s) buf)"
  by (simp add: put_def)

lemma put_length: "put buf p s = Inr b \<Longrightarrow> length b = length buf"
  by (auto simp: put_def split: if_splits)

lemma put_Inr_iff:
  "put buf p s = Inr b \<longleftrightarrow>
     p + length s \<le> length buf \<and> b = take p buf @ s @ drop (p + length s) buf"
  by (auto simp: put_def)

lemma put_nth_before: "put buf p s = Inr b \<Longrightarrow> i < p \<Longrightarrow> b ! i = buf ! i"
  by (auto simp: put_def nth_append split: if_splits)

lemma put_nth_after: "put buf p s = Inr b \<Longrightarrow> p + length s \<le> i \<Longrightarrow> i < length buf \<Longrightarrow> b ! i = buf ! i"
  by (auto simp: put_def nth_append split: if_splits)

lemma put_drop: "put buf p s = Inr b \<Longrightarrow> p + length s \<le> i \<Longrightarrow> drop i b = drop i buf"
  by (auto simp: put_def split: if_splits)

lemma put_take: "put buf p s = Inr b \<Longrightarrow> i \<le> p \<Longrightarrow> take i b = take i buf"
  by (auto simp: put_def min_def split: if_splits)

section \<open>C strings\<close>

text \<open>The NUL-terminated string at an offset.\<close>

definition cstr :: "buffer \<Rightarrow> nat \<Rightarrow> string res" where
  "cstr buf p =
     (if NUL \<in> set (drop p buf) then Inr (takeWhile (\<lambda>c. c \<noteq> NUL) (drop p buf))
      else Inl OutOfBounds)"

text \<open>At most \<open>n\<close> characters of it, as \<open>strncasecmp\<close> reads them.\<close>

definition cstrn :: "buffer \<Rightarrow> nat \<Rightarrow> nat \<Rightarrow> string res" where
  "cstrn buf p n =
     (if NUL \<in> set (take n (drop p buf)) \<or> p + n \<le> length buf
      then Inr (takeWhile (\<lambda>c. c \<noteq> NUL) (take n (drop p buf)))
      else Inl OutOfBounds)"

definition strlen :: "buffer \<Rightarrow> nat \<Rightarrow> nat res" where
  "strlen buf p = andThen (cstr buf p) (\<lambda>s. Inr (length s))"

definition strpbrk :: "buffer \<Rightarrow> nat \<Rightarrow> string \<Rightarrow> nat option res" where
  "strpbrk buf p acc =
     andThen (cstr buf p) (\<lambda>s.
       Inr (if list_ex (\<lambda>c. c \<in> set acc) s
            then Some (p + length (takeWhile (\<lambda>c. c \<notin> set acc) s)) else None))"

definition strspn :: "buffer \<Rightarrow> nat \<Rightarrow> string \<Rightarrow> nat res" where
  "strspn buf p acc =
     andThen (cstr buf p) (\<lambda>s. Inr (length (takeWhile (\<lambda>c. c \<in> set acc) s)))"

definition strchr :: "buffer \<Rightarrow> nat \<Rightarrow> char \<Rightarrow> nat option res" where
  "strchr buf p c =
     andThen (cstr buf p) (\<lambda>s.
       Inr (if c \<in> set s then Some (p + length (takeWhile (\<lambda>d. d \<noteq> c) s)) else None))"

definition strrchr :: "buffer \<Rightarrow> nat \<Rightarrow> char \<Rightarrow> nat option res" where
  "strrchr buf p c =
     andThen (cstr buf p) (\<lambda>s.
       Inr (if c \<in> set s
            then Some (p + (length s - 1 - length (takeWhile (\<lambda>d. d \<noteq> c) (rev s)))) else None))"

definition tolower :: "char \<Rightarrow> char" where
  "tolower c = (let n = (of_char c :: nat) in if 65 \<le> n \<and> n \<le> 90 then char_of (n + 32) else c)"

text \<open>The code only compares the results of \<open>strcasecmp\<close> and \<open>strncasecmp\<close> with 0.\<close>

definition same_nocase :: "string \<Rightarrow> string \<Rightarrow> bool" where
  "same_nocase s t \<longleftrightarrow> map tolower s = map tolower t"

definition strcasecmp0 :: "buffer \<Rightarrow> nat \<Rightarrow> string \<Rightarrow> bool res" where
  "strcasecmp0 buf p lit = andThen (cstr buf p) (\<lambda>s. Inr (same_nocase s lit))"

definition strncasecmp0 :: "buffer \<Rightarrow> nat \<Rightarrow> string \<Rightarrow> nat \<Rightarrow> bool res" where
  "strncasecmp0 buf p lit n =
     andThen (cstrn buf p n) (\<lambda>s. Inr (same_nocase s (take n lit)))"

definition strcpy :: "buffer \<Rightarrow> nat \<Rightarrow> string \<Rightarrow> buffer res" where
  "strcpy buf p s = put buf p (s @ [NUL])"

definition strcat :: "buffer \<Rightarrow> nat \<Rightarrow> string \<Rightarrow> buffer res" where
  "strcat buf p s = andThen (strlen buf p) (\<lambda>n. put buf (p + n) (s @ [NUL]))"

definition strncpy :: "buffer \<Rightarrow> nat \<Rightarrow> string \<Rightarrow> nat \<Rightarrow> buffer res" where
  "strncpy buf p s n = put buf p (take n s @ replicate (n - length s) NUL)"

text \<open>\<open>vsnprintf\<close> into a buffer at an offset, with the formatted text given: it stores at most
  \<open>n - 1\<close> characters and a NUL, and returns the length of the whole text.\<close>

definition snprintf :: "buffer \<Rightarrow> nat \<Rightarrow> nat \<Rightarrow> string \<Rightarrow> (nat \<times> buffer) res" where
  "snprintf buf p n s =
     (if n = 0 then Inr (length s, buf)
      else andThen (put buf p (take (n - 1) s @ [NUL])) (\<lambda>b. Inr (length s, b)))"

section \<open>Numbers\<close>

definition is_space :: "char \<Rightarrow> bool" where
  "is_space c \<longleftrightarrow> c \<in> {SP, TAB, LF, CHR 0x0B, CHR 0x0C, CR}"

definition is_digit :: "char \<Rightarrow> bool" where
  "is_digit c \<longleftrightarrow> 48 \<le> (of_char c :: nat) \<and> (of_char c :: nat) \<le> 57"

definition digits_value :: "string \<Rightarrow> int" where
  "digits_value s = foldl (\<lambda>n c. 10 * n + (of_char c - 48)) 0 s"

text \<open>The value \<open>atoi\<close> reads: white space, an optional sign, digits. A value no \<open>int\<close> can
  hold is outside its contract.\<close>

definition atoi_value :: "string \<Rightarrow> int" where
  "atoi_value s =
     (let t = dropWhile is_space s
      in case t of
           [] \<Rightarrow> 0
         | c # r \<Rightarrow>
             (if c = CHR ''-'' then - digits_value (takeWhile is_digit r)
              else if c = CHR ''+'' then digits_value (takeWhile is_digit r)
              else digits_value (takeWhile is_digit t)))"

definition atoi :: "buffer \<Rightarrow> nat \<Rightarrow> int res" where
  "atoi buf p =
     andThen (cstr buf p) (\<lambda>s.
       let v = atoi_value s in if in_int v then Inr v else Inl BadConversion)"

text \<open>The decimal digits \<open>%d\<close> prints.\<close>

definition digit_char :: "nat \<Rightarrow> char" where
  "digit_char d = char_of (48 + d)"

fun show_nat :: "nat \<Rightarrow> string" where
  "show_nat n =
     (if n < 10 then [digit_char n] else show_nat (n div 10) @ [digit_char (n mod 10)])"

declare show_nat.simps [simp del]

definition show_int :: "int \<Rightarrow> string" where
  "show_int n = (if n < 0 then CHR ''-'' # show_nat (nat (- n)) else show_nat (nat n))"

text \<open>\<open>%02d\<close> of a value that is not negative.\<close>

definition show_02d :: "nat \<Rightarrow> string" where
  "show_02d n = (if n < 10 then CHR ''0'' # show_nat n else show_nat n)"

section \<open>Lemmas\<close>

lemma cstr_ok:
  "NUL \<in> set (drop p buf) \<Longrightarrow> cstr buf p = Inr (takeWhile (\<lambda>c. c \<noteq> NUL) (drop p buf))"
  by (simp add: cstr_def)

lemma cstr_NUL_free: "cstr buf p = Inr s \<Longrightarrow> NUL \<notin> set s"
  by (auto simp: cstr_def dest: set_takeWhileD split: if_splits)

lemma cstr_bound:
  assumes "cstr buf p = Inr s"
  shows "p + length s < length buf" and "buf ! (p + length s) = NUL"
proof -
  from assms have n: "NUL \<in> set (drop p buf)" and s: "s = takeWhile (\<lambda>c. c \<noteq> NUL) (drop p buf)"
    by (auto simp: cstr_def split: if_splits)
  have l: "length s < length (drop p buf)"
    unfolding s by (rule nth_length_takeWhile_set [OF n])
  then show b: "p + length s < length buf" by simp
  have "drop p buf ! length s = NUL"
    using nth_length_takeWhile [of "\<lambda>c. c \<noteq> NUL" "drop p buf"] l unfolding s by simp
  with b show "buf ! (p + length s) = NUL" by simp
qed

lemma cstr_nth: "cstr buf p = Inr s \<Longrightarrow> i < length s \<Longrightarrow> buf ! (p + i) = s ! i"
  using cstr_bound(1) [of buf p s]
  by (auto simp: cstr_def takeWhile_nth split: if_splits)

lemma cstr_take: "cstr buf p = Inr s \<Longrightarrow> take (length s) (drop p buf) = s"
  by (auto simp: cstr_def takeWhile_eq_take [symmetric] split: if_splits)

text \<open>A string is recognised by its characters and the NUL behind them.\<close>

lemma cstrI:
  assumes "take (length s) (drop p buf) = s" and "NUL \<notin> set s"
    and "p + length s < length buf" and "buf ! (p + length s) = NUL"
  shows "cstr buf p = Inr s"
proof -
  have "drop p buf = s @ NUL # drop (Suc (p + length s)) buf"
    using assms by (metis append_take_drop_id Cons_nth_drop_Suc drop_drop add.commute)
  with assms(2) show ?thesis
    by (simp add: cstr_def takeWhile_neq_append)
qed

text \<open>Only the characters up to the NUL matter.\<close>

lemma cstr_suffix:
  assumes "cstr buf p = Inr s" and "i \<le> length s"
  shows "cstr buf (p + i) = Inr (drop i s)"
proof (rule cstrI)
  have t: "take (length s) (drop p buf) = s" using assms(1) by (rule cstr_take)
  show "take (length (drop i s)) (drop (p + i) buf) = drop i s"
    using t assms(2) by (metis drop_drop drop_take length_drop add.commute)
  show "NUL \<notin> set (drop i s)"
    using cstr_NUL_free [OF assms(1)] by (meson in_set_dropD)
  show "p + i + length (drop i s) < length buf"
    using cstr_bound(1) [OF assms(1)] assms(2) by simp
  show "buf ! (p + i + length (drop i s)) = NUL"
    using cstr_bound(2) [OF assms(1)] assms(2) by simp
qed

lemma cstrn_take:
  assumes "cstr buf p = Inr s"
  shows "cstrn buf p n = Inr (take n s)"
proof -
  have nul: "NUL \<notin> set s" by (rule cstr_NUL_free [OF assms])
  have b: "p + length s < length buf" "buf ! (p + length s) = NUL" using cstr_bound [OF assms] by auto
  have d: "drop p buf = s @ NUL # drop (p + length s + 1) buf"
    using b cstr_take [OF assms]
    by (metis (no_types, lifting) Cons_nth_drop_Suc Suc_eq_plus1 append_take_drop_id drop_drop add.commute)
  show ?thesis
  proof (cases "length s < n")
    case True
    then obtain m where "n - length s = Suc m" by (metis Suc_diff_Suc)
    with nul True show ?thesis unfolding cstrn_def d by (simp add: takeWhile_neq_append)
  next
    case False
    then have "p + n \<le> length buf" using b by simp
    moreover have "takeWhile (\<lambda>c. c \<noteq> NUL) (take n s) = take n s" using nul by (auto simp: takeWhile_eq_all_conv dest: in_set_takeD)
    ultimately show ?thesis using False unfolding cstrn_def d by simp
  qed
qed

lemma strlen_Inr: "strlen buf p = Inr n \<longleftrightarrow> (\<exists>s. cstr buf p = Inr s \<and> n = length s)"
  by (auto simp: strlen_def)

lemma cstr_after_put:
  assumes "put buf p (s @ [NUL]) = Inr b" and "NUL \<notin> set s"
  shows "cstr b p = Inr s"
proof -
  have b: "b = take p buf @ (s @ [NUL]) @ drop (p + length (s @ [NUL])) buf"
    and l: "p + length (s @ [NUL]) \<le> length buf"
    using assms(1) by (auto simp: put_Inr_iff)
  have "drop p b = s @ NUL # drop (p + length (s @ [NUL])) buf"
    using l unfolding b by simp
  with assms(2) show ?thesis by (simp add: cstr_def takeWhile_neq_append)
qed

lemma snprintf_fits:
  assumes "length s < n" and "p + n \<le> length buf"
  shows "snprintf buf p n s = Inr (length s, take p buf @ s @ NUL # drop (p + Suc (length s)) buf)"
  using assms by (simp add: snprintf_def put_def)

lemma digit_char_is_digit: "d < 10 \<Longrightarrow> is_digit (digit_char d)"
  by (simp add: is_digit_def digit_char_def)

lemma of_char_digit_char: "d < 10 \<Longrightarrow> of_char (digit_char d) = (48 + of_nat d :: int)"
proof -
  assume "d < 10"
  then have "(of_char (digit_char d) :: nat) = 48 + d"
    by (simp add: digit_char_def)
  then show ?thesis
    by (metis of_nat_of_char of_nat_add of_nat_numeral)
qed

lemma digit_char_NUL: "d < 10 \<Longrightarrow> digit_char d \<noteq> NUL"
  using digit_char_is_digit [of d] by (auto simp: is_digit_def)

lemma digits_value_append: "digits_value (s @ [c]) = 10 * digits_value s + (of_char c - 48)"
  by (simp add: digits_value_def)

lemma digits_value_show_nat: "digits_value (show_nat n) = int n"
proof (induction n rule: show_nat.induct)
  case (1 n)
  show ?case
  proof (cases "n < 10")
    case True
    then show ?thesis by (simp add: show_nat.simps [of n] digits_value_def of_char_digit_char)
  next
    case False
    with 1 have "digits_value (show_nat (n div 10)) = int (n div 10)" by simp
    with False show ?thesis
      by (simp add: show_nat.simps [of n] digits_value_append of_char_digit_char zdiv_int zmod_int)
  qed
qed

lemma show_nat_NUL: "NUL \<notin> set (show_nat n)"
proof (induction n rule: show_nat.induct)
  case (1 n)
  then show ?case by (subst show_nat.simps) (simp add: not_sym [OF digit_char_NUL])
qed

lemma show_int_NUL: "NUL \<notin> set (show_int n)"
  by (simp add: show_int_def show_nat_NUL)

lemma length_show_nat: "0 < k \<Longrightarrow> n < 10 ^ k \<Longrightarrow> length (show_nat n) \<le> k"
proof (induction k arbitrary: n)
  case (Suc k)
  show ?case
  proof (cases "n < 10")
    case True
    then show ?thesis by (subst show_nat.simps) simp
  next
    case False
    with Suc.prems have "0 < k" by (cases k) auto
    moreover have "n div 10 < 10 ^ k" using Suc.prems by (simp add: less_mult_imp_div_less mult.commute)
    ultimately have "length (show_nat (n div 10)) \<le> k" by (rule Suc.IH)
    with False show ?thesis by (subst show_nat.simps) simp
  qed
qed simp

end
