(* ===== verification/HttpConn.thy ===== *)
theory HttpConn
  imports CString Locker "HOL-Library.Word"
begin

text \<open>
  The connection object of \<open>src/http/http_conn.cpp\<close>: its members, the helpers on descriptors, \<open>init\<close>,
  \<open>close_conn\<close>, the reading of a line (\<open>parse_line\<close>) and of the socket (\<open>read_once\<close>).
  A pointer into \<open>m_read_buf\<close> is an offset. A member that \<open>init\<close> does not set is a \<open>cell\<close>.
\<close>

unbundle bit_operations_syntax

section \<open>The class\<close>

datatype METHOD = GET | POST | HEAD | PUT | DELETE | TRACE | OPTIONS | CONNECT | PATH

datatype CHECK_STATE = CHECK_STATE_REQUESTLINE | CHECK_STATE_HEADER | CHECK_STATE_CONTENT

datatype HTTP_CODE =
    NO_REQUEST | GET_REQUEST | BAD_REQUEST | NO_RESOURCE | FORBIDDEN_REQUEST | FILE_REQUEST
  | INTERNAL_ERROR | CLOSED_CONNECTION

datatype LINE_STATUS = LINE_OK | LINE_BAD | LINE_OPEN

definition FILENAME_LEN :: nat where "FILENAME_LEN = 200"
definition READ_BUFFER_SIZE :: nat where "READ_BUFFER_SIZE = 2048"
definition WRITE_BUFFER_SIZE :: nat where "WRITE_BUFFER_SIZE = 1024"

text \<open>\<open>struct stat\<close> as far as the server reads it, and what \<open>mmap\<close> returns: the mapping of a file, with
  its contents, or \<open>MAP_FAILED\<close>.\<close>

record fstat =
  st_mode :: "32 word"
  st_size :: nat

datatype file_ptr = Mapping nat string | MapFailed

text \<open>\<open>struct iovec\<close>: its base points into \<open>m_write_buf\<close> or into the mapped file.\<close>

datatype iov_ptr = NoPtr | WriteBuf int | FileAt "file_ptr option" int

record iovec =
  iov_base :: iov_ptr
  iov_len :: int

record 'm http_conn =
  mysql :: "'m option"
  m_sockfd :: int
  m_address :: nat
  m_read_buf :: buffer
  m_read_idx :: nat
  m_checked_idx :: nat
  m_start_line :: nat
  m_write_buf :: buffer
  m_write_idx :: nat
  m_check_state :: CHECK_STATE
  m_method :: METHOD
  m_real_file :: buffer
  m_url :: "nat option"
  m_version :: "nat option"
  m_host :: "nat option"
  m_content_length :: int
  m_linger :: bool
  m_file_address :: "file_ptr option cell"
  m_file_stat :: "fstat cell"
  m_iv0 :: iovec
  m_iv1 :: iovec
  m_iv_count :: nat
  cgi :: int
  m_string :: "nat cell"
  bytes_to_send :: int
  bytes_have_send :: int

section \<open>The process around it\<close>

text \<open>What the server makes the system do, in order.\<close>

datatype event =
    LogInfo string
  | LogError string
  | CloseFd int
  | Munmap "file_ptr" nat
  | SentBytes int string
  | Query string
  | Alarm int
  | Printed string

text \<open>
  The statics of the class and the globals of the file, the interest lists of the epoll instances
  (by instance and descriptor), the flags of the descriptors and the database.
\<close>

record 'd world =
  m_epollfd :: int
  m_user_count :: int
  users :: "string \<rightharpoonup> string"
  m_lock :: locker
  epoll :: "int \<Rightarrow> int \<rightharpoonup> 32 word"
  fd_flags :: "int \<Rightarrow> 32 word"
  db :: 'd
  trace :: "event list"

definition emit :: "event \<Rightarrow> 'd world \<Rightarrow> 'd world" where
  "emit e w = w\<lparr>trace := trace w @ [e]\<rparr>"

text \<open>The system calls and the database client, as functions of the caller's arguments.\<close>

record ('m, 'd) os =
  stat :: "string \<Rightarrow> fstat option"
  mmap_file :: "string \<Rightarrow> nat \<Rightarrow> file_ptr"
  mysql_query :: "'m option \<Rightarrow> string \<Rightarrow> 'd \<Rightarrow> int \<times> 'd"

definition EPOLLIN :: "32 word" where "EPOLLIN = 1"
definition EPOLLOUT :: "32 word" where "EPOLLOUT = 4"
definition EPOLLERR :: "32 word" where "EPOLLERR = 8"
definition EPOLLHUP :: "32 word" where "EPOLLHUP = 0x10"
definition EPOLLRDHUP :: "32 word" where "EPOLLRDHUP = 0x2000"
definition EPOLLONESHOT :: "32 word" where "EPOLLONESHOT = 0x40000000"
definition EPOLLET :: "32 word" where "EPOLLET = 0x80000000"
definition O_NONBLOCK :: "32 word" where "O_NONBLOCK = 0x800"

definition setnonblocking :: "int \<Rightarrow> 'd world \<Rightarrow> 32 word \<times> 'd world" where
  "setnonblocking fd w =
     (let old_option = fd_flags w fd
      in (old_option, w\<lparr>fd_flags := (fd_flags w)(fd := old_option OR O_NONBLOCK)\<rparr>))"

text \<open>The kernel refuses to add a registered descriptor and to modify or delete an unregistered one;
  the callers ignore that.\<close>

definition epoll_ctl_add :: "int \<Rightarrow> int \<Rightarrow> 32 word \<Rightarrow> 'd world \<Rightarrow> 'd world" where
  "epoll_ctl_add epollfd fd ev w =
     (if epoll w epollfd fd = None
      then w\<lparr>epoll := (epoll w)(epollfd := (epoll w epollfd)(fd \<mapsto> ev))\<rparr> else w)"

definition epoll_ctl_mod :: "int \<Rightarrow> int \<Rightarrow> 32 word \<Rightarrow> 'd world \<Rightarrow> 'd world" where
  "epoll_ctl_mod epollfd fd ev w =
     (if epoll w epollfd fd \<noteq> None
      then w\<lparr>epoll := (epoll w)(epollfd := (epoll w epollfd)(fd \<mapsto> ev))\<rparr> else w)"

definition epoll_ctl_del :: "int \<Rightarrow> int \<Rightarrow> 'd world \<Rightarrow> 'd world" where
  "epoll_ctl_del epollfd fd w =
     w\<lparr>epoll := (epoll w)(epollfd := (epoll w epollfd)(fd := None))\<rparr>"

definition addfd :: "int \<Rightarrow> int \<Rightarrow> bool \<Rightarrow> 'd world \<Rightarrow> 'd world" where
  "addfd epollfd fd one_shot w =
     (let ev = EPOLLIN OR EPOLLET OR EPOLLRDHUP;
          ev = (if one_shot then ev OR EPOLLONESHOT else ev)
      in snd (setnonblocking fd (epoll_ctl_add epollfd fd ev w)))"

definition removefd :: "int \<Rightarrow> int \<Rightarrow> 'd world \<Rightarrow> 'd world" where
  "removefd epollfd fd w = emit (CloseFd fd) (epoll_ctl_del epollfd fd w)"

definition modfd :: "int \<Rightarrow> int \<Rightarrow> 32 word \<Rightarrow> 'd world \<Rightarrow> 'd world" where
  "modfd epollfd fd ev w =
     epoll_ctl_mod epollfd fd (ev OR EPOLLET OR EPOLLONESHOT OR EPOLLRDHUP) w"

section \<open>Opening and closing a connection\<close>

definition init :: "'m http_conn \<Rightarrow> 'm http_conn" where
  "init h = h\<lparr>mysql := None, bytes_to_send := 0, bytes_have_send := 0, cgi := 0,
     m_check_state := CHECK_STATE_REQUESTLINE, m_linger := False, m_method := GET, m_url := None,
     m_version := None, m_content_length := 0, m_host := None, m_start_line := 0, m_checked_idx := 0,
     m_read_idx := 0, m_write_idx := 0,
     m_read_buf := replicate READ_BUFFER_SIZE NUL,
     m_write_buf := replicate WRITE_BUFFER_SIZE NUL,
     m_real_file := replicate FILENAME_LEN NUL\<rparr>"

definition init_conn :: "int \<Rightarrow> nat \<Rightarrow> 'm http_conn \<Rightarrow> 'd world \<Rightarrow> 'm http_conn \<times> 'd world" where
  "init_conn sockfd addr h w =
     (let h = h\<lparr>m_sockfd := sockfd, m_address := addr\<rparr>;
          w = addfd (m_epollfd w) sockfd True w;
          w = w\<lparr>m_user_count := m_user_count w + 1\<rparr>
      in (init h, w))"

definition close_conn :: "bool \<Rightarrow> 'm http_conn \<Rightarrow> 'd world \<Rightarrow> 'm http_conn \<times> 'd world" where
  "close_conn real_close h w =
     (if real_close \<and> m_sockfd h \<noteq> -1
      then let w = removefd (m_epollfd w) (m_sockfd h) w
           in (h\<lparr>m_sockfd := -1\<rparr>, w\<lparr>m_user_count := m_user_count w - 1\<rparr>)
      else (h, w))"

section \<open>Lines\<close>

function parse_line :: "'m http_conn \<Rightarrow> (LINE_STATUS \<times> 'm http_conn) res" where
  "parse_line h =
     (let i = m_checked_idx h in
      if i < m_read_idx h
      then andThen (rd (m_read_buf h) i) (\<lambda>temp.
        if temp = CR then
          (if i + 1 = m_read_idx h then Inr (LINE_OPEN, h)
           else andThen (rd (m_read_buf h) (i + 1)) (\<lambda>c.
             if c = LF then
               andThen (wr (m_read_buf h) i NUL) (\<lambda>b.
               andThen (wr b (i + 1) NUL) (\<lambda>b.
                 Inr (LINE_OK, h\<lparr>m_read_buf := b, m_checked_idx := i + 2\<rparr>)))
             else Inr (LINE_BAD, h)))
        else if temp = LF then
          (if i > 1
           then andThen (rd (m_read_buf h) (i - 1)) (\<lambda>c.
             if c = CR then
               andThen (wr (m_read_buf h) (i - 1) NUL) (\<lambda>b.
               andThen (wr b i NUL) (\<lambda>b.
                 Inr (LINE_OK, h\<lparr>m_read_buf := b, m_checked_idx := i + 1\<rparr>)))
             else Inr (LINE_BAD, h))
           else Inr (LINE_BAD, h))
        else parse_line (h\<lparr>m_checked_idx := i + 1\<rparr>))
      else Inr (LINE_OPEN, h))"
  by pat_completeness auto
termination
  by (relation "measure (\<lambda>h. m_read_idx h - m_checked_idx h)") auto

declare parse_line.simps [simp del]

section \<open>The socket\<close>

text \<open>
  What the socket has for the server: data as it arrives (an empty string is the peer's close), a
  pause (\<open>EAGAIN\<close>) or an error. \<open>recv\<close> with length 0 returns 0, and a socket with nothing more
  behaves like a pause.
\<close>

datatype recv_result = Data string | RecvAgain | RecvError

fun recv :: "nat \<Rightarrow> recv_result list \<Rightarrow> recv_result \<times> recv_result list" where
  "recv 0 sock = (Data [], sock)"
| "recv (Suc n) [] = (RecvAgain, [])"
| "recv (Suc n) (RecvAgain # sock) = (RecvAgain, sock)"
| "recv (Suc n) (RecvError # sock) = (RecvError, sock)"
| "recv (Suc n) (Data s # sock) =
     (Data (take (Suc n) s), if Suc n < length s then Data (drop (Suc n) s) # sock else sock)"

fun sock_size :: "recv_result list \<Rightarrow> nat" where
  "sock_size [] = 0"
| "sock_size (Data s # sock) = length s + sock_size sock"
| "sock_size (_ # sock) = sock_size sock"

lemma recv_size: "recv n sock = (Data (c # s), sock') \<Longrightarrow> sock_size sock' < sock_size sock"
  by (cases "(n, sock)" rule: recv.cases) (auto split: if_splits)

function read_loop :: "recv_result list \<Rightarrow> 'm http_conn \<Rightarrow> (bool \<times> 'm http_conn \<times> recv_result list) res" where
  "read_loop sock h =
     (case recv (READ_BUFFER_SIZE - m_read_idx h) sock of
        (RecvAgain, sock) \<Rightarrow> Inr (True, h, sock)
      | (RecvError, sock) \<Rightarrow> Inr (False, h, sock)
      | (Data [], sock) \<Rightarrow> Inr (False, h, sock)
      | (Data (c # s), sock) \<Rightarrow>
          andThen (put (m_read_buf h) (m_read_idx h) (c # s)) (\<lambda>b.
            read_loop sock (h\<lparr>m_read_buf := b, m_read_idx := m_read_idx h + length (c # s)\<rparr>)))"
  by pat_completeness auto
termination
  by (relation "measure (\<lambda>(sock, h). sock_size sock)") (auto dest: recv_size [OF sym])

declare read_loop.simps [simp del]

definition read_once :: "recv_result list \<Rightarrow> 'm http_conn \<Rightarrow> (bool \<times> 'm http_conn \<times> recv_result list) res" where
  "read_once sock h =
     (if m_read_idx h \<ge> READ_BUFFER_SIZE then Inr (False, h, sock) else read_loop sock h)"

end
