(* ===== verification/HttpLine.thy ===== *)
theory HttpLine
  imports HttpConn
begin

text \<open>
  What \<open>parse_line\<close> and \<open>read_once\<close> do to a connection: the well-formedness of its buffers and
  indices, the result of \<open>parse_line\<close> in closed form, its independence of how the bytes of a line
  arrive, and the bytes \<open>read_once\<close> stores.
\<close>

section \<open>Well-formed connections\<close>

definition idx_ok :: "'m http_conn \<Rightarrow> bool" where
  "idx_ok h \<longleftrightarrow>
     m_start_line h \<le> m_checked_idx h \<and> m_checked_idx h \<le> m_read_idx h \<and>
     m_read_idx h \<le> length (m_read_buf h) \<and>
     (m_checked_idx h = 0 \<or> m_read_buf h ! (m_checked_idx h - 1) \<noteq> CR)"

definition conn_wf :: "'m http_conn \<Rightarrow> bool" where
  "conn_wf h \<longleftrightarrow>
     length (m_read_buf h) = READ_BUFFER_SIZE \<and> length (m_write_buf h) = WRITE_BUFFER_SIZE \<and>
     length (m_real_file h) = FILENAME_LEN \<and> idx_ok h"

lemma conn_wf_init: "conn_wf (init h)"
  by (simp add: conn_wf_def init_def idx_ok_def)

text \<open>The bytes received and not yet looked at.\<close>

definition unread :: "'m http_conn \<Rightarrow> string" where
  "unread h = take (m_read_idx h - m_checked_idx h) (drop (m_checked_idx h) (m_read_buf h))"

text \<open>The place of the first line break among them, or \<open>m_read_idx\<close>.\<close>

definition next_break :: "'m http_conn \<Rightarrow> nat" where
  "next_break h = m_checked_idx h + length (takeWhile (\<lambda>c. c \<noteq> CR \<and> c \<noteq> LF) (unread h))"

lemma length_unread:
  "m_checked_idx h \<le> m_read_idx h \<Longrightarrow> m_read_idx h \<le> length (m_read_buf h) \<Longrightarrow>
     length (unread h) = m_read_idx h - m_checked_idx h"
  by (simp add: unread_def)

lemma next_break_bounds:
  assumes "m_checked_idx h \<le> m_read_idx h" and "m_read_idx h \<le> length (m_read_buf h)"
  shows "m_checked_idx h \<le> next_break h" and "next_break h \<le> m_read_idx h"
  using assms length_takeWhile_le [of "\<lambda>c. c \<noteq> CR \<and> c \<noteq> LF" "unread h"]
  by (auto simp: next_break_def length_unread)

lemma before_next_break:
  assumes "m_checked_idx h \<le> m_read_idx h" and "m_read_idx h \<le> length (m_read_buf h)"
    and "m_checked_idx h \<le> j" and "j < next_break h"
  shows "m_read_buf h ! j \<noteq> CR" and "m_read_buf h ! j \<noteq> LF"
proof -
  let ?w = "takeWhile (\<lambda>c. c \<noteq> CR \<and> c \<noteq> LF) (unread h)"
  have j: "j - m_checked_idx h < length ?w" using assms by (simp add: next_break_def)
  then have "?w ! (j - m_checked_idx h) = unread h ! (j - m_checked_idx h)"
    by (rule takeWhile_nth)
  also have "\<dots> = m_read_buf h ! j"
    using j assms length_takeWhile_le [of "\<lambda>c. c \<noteq> CR \<and> c \<noteq> LF" "unread h"]
    by (simp add: unread_def)
  finally have "m_read_buf h ! j \<in> set ?w" using j nth_mem by metis
  then show "m_read_buf h ! j \<noteq> CR" "m_read_buf h ! j \<noteq> LF" by (auto dest: set_takeWhileD)
qed

lemma at_next_break:
  assumes "m_checked_idx h \<le> m_read_idx h" and "m_read_idx h \<le> length (m_read_buf h)"
    and "next_break h \<noteq> m_read_idx h"
  shows "m_read_buf h ! next_break h = CR \<or> m_read_buf h ! next_break h = LF"
proof -
  let ?w = "takeWhile (\<lambda>c. c \<noteq> CR \<and> c \<noteq> LF) (unread h)"
  have "length ?w < length (unread h)"
    using assms next_break_bounds [OF assms(1,2)] by (simp add: next_break_def length_unread)
  then have "unread h ! length ?w = CR \<or> unread h ! length ?w = LF"
    using nth_length_takeWhile [of "\<lambda>c. c \<noteq> CR \<and> c \<noteq> LF" "unread h"] by blast
  moreover have "unread h ! length ?w = m_read_buf h ! next_break h"
    using \<open>length ?w < length (unread h)\<close> assms by (simp add: next_break_def unread_def)
  ultimately show ?thesis by simp
qed

text \<open>\<open>parse_line\<close> runs over characters that are no line breaks.\<close>

lemma parse_line_skip:
  assumes "m_checked_idx h \<le> k" and "k \<le> m_read_idx h" and "m_read_idx h \<le> length (m_read_buf h)"
    and "\<And>j. m_checked_idx h \<le> j \<Longrightarrow> j < k \<Longrightarrow> m_read_buf h ! j \<noteq> CR \<and> m_read_buf h ! j \<noteq> LF"
  shows "parse_line h = parse_line (h\<lparr>m_checked_idx := k\<rparr>)"
  using assms
proof (induction "k - m_checked_idx h" arbitrary: h)
  case 0
  then show ?case by simp
next
  case (Suc n)
  let ?h = "h\<lparr>m_checked_idx := m_checked_idx h + 1\<rparr>"
  have "parse_line h = parse_line ?h"
  proof -
    have "m_checked_idx h < k" using Suc.hyps(2) by simp
    with Suc.prems have "m_checked_idx h < m_read_idx h" "m_checked_idx h < length (m_read_buf h)"
      "m_read_buf h ! m_checked_idx h \<noteq> CR" "m_read_buf h ! m_checked_idx h \<noteq> LF" by auto
    then show ?thesis by (subst parse_line.simps) (simp add: buf_simps Let_def)
  qed
  also have "\<dots> = parse_line (?h\<lparr>m_checked_idx := k\<rparr>)"
    using Suc.hyps(2) Suc.prems by (intro Suc.hyps(1)) auto
  finally show ?case by simp
qed

text \<open>The result in closed form.\<close>

definition line_result :: "'m http_conn \<Rightarrow> LINE_STATUS \<times> 'm http_conn" where
  "line_result h =
     (let k = next_break h; buf = m_read_buf h in
      if k = m_read_idx h then (LINE_OPEN, h\<lparr>m_checked_idx := k\<rparr>)
      else if buf ! k = CR then
        (if k + 1 = m_read_idx h then (LINE_OPEN, h\<lparr>m_checked_idx := k\<rparr>)
         else if buf ! (k + 1) = LF
         then (LINE_OK, h\<lparr>m_read_buf := buf[k := NUL, k + 1 := NUL], m_checked_idx := k + 2\<rparr>)
         else (LINE_BAD, h\<lparr>m_checked_idx := k\<rparr>))
      else if k > 1 \<and> buf ! (k - 1) = CR
      then (LINE_OK, h\<lparr>m_read_buf := buf[k - 1 := NUL, k := NUL], m_checked_idx := k + 1\<rparr>)
      else (LINE_BAD, h\<lparr>m_checked_idx := k\<rparr>))"

lemma parse_line_closed:
  assumes "m_checked_idx h \<le> m_read_idx h" and "m_read_idx h \<le> length (m_read_buf h)"
  shows "parse_line h = Inr (line_result h)"
proof -
  note b = next_break_bounds [OF assms]
  have "parse_line h = parse_line (h\<lparr>m_checked_idx := next_break h\<rparr>)"
    using b assms before_next_break [OF assms] by (intro parse_line_skip) auto
  also have "\<dots> = Inr (line_result h)"
    using b assms at_next_break [OF assms]
    by (subst parse_line.simps) (auto simp: buf_simps line_result_def Let_def)
  finally show ?thesis .
qed

lemma line_result_cases:
  assumes "m_checked_idx h \<le> m_read_idx h" and "m_read_idx h \<le> length (m_read_buf h)"
    and "line_result h = (st, h')"
  shows "m_read_idx h' = m_read_idx h" "length (m_read_buf h') = length (m_read_buf h)"
    "m_checked_idx h \<le> m_checked_idx h'" "m_checked_idx h' \<le> m_read_idx h"
    "(\<exists>i. h' = h\<lparr>m_checked_idx := i\<rparr>) \<or> (\<exists>b i. h' = h\<lparr>m_read_buf := b, m_checked_idx := i\<rparr>)"
    "st = LINE_OK \<Longrightarrow> m_checked_idx h < m_checked_idx h'"
    "st \<noteq> LINE_OK \<Longrightarrow> h' = h\<lparr>m_checked_idx := next_break h\<rparr>"
  using assms(3) next_break_bounds [OF assms(1,2)]
  by (auto simp: line_result_def Let_def split: if_splits)

text \<open>The result on a well-formed connection: the branch on a bare line feed never completes a line.\<close>

lemma parse_line_idx_ok:
  assumes "idx_ok h" and "parse_line h = Inr (st, h')"
  shows "idx_ok h'" and "st \<noteq> LINE_OK \<Longrightarrow> h' = h\<lparr>m_checked_idx := next_break h\<rparr>"
    and "st = LINE_OK \<Longrightarrow> h' = h\<lparr>m_read_buf := (m_read_buf h)[next_break h := NUL, next_break h + 1 := NUL],
        m_checked_idx := next_break h + 2\<rparr> \<and> next_break h + 2 \<le> m_read_idx h \<and>
        m_read_buf h ! next_break h = CR \<and> m_read_buf h ! (next_break h + 1) = LF"
proof -
  from assms(1) have b: "m_checked_idx h \<le> m_read_idx h" "m_read_idx h \<le> length (m_read_buf h)"
    and s: "m_start_line h \<le> m_checked_idx h"
    and c: "m_checked_idx h = 0 \<or> m_read_buf h ! (m_checked_idx h - 1) \<noteq> CR"
    by (simp_all add: idx_ok_def)
  let ?k = "next_break h"
  note k = next_break_bounds [OF b]
  from assms(2) have r: "line_result h = (st, h')" by (simp add: parse_line_closed [OF b])
  have prev: "?k = 0 \<or> m_read_buf h ! (?k - 1) \<noteq> CR"
  proof (cases "?k = m_checked_idx h")
    case True
    with c show ?thesis by simp
  next
    case False
    with k before_next_break(1) [OF b, of "?k - 1"] show ?thesis by auto
  qed
  show h': "st \<noteq> LINE_OK \<Longrightarrow> h' = h\<lparr>m_checked_idx := ?k\<rparr>" by (rule line_result_cases(7) [OF b r])
  show ok: "st = LINE_OK \<Longrightarrow> h' = h\<lparr>m_read_buf := (m_read_buf h)[?k := NUL, ?k + 1 := NUL],
        m_checked_idx := ?k + 2\<rparr> \<and> ?k + 2 \<le> m_read_idx h \<and>
        m_read_buf h ! ?k = CR \<and> m_read_buf h ! (?k + 1) = LF"
    using r prev k by (auto simp: line_result_def Let_def split: if_splits)
  show "idx_ok h'"
  proof (cases "st = LINE_OK")
    case True
    with ok b s k show ?thesis by (auto simp: idx_ok_def)
  next
    case False
    with h' b s k prev show ?thesis by (simp add: idx_ok_def)
  qed
qed

section \<open>Bytes that arrive later\<close>

text \<open>What one successful \<open>recv\<close> of \<open>s\<close> does to the object.\<close>

definition arrive :: "string \<Rightarrow> 'm http_conn \<Rightarrow> 'm http_conn res" where
  "arrive s h = andThen (put (m_read_buf h) (m_read_idx h) s) (\<lambda>b.
     Inr (h\<lparr>m_read_buf := b, m_read_idx := m_read_idx h + length s\<rparr>))"

lemma arrive_Inr:
  "arrive s h = Inr h2 \<longleftrightarrow>
     (\<exists>b. put (m_read_buf h) (m_read_idx h) s = Inr b \<and>
          h2 = h\<lparr>m_read_buf := b, m_read_idx := m_read_idx h + length s\<rparr>)"
  by (auto simp: arrive_def)

lemma arrive_idx_ok: "idx_ok h \<Longrightarrow> arrive s h = Inr h2 \<Longrightarrow> idx_ok h2"
  by (auto simp: arrive_Inr idx_ok_def put_Inr_iff nth_append)

text \<open>Where \<open>parse_line\<close> stopped before the end of a line, it goes on as if it had started from the
  first byte of the line with everything already there.\<close>

lemma parse_line_continue:
  assumes "idx_ok h" and "parse_line h = Inr (st, h')" and "st \<noteq> LINE_OK"
    and "arrive s h = Inr h2"
  shows "\<exists>h2'. arrive s h' = Inr h2' \<and> parse_line h2' = parse_line h2"
proof -
  from assms(1) have b: "m_checked_idx h \<le> m_read_idx h" "m_read_idx h \<le> length (m_read_buf h)"
    by (simp_all add: idx_ok_def)
  from parse_line_idx_ok(2) [OF assms(1-3)] have h': "h' = h\<lparr>m_checked_idx := next_break h\<rparr>" .
  from assms(4) obtain c where c: "put (m_read_buf h) (m_read_idx h) s = Inr c"
    and h2: "h2 = h\<lparr>m_read_buf := c, m_read_idx := m_read_idx h + length s\<rparr>" by (auto simp: arrive_Inr)
  then have "arrive s h' = Inr (h2\<lparr>m_checked_idx := next_break h\<rparr>)"
    unfolding h' by (simp add: arrive_def)
  moreover have "parse_line h2 = parse_line (h2\<lparr>m_checked_idx := next_break h\<rparr>)"
  proof (rule parse_line_skip)
    show "m_checked_idx h2 \<le> next_break h" using next_break_bounds(1) [OF b] h2 by simp
    show "next_break h \<le> m_read_idx h2" using next_break_bounds(2) [OF b] h2 by simp
    show "m_read_idx h2 \<le> length (m_read_buf h2)" using c h2 by (auto simp: put_Inr_iff)
    fix j
    assume j: "m_checked_idx h2 \<le> j" "j < next_break h"
    then have "c ! j = m_read_buf h ! j"
      using next_break_bounds(2) [OF b] by (intro put_nth_before [OF c]) simp
    with j h2 before_next_break [OF b, of j]
    show "m_read_buf h2 ! j \<noteq> CR \<and> m_read_buf h2 ! j \<noteq> LF" by simp
  qed
  ultimately show ?thesis by auto
qed

text \<open>A line that is complete stays so, whatever arrives behind it.\<close>

lemma parse_line_later:
  assumes "idx_ok h" and "parse_line h = Inr (LINE_OK, h')" and "arrive s h = Inr h2"
  shows "\<exists>h2'. arrive s h' = Inr h2' \<and> parse_line h2 = Inr (LINE_OK, h2')"
proof -
  let ?k = "next_break h"
  from assms(1) have b: "m_checked_idx h \<le> m_read_idx h" "m_read_idx h \<le> length (m_read_buf h)"
    by (simp_all add: idx_ok_def)
  note k = next_break_bounds [OF b] and ok = parse_line_idx_ok(3) [OF assms(1,2) refl]
  from assms(3) obtain c where c: "put (m_read_buf h) (m_read_idx h) s = Inr c"
    and h2: "h2 = h\<lparr>m_read_buf := c, m_read_idx := m_read_idx h + length s\<rparr>" by (auto simp: arrive_Inr)
  from c have cb: "c ! j = m_read_buf h ! j" if "j < m_read_idx h" for j using that by (rule put_nth_before)
  have lc: "length c = length (m_read_buf h)" "m_read_idx h + length s \<le> length c"
    using c put_length [OF c] by (auto simp: put_Inr_iff)
  have "parse_line h2 = parse_line (h2\<lparr>m_checked_idx := ?k\<rparr>)"
    using k b lc h2 cb before_next_break [OF b] by (intro parse_line_skip) auto
  also have "\<dots> = Inr (LINE_OK, h2\<lparr>m_read_buf := c[?k := NUL, ?k + 1 := NUL], m_checked_idx := ?k + 2\<rparr>)"
    using ok lc h2 cb [of ?k] cb [of "?k + 1"] b
    by (subst parse_line.simps) (simp add: rd_ok wr_ok Let_def)
  finally have "parse_line h2 = Inr (LINE_OK, h2\<lparr>m_read_buf := c[?k := NUL, ?k + 1 := NUL], m_checked_idx := ?k + 2\<rparr>)" .
  moreover have "put ((m_read_buf h)[?k := NUL, ?k + 1 := NUL]) (m_read_idx h) s = Inr (c[?k := NUL, ?k + 1 := NUL])"
    using c ok b by (auto simp: put_Inr_iff list_update_append take_update_swap drop_update_cancel)
  ultimately show ?thesis
    using ok h2 by (auto simp: arrive_def)
qed

text \<open>The bytes a socket delivers until it pauses, and whether it ends in a pause.\<close>

fun stream :: "recv_result list \<Rightarrow> string \<times> bool" where
  "stream [] = ([], True)"
| "stream (RecvAgain # sock) = ([], True)"
| "stream (RecvError # sock) = ([], False)"
| "stream (Data s # sock) =
     (if s = [] then ([], False) else let (t, paused) = stream sock in (s @ t, paused))"

lemma refill:
  fixes buf t u :: string
  assumes "length t \<le> room" and "r + room \<le> length buf"
  defines "b \<equiv> take r buf @ t @ drop (r + length t) buf"
  shows "take (r + length t) b @ take (room - length t) u @
      drop (r + length t + min (room - length t) (length u)) b =
    take r buf @ take room (t @ u) @ drop (r + min room (length (t @ u))) buf"
    and "r + length t + min (room - length t) (length u) = r + min room (length (t @ u))"
    and "length u < room - length t \<longleftrightarrow> length (t @ u) < room"
proof -
  show "r + length t + min (room - length t) (length u) = r + min room (length (t @ u))"
    "length u < room - length t \<longleftrightarrow> length (t @ u) < room"
    using assms(1) by auto
  then show "take (r + length t) b @ take (room - length t) u @
      drop (r + length t + min (room - length t) (length u)) b =
    take r buf @ take room (t @ u) @ drop (r + min room (length (t @ u))) buf"
    using assms(1,2) by (simp add: b_def add.commute)
qed

lemma read_loop_stream:
  assumes "length (m_read_buf h) = READ_BUFFER_SIZE" and "m_read_idx h \<le> READ_BUFFER_SIZE"
    and "room = READ_BUFFER_SIZE - m_read_idx h" and "stream sock = (s, paused)"
  shows "\<exists>sock'. read_loop sock h =
     Inr (paused \<and> length s < room,
          h\<lparr>m_read_buf := take (m_read_idx h) (m_read_buf h) @ take room s @
                drop (m_read_idx h + min room (length s)) (m_read_buf h),
            m_read_idx := m_read_idx h + min room (length s)\<rparr>, sock')"
  using assms
proof (induction "sock_size sock" arbitrary: sock h room s rule: less_induct)
  case less
  show ?case
  proof (cases room)
    case 0
    with less.prems show ?thesis by (subst read_loop.simps) simp
  next
    case (Suc n)
    show ?thesis
    proof (cases "\<exists>c d sock1. sock = Data (c # d) # sock1")
      case False
      then have "sock = [] \<or> (\<exists>r. sock = RecvAgain # r) \<or> (\<exists>r. sock = RecvError # r) \<or> (\<exists>r. sock = Data [] # r)"
        by (metis neq_Nil_conv recv_result.exhaust)
      with Suc less.prems show ?thesis
        by (subst read_loop.simps) auto
    next
      case True
      then obtain c d sock1 where sock: "sock = Data (c # d) # sock1" by blast
      define t where "t = take (Suc n) (c # d)"
      define sock2 where "sock2 = (if Suc n < length (c # d) then Data (drop (Suc n) (c # d)) # sock1 else sock1)"
      define b where "b = take (m_read_idx h) (m_read_buf h) @ t @ drop (m_read_idx h + length t) (m_read_buf h)"
      define h2 where "h2 = h\<lparr>m_read_buf := b, m_read_idx := m_read_idx h + length t\<rparr>"
      have r: "READ_BUFFER_SIZE - m_read_idx h = Suc n" using Suc less.prems(3) by simp
      have recv: "recv (READ_BUFFER_SIZE - m_read_idx h) sock = (Data t, sock2)"
        unfolding r sock t_def sock2_def by simp
      have l: "length t \<le> room" "t = c # take n d" using Suc by (simp_all add: t_def)
      have put: "put (m_read_buf h) (m_read_idx h) t = Inr b"
        using r l Suc less.prems(1) by (simp add: put_def b_def)
      obtain v where v: "stream sock1 = (v, paused)" and sv: "s = c # d @ v"
        using less.prems(4) unfolding sock by (auto split: prod.splits)
      define u where "u = drop (Suc n) (c # d) @ v"
      have u: "stream sock2 = (u, paused)" using v by (simp add: sock2_def u_def)
      have s: "s = t @ u" unfolding sv t_def u_def by simp
      have "read_loop sock h = read_loop sock2 h2"
        by (subst read_loop.simps, subst recv) (simp add: l(2) put [unfolded l(2)] h2_def)
      moreover have "\<exists>sock'. read_loop sock2 h2 =
        Inr (paused \<and> length u < room - length t,
          h2\<lparr>m_read_buf := take (m_read_idx h2) (m_read_buf h2) @ take (room - length t) u @
                drop (m_read_idx h2 + min (room - length t) (length u)) (m_read_buf h2),
            m_read_idx := m_read_idx h2 + min (room - length t) (length u)\<rparr>, sock')"
      proof (rule less.hyps)
        show "sock_size sock2 < sock_size sock" using recv l(2) recv_size by blast
        show "length (m_read_buf h2) = READ_BUFFER_SIZE"
          using put_length [OF put] less.prems(1) by (simp add: h2_def)
        show "m_read_idx h2 \<le> READ_BUFFER_SIZE" using l(1) Suc r by (simp add: h2_def)
        show "room - length t = READ_BUFFER_SIZE - m_read_idx h2" using less.prems(3) by (simp add: h2_def)
      qed (rule u)
      ultimately show ?thesis
        using refill [OF l(1), of "m_read_idx h" "m_read_buf h" u] less.prems(1,2,3) l(1)
        by (simp add: h2_def b_def s add.assoc)
    qed
  qed
qed

section \<open>A concrete connection\<close>

text \<open>A connection that has received \<open>s\<close>, with room for \<open>n\<close> bytes more.\<close>

definition demo_conn :: "nat \<Rightarrow> string \<Rightarrow> unit http_conn" where
  "demo_conn n s =
     \<lparr>mysql = None, m_sockfd = 5, m_address = 0, m_read_buf = s @ replicate n NUL, m_read_idx = length s,
      m_checked_idx = 0, m_start_line = 0, m_write_buf = replicate n NUL, m_write_idx = 0,
      m_check_state = CHECK_STATE_REQUESTLINE, m_method = GET, m_real_file = replicate 60 NUL,
      m_url = None, m_version = None, m_host = None, m_content_length = 0, m_linger = False,
      m_file_address = Unset, m_file_stat = Unset, m_iv0 = \<lparr>iov_base = NoPtr, iov_len = 0\<rparr>,
      m_iv1 = \<lparr>iov_base = NoPtr, iov_len = 0\<rparr>, m_iv_count = 0, cgi = 0, m_string = Unset,
      bytes_to_send = 0, bytes_have_send = 0\<rparr>"

lemma demo_idx_ok: "idx_ok (demo_conn n s)"
  by (simp add: idx_ok_def demo_conn_def)

section \<open>Properties\<close>

text \<open>C10: \<open>parse_line\<close> is a complete scanner of lines ended by CR LF. From any well-formed state it stops at
  the first CR or LF not yet looked at: it completes the line exactly when a CR LF stands there, and
  then both bytes become NUL and the index points behind them; it asks for more bytes when there is no
  break, or only a CR as the last byte; anything else is a bad line. It never leaves the buffer, and the
  branch that looks back for a CR before a bare LF never completes a line.\<close>

theorem parse_line_scans:
  assumes "idx_ok h"
  shows "parse_line h = Inr
    (let k = next_break h; buf = m_read_buf h in
     if k = m_read_idx h \<or> buf ! k = CR \<and> k + 1 = m_read_idx h then (LINE_OPEN, h\<lparr>m_checked_idx := k\<rparr>)
     else if buf ! k = CR \<and> buf ! (k + 1) = LF
     then (LINE_OK, h\<lparr>m_read_buf := buf[k := NUL, k + 1 := NUL], m_checked_idx := k + 2\<rparr>)
     else (LINE_BAD, h\<lparr>m_checked_idx := k\<rparr>))"
proof -
  from assms have b: "m_checked_idx h \<le> m_read_idx h" "m_read_idx h \<le> length (m_read_buf h)"
    by (simp_all add: idx_ok_def)
  obtain st h' where r: "line_result h = (st, h')" by fastforce
  with parse_line_closed [OF b] have run: "parse_line h = Inr (st, h')" by simp
  note p = parse_line_idx_ok(2,3) [OF assms run]
  show ?thesis
  proof (cases "st = LINE_OK")
    case True
    with p(2) show ?thesis by (simp add: run Let_def)
  next
    case False
    with p(1) r show ?thesis by (auto simp: run line_result_def Let_def split: if_splits)
  qed
qed

theorem parse_line_scans_witness:
  "parse_line (demo_conn 4 (''Host'' @ [CR])) = Inr (LINE_OPEN, (demo_conn 4 (''Host'' @ [CR]))\<lparr>m_checked_idx := 4\<rparr>)"
  using parse_line_scans [OF demo_idx_ok, of 4 "''Host'' @ [CR]"]
  by (simp add: demo_conn_def next_break_def unread_def)

text \<open>\<open>read_once\<close> stores the bytes of the socket as they come, behind those it has, up to the size of
  the buffer, and nothing else changes. It returns true exactly when the socket pauses before the
  buffer is full; so a request whose bytes fill the buffer exactly is refused, the last \<open>recv\<close>
  having had no room.\<close>

lemma read_once_result:
  assumes "length (m_read_buf h) = READ_BUFFER_SIZE" and "m_read_idx h < READ_BUFFER_SIZE"
    and "stream sock = (s, paused)"
  shows "\<exists>sock'. read_once sock h =
     Inr (paused \<and> m_read_idx h + length s < READ_BUFFER_SIZE,
          h\<lparr>m_read_buf := take READ_BUFFER_SIZE (take (m_read_idx h) (m_read_buf h) @ s @
                drop (m_read_idx h + length s) (m_read_buf h)),
            m_read_idx := min READ_BUFFER_SIZE (m_read_idx h + length s)\<rparr>, sock')"
proof -
  obtain sock' where "read_loop sock h =
     Inr (paused \<and> length s < READ_BUFFER_SIZE - m_read_idx h,
          h\<lparr>m_read_buf := take (m_read_idx h) (m_read_buf h) @ take (READ_BUFFER_SIZE - m_read_idx h) s @
                drop (m_read_idx h + min (READ_BUFFER_SIZE - m_read_idx h) (length s)) (m_read_buf h),
            m_read_idx := m_read_idx h + min (READ_BUFFER_SIZE - m_read_idx h) (length s)\<rparr>, sock')"
    using read_loop_stream [OF assms(1) less_imp_le [OF assms(2)] refl assms(3)] by blast
  moreover have "take READ_BUFFER_SIZE (take (m_read_idx h) (m_read_buf h) @ s @
                drop (m_read_idx h + length s) (m_read_buf h)) =
      take (m_read_idx h) (m_read_buf h) @ take (READ_BUFFER_SIZE - m_read_idx h) s @
                drop (m_read_idx h + min (READ_BUFFER_SIZE - m_read_idx h) (length s)) (m_read_buf h)"
    using assms(1,2) by (cases "length s \<le> READ_BUFFER_SIZE - m_read_idx h") (simp_all add: min_def)
  moreover have "min READ_BUFFER_SIZE (m_read_idx h + length s) =
      m_read_idx h + min (READ_BUFFER_SIZE - m_read_idx h) (length s)"
    using assms(2) by simp
  ultimately show ?thesis using assms(2) by (auto simp: read_once_def)
qed


end
