(* ===== verification/HttpParse.thy ===== *)
theory HttpParse
  imports HttpLine
begin

text \<open>
  The parsers of the request line, the headers and the body in \<open>src/http/http_conn.cpp\<close>, with the lemmas
  on the line the slave automaton \<open>parse_line\<close> hands them. \<open>text\<close> is the offset of the line in
  \<open>m_read_buf\<close>.
\<close>

section \<open>The request line\<close>

definition blanks :: string where "blanks = [SP, TAB]"

definition parse_method :: "nat \<Rightarrow> 'm http_conn \<Rightarrow> (bool \<times> 'm http_conn) res" where
  "parse_method method h =
     andThen (strcasecmp0 (m_read_buf h) method ''GET'') (\<lambda>get.
       if get then Inr (True, h\<lparr>m_method := GET\<rparr>)
       else andThen (strcasecmp0 (m_read_buf h) method ''POST'') (\<lambda>post.
         if post then Inr (True, h\<lparr>m_method := POST, cgi := 1\<rparr>) else Inr (False, h)))"

text \<open>The two blocks that skip \<open>http://\<close> and \<open>https://\<close>; \<open>strncasecmp\<close> of a null \<open>m_url\<close> is a fault.\<close>

definition skip_scheme :: "string \<Rightarrow> 'm http_conn \<Rightarrow> 'm http_conn res" where
  "skip_scheme lit h =
     andThen (deref (m_url h)) (\<lambda>u.
     andThen (strncasecmp0 (m_read_buf h) u lit (length lit)) (\<lambda>same.
       if same then andThen (strchr (m_read_buf h) (u + length lit) (CHR ''/'')) (\<lambda>p. Inr (h\<lparr>m_url := p\<rparr>))
       else Inr h))"

text \<open>The check of the path and the default page.\<close>

definition check_path :: "'m http_conn \<Rightarrow> (HTTP_CODE \<times> 'm http_conn) res" where
  "check_path h =
     (case m_url h of
        None \<Rightarrow> Inr (BAD_REQUEST, h)
      | Some u \<Rightarrow>
          andThen (rd (m_read_buf h) u) (\<lambda>c.
            if c \<noteq> CHR ''/'' then Inr (BAD_REQUEST, h)
            else andThen (strlen (m_read_buf h) u) (\<lambda>n.
                 andThen (if n = 1 then strcat (m_read_buf h) u ''judge.html'' else Inr (m_read_buf h)) (\<lambda>b.
                   Inr (NO_REQUEST, h\<lparr>m_read_buf := b, m_check_state := CHECK_STATE_HEADER\<rparr>)))))"

definition parse_path :: "'m http_conn \<Rightarrow> (HTTP_CODE \<times> 'm http_conn) res" where
  "parse_path h =
     andThen (skip_scheme ''http://'' h) (\<lambda>h. andThen (skip_scheme ''https://'' h) check_path)"

definition parse_request_line :: "nat \<Rightarrow> 'm http_conn \<Rightarrow> (HTTP_CODE \<times> 'm http_conn) res" where
  "parse_request_line text h =
     andThen (strpbrk (m_read_buf h) text blanks) (\<lambda>u.
       case u of
         None \<Rightarrow> Inr (BAD_REQUEST, h\<lparr>m_url := None\<rparr>)
       | Some u \<Rightarrow>
           andThen (wr (m_read_buf h) u NUL) (\<lambda>b.
           andThen (parse_method text (h\<lparr>m_read_buf := b, m_url := Some (u + 1)\<rparr>)) (\<lambda>(supported, h).
             if \<not> supported then Inr (BAD_REQUEST, h)
             else
               andThen (strspn b (u + 1) blanks) (\<lambda>k.
               let u = u + 1 + k; h = h\<lparr>m_url := Some u\<rparr> in
               andThen (strpbrk b u blanks) (\<lambda>v.
                 case v of
                   None \<Rightarrow> Inr (BAD_REQUEST, h\<lparr>m_version := None\<rparr>)
                 | Some v \<Rightarrow>
                     andThen (wr b v NUL) (\<lambda>b.
                     andThen (strspn b (v + 1) blanks) (\<lambda>k.
                     let v = v + 1 + k; h = h\<lparr>m_read_buf := b, m_version := Some v\<rparr> in
                     andThen (strcasecmp0 b v ''HTTP/1.1'') (\<lambda>same.
                       if \<not> same then Inr (BAD_REQUEST, h) else parse_path h))))))))"

section \<open>Headers and body\<close>

definition parse_headers :: "nat \<Rightarrow> 'm http_conn \<Rightarrow> 'd world \<Rightarrow> (HTTP_CODE \<times> 'm http_conn \<times> 'd world) res" where
  "parse_headers text h w =
     andThen (rd (m_read_buf h) text) (\<lambda>c.
     if c = NUL then
       (if m_content_length h \<noteq> 0
        then Inr (NO_REQUEST, h\<lparr>m_check_state := CHECK_STATE_CONTENT\<rparr>, w)
        else Inr (GET_REQUEST, h, w))
     else andThen (strncasecmp0 (m_read_buf h) text ''Connection:'' 11) (\<lambda>connection.
     if connection then
       andThen (strspn (m_read_buf h) (text + 11) blanks) (\<lambda>k.
       andThen (strcasecmp0 (m_read_buf h) (text + 11 + k) ''keep-alive'') (\<lambda>keep.
         Inr (NO_REQUEST, if keep then h\<lparr>m_linger := True\<rparr> else h, w)))
     else andThen (strncasecmp0 (m_read_buf h) text ''Content-length:'' 15) (\<lambda>content_length.
     if content_length then
       andThen (strspn (m_read_buf h) (text + 15) blanks) (\<lambda>k.
       andThen (atoi (m_read_buf h) (text + 15 + k)) (\<lambda>n.
         Inr (NO_REQUEST, h\<lparr>m_content_length := n\<rparr>, w)))
     else andThen (strncasecmp0 (m_read_buf h) text ''Host:'' 5) (\<lambda>host.
     if host then
       andThen (strspn (m_read_buf h) (text + 5) blanks) (\<lambda>k.
         Inr (NO_REQUEST, h\<lparr>m_host := Some (text + 5 + k)\<rparr>, w))
     else
       andThen (cstr (m_read_buf h) text) (\<lambda>s.
         Inr (NO_REQUEST, h, emit (LogInfo (''oop! unknow header: '' @ s)) w))))))"

definition parse_content :: "nat \<Rightarrow> 'm http_conn \<Rightarrow> (HTTP_CODE \<times> 'm http_conn) res" where
  "parse_content text h =
     andThen (add_int (m_content_length h) (int (m_checked_idx h))) (\<lambda>n.
       if int (m_read_idx h) \<ge> n then
         andThen (wr_at (m_read_buf h) (int text + m_content_length h) NUL) (\<lambda>b.
           Inr (GET_REQUEST, h\<lparr>m_read_buf := b, m_string := Set text\<rparr>))
       else Inr (NO_REQUEST, h))"

section \<open>Strings and single writes\<close>

lemma cstr_split:
  assumes "cstr buf p = Inr (a @ d # r)"
  shows "cstr (buf[p + length a := NUL]) p = Inr a"
    and "cstr (buf[p + length a := NUL]) (p + length a + 1) = Inr r"
proof -
  let ?b = "buf[p + length a := NUL]"
  note bd = cstr_bound [OF assms]
  have t: "take (length (a @ d # r)) (drop p buf) = a @ d # r" by (rule cstr_take [OF assms])
  have n: "NUL \<notin> set (a @ d # r)" by (rule cstr_NUL_free [OF assms])
  from arg_cong [OF t, of "take (length a)"] have ta: "take (length a) (drop p buf) = a" by simp
  have "take (length a) (drop p ?b) = take (length a) (drop p buf)"
    by (simp add: drop_update_swap)
  with ta n bd show "cstr ?b p = Inr a" by (intro cstrI) auto
  have "cstr buf (p + length a + 1) = Inr r"
    using cstr_suffix [OF assms, of "length a + 1"] by (simp add: add.assoc)
  then show "cstr ?b (p + length a + 1) = Inr r" by (simp add: cstr_def split: if_splits)
qed

lemma cstr_le_NUL:
  assumes "cstr buf p = Inr s" and "p \<le> q" and "q < length buf" and "buf ! q = NUL"
  shows "p + length s \<le> q"
proof (rule ccontr)
  assume "\<not> p + length s \<le> q"
  with assms cstr_nth [OF assms(1), of "q - p"] have "s ! (q - p) = NUL" by simp
  with \<open>\<not> p + length s \<le> q\<close> assms(2) have "NUL \<in> set s"
    by (metis add_diff_cancel_left' diff_less_mono in_set_conv_nth linorder_not_le)
  with cstr_NUL_free [OF assms(1)] show False ..
qed

lemma cstr_exists:
  assumes "p \<le> q" and "q < length buf" and "buf ! q = NUL"
  shows "\<exists>s. cstr buf p = Inr s \<and> p + length s \<le> q"
proof -
  have "NUL \<in> set (drop p buf)"
    using assms by (metis Cons_nth_drop_Suc list.set_intros(1) set_drop_mono)
  then obtain s where "cstr buf p = Inr s" by (auto simp: cstr_def)
  with cstr_le_NUL assms show ?thesis by blast
qed

lemma cstr_update_before: "i < p \<Longrightarrow> cstr (buf[i := c]) p = cstr buf p"
  by (simp add: cstr_def)

lemma blank_split:
  "list_ex (\<lambda>c. c \<in> set acc) s \<Longrightarrow>
     \<exists>d r. s = takeWhile (\<lambda>c. c \<notin> set acc) s @ d # r \<and> d \<in> set acc"
  by (induction s) auto

lemma strpbrk_Some:
  assumes "cstr buf p = Inr s" and "strpbrk buf p acc = Inr (Some q)"
  obtains a d r where "s = a @ d # r" "q = p + length a" "d \<in> set acc" "\<forall>c \<in> set a. c \<notin> set acc"
proof -
  from assms have "list_ex (\<lambda>c. c \<in> set acc) s"
    and q: "q = p + length (takeWhile (\<lambda>c. c \<notin> set acc) s)"
    by (auto simp: strpbrk_def split: if_splits)
  with blank_split [of acc s] that [of "takeWhile (\<lambda>c. c \<notin> set acc) s"] show thesis
    by (auto dest: set_takeWhileD)
qed

lemma strspn_le: "cstr buf p = Inr s \<Longrightarrow> strspn buf p acc = Inr k \<Longrightarrow> k \<le> length s"
  by (auto simp: strspn_def length_takeWhile_le)

lemma strchr_le:
  "cstr buf p = Inr s \<Longrightarrow> strchr buf p c = Inr (Some q) \<Longrightarrow> p \<le> q \<and> q < p + length s \<and> buf ! q = c"
proof -
  assume s: "cstr buf p = Inr s" and q: "strchr buf p c = Inr (Some q)"
  then have c: "c \<in> set s" and q: "q = p + length (takeWhile (\<lambda>d. d \<noteq> c) s)"
    by (auto simp: strchr_def split: if_splits)
  have l: "length (takeWhile (\<lambda>d. d \<noteq> c) s) < length s" by (rule nth_length_takeWhile_set [OF c])
  then have "s ! length (takeWhile (\<lambda>d. d \<noteq> c) s) = c"
    using nth_length_takeWhile [of "\<lambda>d. d \<noteq> c" s] by simp
  with l q cstr_nth [OF s l] show ?thesis by simp
qed


section \<open>Only the line itself matters\<close>

text \<open>A NUL in the buffer; a string that starts before it ends at it or earlier, whatever follows.\<close>

definition nul_at :: "buffer \<Rightarrow> nat \<Rightarrow> bool" where
  "nul_at b q \<longleftrightarrow> q < length b \<and> b ! q = NUL"

lemma nul_at_append: "nul_at b q \<Longrightarrow> nul_at (b @ t) q"
  by (simp add: nul_at_def nth_append)

lemma nul_at_update: "nul_at b q \<Longrightarrow> nul_at (b[i := NUL]) q"
  by (cases "i = q") (simp_all add: nul_at_def)

lemma nul_at_drop: "nul_at b q \<Longrightarrow> p \<le> q \<Longrightarrow> NUL \<in> set (drop p b)"
  by (metis Cons_nth_drop_Suc list.set_intros(1) nul_at_def set_drop_mono)

lemma takeWhile_append_member:
  "x \<in> set xs \<Longrightarrow> \<not> P x \<Longrightarrow> takeWhile P (xs @ ys) = takeWhile P xs"
  by (induction xs) auto

lemma cstr_append:
  assumes "nul_at b q" and "p \<le> q"
  shows "cstr (b @ t) p = cstr b p"
proof -
  have n: "NUL \<in> set (drop p b)" by (rule nul_at_drop [OF assms])
  then have "drop p (b @ t) = drop p b @ t" by (cases "p \<le> length b") auto
  with n show ?thesis by (simp add: cstr_def takeWhile_append_member)
qed

lemma cstrn_append:
  assumes "nul_at b q" and "p \<le> q"
  shows "cstrn (b @ t) p n = cstrn b p n"
proof (cases "p + n \<le> length b")
  case True
  then show ?thesis by (simp add: cstrn_def)
next
  case False
  with assms have "take n (drop p b) = drop p b" "p \<le> length b" by (simp_all add: nul_at_def)
  moreover from assms have "NUL \<in> set (drop p b)" by (rule nul_at_drop)
  ultimately show ?thesis by (simp add: cstrn_def takeWhile_append_member)
qed

lemma string_append:
  assumes "nul_at b q" and "p \<le> q"
  shows "strpbrk (b @ t) p acc = strpbrk b p acc" "strspn (b @ t) p acc = strspn b p acc"
    "strchr (b @ t) p c = strchr b p c" "strlen (b @ t) p = strlen b p"
    "strcasecmp0 (b @ t) p lit = strcasecmp0 b p lit"
    "strncasecmp0 (b @ t) p lit n = strncasecmp0 b p lit n" "atoi (b @ t) p = atoi b p"
  by (simp_all add: strpbrk_def strspn_def strchr_def strlen_def strcasecmp0_def strncasecmp0_def
      atoi_def cstr_append [OF assms] cstrn_append [OF assms])

lemma access_append:
  "i < length b \<Longrightarrow> rd (b @ t) i = rd b i"
  "i < length b \<Longrightarrow> wr (b @ t) i c = res_map (\<lambda>b. b @ t) (wr b i c)"
  "p + length s \<le> length b \<Longrightarrow> put (b @ t) p s = res_map (\<lambda>b. b @ t) (put b p s)"
  by (simp_all add: rd_def wr_def put_def nth_append list_update_append)

lemma cstr_at:
  assumes "nul_at b q" and "p \<le> q"
  obtains s where "cstr b p = Inr s" "p + length s \<le> q"
  using cstr_exists [OF assms(2)] assms(1) by (auto simp: nul_at_def)

lemma strings_at:
  assumes "nul_at b q" and "p \<le> q"
  shows "\<exists>u. strpbrk b p acc = Inr u \<and> (\<forall>v. u = Some v \<longrightarrow> p \<le> v \<and> v < q)"
    and "\<exists>k. strspn b p acc = Inr k \<and> p + k \<le> q"
    and "\<exists>u. strchr b p c = Inr u \<and> (\<forall>v. u = Some v \<longrightarrow> p \<le> v \<and> v < q)"
    and "\<exists>n. strlen b p = Inr n \<and> p + n \<le> q"
    and "\<exists>e. strcasecmp0 b p lit = Inr e \<and> (e \<longrightarrow> p + length lit \<le> q)"
proof -
  obtain s where s: "cstr b p = Inr s" "p + length s \<le> q" by (rule cstr_at [OF assms])
  have t: "list_ex (\<lambda>c. c \<in> set acc) s \<Longrightarrow> length (takeWhile (\<lambda>c. c \<notin> set acc) s) < length s" for acc
    by (induction s) auto
  show "\<exists>u. strpbrk b p acc = Inr u \<and> (\<forall>v. u = Some v \<longrightarrow> p \<le> v \<and> v < q)"
    using s t [of acc] by (auto simp: strpbrk_def)
  show "\<exists>k. strspn b p acc = Inr k \<and> p + k \<le> q"
    using s length_takeWhile_le [of "\<lambda>c. c \<in> set acc" s] by (auto simp: strspn_def)
  show "\<exists>u. strchr b p c = Inr u \<and> (\<forall>v. u = Some v \<longrightarrow> p \<le> v \<and> v < q)"
    using s strchr_le [OF s(1), of c] by (auto simp: strchr_def split: if_splits)
  show "\<exists>n. strlen b p = Inr n \<and> p + n \<le> q" using s by (simp add: strlen_def)
  show "\<exists>e. strcasecmp0 b p lit = Inr e \<and> (e \<longrightarrow> p + length lit \<le> q)"
    using s by (auto simp: strcasecmp0_def same_nocase_def dest: map_eq_imp_length_eq)
qed

lemma strncasecmp_at:
  assumes "nul_at b q" and "p \<le> q"
  shows "\<exists>e. strncasecmp0 b p lit (length lit) = Inr e \<and> (e \<longrightarrow> p + length lit \<le> q)"
proof -
  let ?s = "takeWhile (\<lambda>c. c \<noteq> NUL) (take (length lit) (drop p b))"
  have c: "cstrn b p (length lit) = Inr ?s"
  proof (cases "p + length lit \<le> length b")
    case True
    then show ?thesis by (simp add: cstrn_def)
  next
    case False
    with nul_at_drop [OF assms] show ?thesis by (simp add: cstrn_def)
  qed
  have "p + length lit \<le> q" if "length ?s = length lit"
  proof (rule ccontr)
    assume "\<not> p + length lit \<le> q"
    then have q: "q - p < length lit" using assms(2) by simp
    then have "take (length lit) (drop p b) ! (q - p) = NUL"
      using assms by (simp add: nul_at_def)
    moreover have "?s ! (q - p) = take (length lit) (drop p b) ! (q - p)"
      using q that by (intro takeWhile_nth) simp
    ultimately have "NUL \<in> set ?s" using q that nth_mem by metis
    then show False by (auto dest: set_takeWhileD)
  qed
  with c show ?thesis
    by (auto simp: strncasecmp0_def same_nocase_def dest: map_eq_imp_length_eq)
qed


text \<open>The connection with \<open>t\<close> behind the part of its buffer it is given here, \<open>n\<close> bytes being received.\<close>

definition tl_buf :: "string \<Rightarrow> nat \<Rightarrow> 'm http_conn \<Rightarrow> 'm http_conn" where
  "tl_buf t n h = h\<lparr>m_read_buf := m_read_buf h @ t, m_read_idx := n\<rparr>"

text \<open>What no parser changes.\<close>

definition same_frame :: "'m http_conn \<Rightarrow> 'm http_conn \<Rightarrow> bool" where
  "same_frame h h' \<longleftrightarrow>
     length (m_read_buf h') = length (m_read_buf h) \<and> m_read_idx h' = m_read_idx h \<and>
     m_checked_idx h' = m_checked_idx h \<and> m_start_line h' = m_start_line h \<and>
     m_write_buf h' = m_write_buf h \<and> m_write_idx h' = m_write_idx h \<and>
     m_real_file h' = m_real_file h \<and> m_sockfd h' = m_sockfd h \<and> mysql h' = mysql h"

lemma same_frame_refl [simp]: "same_frame h h"
  by (simp add: same_frame_def)

lemma same_frame_trans: "same_frame h h1 \<Longrightarrow> same_frame h1 h2 \<Longrightarrow> same_frame h h2"
  by (simp add: same_frame_def)

lemma same_frame_updates [simp]:
  "same_frame h (h'\<lparr>m_url := u\<rparr>) = same_frame h h'"
  "same_frame h (h'\<lparr>m_version := u\<rparr>) = same_frame h h'"
  "same_frame h (h'\<lparr>m_method := m\<rparr>) = same_frame h h'"
  "same_frame h (h'\<lparr>cgi := c\<rparr>) = same_frame h h'"
  "same_frame h (h'\<lparr>m_check_state := s\<rparr>) = same_frame h h'"
  "same_frame h (h'\<lparr>m_host := u\<rparr>) = same_frame h h'"
  "same_frame h (h'\<lparr>m_linger := l\<rparr>) = same_frame h h'"
  "same_frame h (h'\<lparr>m_content_length := n\<rparr>) = same_frame h h'"
  "same_frame h (h'\<lparr>m_string := st\<rparr>) = same_frame h h'"
  by (simp_all add: same_frame_def)

definition url_le :: "'m http_conn \<Rightarrow> nat \<Rightarrow> bool" where
  "url_le h q \<longleftrightarrow> (case m_url h of None \<Rightarrow> True | Some u \<Rightarrow> u \<le> q)"

lemma skip_scheme_local:
  assumes "nul_at (m_read_buf h) q" and "url_le h q"
  shows "skip_scheme lit (tl_buf t n h) = res_map (tl_buf t n) (skip_scheme lit h)"
    and "(skip_scheme lit h = Inl NullPointer \<and> m_url h = None) \<or>
      (\<exists>h'. skip_scheme lit h = Inr h' \<and> m_read_buf h' = m_read_buf h \<and> same_frame h h' \<and> url_le h' q)"
proof -
  show "skip_scheme lit (tl_buf t n h) = res_map (tl_buf t n) (skip_scheme lit h)"
  proof (cases "m_url h")
    case None
    then show ?thesis by (simp add: skip_scheme_def tl_buf_def)
  next
    case (Some u)
    with assms have u: "u \<le> q" by (simp add: url_le_def)
    obtain e where e: "strncasecmp0 (m_read_buf h) u lit (length lit) = Inr e"
      "e \<Longrightarrow> u + length lit \<le> q" using strncasecmp_at [OF assms(1) u] by blast
    with Some show ?thesis
      using string_append(6) [OF assms(1) u, of t lit "length lit"]
        string_append(3) [OF assms(1), of "u + length lit" t "CHR ''/''"]
      by (cases e)
        (auto simp: skip_scheme_def tl_buf_def res_map_def andThen_def split: sum.split)
  qed
next
  show "(skip_scheme lit h = Inl NullPointer \<and> m_url h = None) \<or>
      (\<exists>h'. skip_scheme lit h = Inr h' \<and> m_read_buf h' = m_read_buf h \<and> same_frame h h' \<and> url_le h' q)"
  proof (cases "m_url h")
    case None
    then show ?thesis by (simp add: skip_scheme_def)
  next
    case (Some u)
    with assms have u: "u \<le> q" by (simp add: url_le_def)
    obtain e where e: "strncasecmp0 (m_read_buf h) u lit (length lit) = Inr e"
      "e \<Longrightarrow> u + length lit \<le> q" using strncasecmp_at [OF assms(1) u] by blast
    show ?thesis
    proof (cases e)
      case True
      with e strings_at(3) [OF assms(1), of "u + length lit" "CHR ''/''"] obtain p where
        "strchr (m_read_buf h) (u + length lit) (CHR ''/'') = Inr p" "\<forall>v. p = Some v \<longrightarrow> v < q" by auto
      with True e Some show ?thesis
        by (auto simp: skip_scheme_def url_le_def split: option.split)
    next
      case False
      with e Some assms(2) show ?thesis by (simp add: skip_scheme_def)
    qed
  qed
qed

lemma parse_method_local:
  assumes "nul_at (m_read_buf h) q" and "p \<le> q"
  shows "parse_method p (tl_buf t n h) = res_map (\<lambda>(b, h). (b, tl_buf t n h)) (parse_method p h)"
    and "\<exists>b h'. parse_method p h = Inr (b, h') \<and> m_read_buf h' = m_read_buf h \<and> m_url h' = m_url h \<and>
      same_frame h h'"
proof -
  obtain e1 e2 where e: "strcasecmp0 (m_read_buf h) p ''GET'' = Inr e1" "strcasecmp0 (m_read_buf h) p ''POST'' = Inr e2"
    using strings_at(5) [OF assms] by meson
  then show "parse_method p (tl_buf t n h) = res_map (\<lambda>(b, h). (b, tl_buf t n h)) (parse_method p h)"
    using string_append(5) [OF assms, of t] by (simp add: parse_method_def tl_buf_def)
  from e show "\<exists>b h'. parse_method p h = Inr (b, h') \<and> m_read_buf h' = m_read_buf h \<and> m_url h' = m_url h \<and>
      same_frame h h'"
    by (cases e1; cases e2) (auto simp: parse_method_def)
qed

lemma check_path_local:
  assumes q: "nul_at (m_read_buf h) q" and u: "url_le h q" and l: "q + 11 \<le> length (m_read_buf h)"
  shows "check_path (tl_buf t n h) = res_map (\<lambda>(c, h). (c, tl_buf t n h)) (check_path h)"
    and "\<exists>c h'. check_path h = Inr (c, h') \<and> same_frame h h' \<and> url_le h' q \<and>
      (c = BAD_REQUEST \<or> c = NO_REQUEST)"
proof -
  have "check_path (tl_buf t n h) = res_map (\<lambda>(c, h). (c, tl_buf t n h)) (check_path h) \<and>
    (\<exists>c h'. check_path h = Inr (c, h') \<and> same_frame h h' \<and> url_le h' q \<and> (c = BAD_REQUEST \<or> c = NO_REQUEST))"
  proof (cases "m_url h")
    case None
    with u show ?thesis by (simp add: check_path_def tl_buf_def)
  next
    case (Some p)
    with q u have p: "p \<le> q" "p < length (m_read_buf h)" by (simp_all add: url_le_def nul_at_def)
    obtain n where n: "strlen (m_read_buf h) p = Inr n" "p + n \<le> q" using strings_at(4) [OF q p(1)] by blast
    define b where "b = take (p + 1) (m_read_buf h) @ (''judge.html'' @ [NUL]) @
      drop (p + 1 + length (''judge.html'' @ [NUL])) (m_read_buf h)"
    have b: "put (m_read_buf h) (p + 1) (''judge.html'' @ [NUL]) = Inr b" "length b = length (m_read_buf h)"
      if "n = 1" using that n l by (simp_all add: put_def b_def)
    then have "put (m_read_buf h @ t) (p + 1) (''judge.html'' @ [NUL]) = Inr (b @ t)" if "n = 1"
      using that n l access_append(3) [of "p + 1" "''judge.html'' @ [NUL]" "m_read_buf h" t] by simp
    with b show ?thesis
      using Some u p n l string_append(4) [OF q p(1), of t]
      by (cases "m_read_buf h ! p = CHR ''/''"; cases "n = 1")
        (simp_all add: check_path_def tl_buf_def access_append rd_ok strcat_def same_frame_def url_le_def nth_append)
  qed
  then show "check_path (tl_buf t n h) = res_map (\<lambda>(c, h). (c, tl_buf t n h)) (check_path h)"
    "\<exists>c h'. check_path h = Inr (c, h') \<and> same_frame h h' \<and> url_le h' q \<and>
      (c = BAD_REQUEST \<or> c = NO_REQUEST)" by blast+
qed

lemma parse_path_local:
  assumes "nul_at (m_read_buf h) q" and "url_le h q" and "q + 11 \<le> length (m_read_buf h)"
  shows "parse_path (tl_buf t n h) = res_map (\<lambda>(c, h). (c, tl_buf t n h)) (parse_path h)"
    and "parse_path h = Inl NullPointer \<or>
      (\<exists>c h'. parse_path h = Inr (c, h') \<and> same_frame h h' \<and> url_le h' q \<and>
         (c = BAD_REQUEST \<or> c = NO_REQUEST))"
proof -
  have step: "nul_at (m_read_buf h') q \<and> url_le h' q \<and> q + 11 \<le> length (m_read_buf h') \<and> same_frame h h'"
    if "nul_at (m_read_buf h) q" "url_le h q" "q + 11 \<le> length (m_read_buf h)" "skip_scheme lit h = Inr h'"
    for lit and h h' :: "'a http_conn"
    using skip_scheme_local(2) [OF that(1,2), of lit] that by auto
  show "parse_path (tl_buf t n h) = res_map (\<lambda>(c, h). (c, tl_buf t n h)) (parse_path h)"
    unfolding parse_path_def
  proof (rule res_map_andThen [OF skip_scheme_local(1) [OF assms(1,2)]])
    fix h1 assume "skip_scheme ''http://'' h = Inr h1"
    from step [OF assms this] have 1: "nul_at (m_read_buf h1) q" "url_le h1 q"
      "q + 11 \<le> length (m_read_buf h1)" by auto
    show "andThen (skip_scheme ''https://'' (tl_buf t n h1)) check_path =
        res_map (\<lambda>(c, h). (c, tl_buf t n h)) (andThen (skip_scheme ''https://'' h1) check_path)"
      using step [OF 1] by (intro res_map_andThen [OF skip_scheme_local(1) [OF 1(1,2)]] check_path_local) blast+
  qed
  show "parse_path h = Inl NullPointer \<or>
      (\<exists>c h'. parse_path h = Inr (c, h') \<and> same_frame h h' \<and> url_le h' q \<and>
         (c = BAD_REQUEST \<or> c = NO_REQUEST))"
  proof (cases "skip_scheme ''http://'' h")
    case (Inl e)
    with skip_scheme_local(2) [OF assms(1,2), of "''http://''"] show ?thesis by (simp add: parse_path_def)
  next
    case (Inr h1)
    from step [OF assms this] have 1: "nul_at (m_read_buf h1) q" "url_le h1 q"
      "q + 11 \<le> length (m_read_buf h1)" "same_frame h h1" by auto
    show ?thesis
    proof (cases "skip_scheme ''https://'' h1")
      case (Inl e)
      with skip_scheme_local(2) [OF 1(1,2), of "''https://''"] Inr show ?thesis by (simp add: parse_path_def)
    next
      case Inr2: (Inr h2)
      from step [OF 1(1-3) this] have 2: "nul_at (m_read_buf h2) q" "url_le h2 q"
        "q + 11 \<le> length (m_read_buf h2)" "same_frame h1 h2" by auto
      have "same_frame h h2" using 1(4) 2(4) by (rule same_frame_trans)
      with check_path_local(2) [OF 2(1-3)] Inr Inr2 same_frame_trans show ?thesis
        by (simp add: parse_path_def) blast
    qed
  qed
qed


lemma parse_request_line_local:
  assumes q: "nul_at (m_read_buf h) q" and l: "length (m_read_buf h) = q + 2" and p: "p \<le> q"
  shows "parse_request_line p (tl_buf t n h) = res_map (\<lambda>(c, h). (c, tl_buf t n h)) (parse_request_line p h)"
    and "parse_request_line p h = Inl NullPointer \<or>
      (\<exists>c h'. parse_request_line p h = Inr (c, h') \<and> same_frame h h' \<and>
         (c = BAD_REQUEST \<or> c = NO_REQUEST))"
proof -
  let ?f = "\<lambda>(c, h). (c, tl_buf t n h)"
  have "parse_request_line p (tl_buf t n h) = res_map ?f (parse_request_line p h) \<and>
    (parse_request_line p h = Inl NullPointer \<or>
      (\<exists>c h'. parse_request_line p h = Inr (c, h') \<and> same_frame h h' \<and>
         (c = BAD_REQUEST \<or> c = NO_REQUEST)))"
  proof -
    obtain u where u: "strpbrk (m_read_buf h) p blanks = Inr u" "\<forall>v. u = Some v \<longrightarrow> p \<le> v \<and> v < q"
      using strings_at(1) [OF q p] by blast
    show ?thesis
    proof (cases u)
      case None
      with u string_append(1) [OF q p] show ?thesis by (simp add: parse_request_line_def tl_buf_def)
    next
      case (Some u1)
      with u have u1: "p \<le> u1" "u1 < q" by auto
      define b1 where "b1 = (m_read_buf h)[u1 := NUL]"
      have q1: "nul_at b1 q" "nul_at b1 u1" "length b1 = q + 2"
        using q u1 l by (auto simp: b1_def nul_at_def)
      define h1 where "h1 = h\<lparr>m_read_buf := b1, m_url := Some (u1 + 1)\<rparr>"
      obtain m h2 where m: "parse_method p h1 = Inr (m, h2)" "m_read_buf h2 = b1" "same_frame h1 h2"
        using parse_method_local(2) [of h1 q p] q1 p by (auto simp: h1_def)
      have "tl_buf t n h1 = h\<lparr>m_read_idx := n, m_read_buf := b1 @ t, m_url := Some (u1 + 1)\<rparr>"
        by (cases h) (simp add: h1_def tl_buf_def)
      then have m': "parse_method p (h\<lparr>m_read_idx := n, m_read_buf := b1 @ t, m_url := Some (Suc u1)\<rparr>) = Inr (m, tl_buf t n h2)"
        using parse_method_local(1) [of h1 q p t n] m q1 p by (simp add: h1_def)
      have wr1: "wr (m_read_buf h) u1 NUL = Inr b1" "wr (m_read_buf h @ t) u1 NUL = Inr (b1 @ t)"
        using u1 l by (simp_all add: wr_ok b1_def list_update_append)
      have f1: "same_frame h h2"
        using m(3) l q1(3) by (simp add: same_frame_def h1_def)
      obtain k where k: "strspn b1 (u1 + 1) blanks = Inr k" "u1 + 1 + k \<le> q"
        using strings_at(2) [OF q1(1), of "u1 + 1"] u1 by auto
      define u2 where "u2 = u1 + 1 + k"
      obtain v where v: "strpbrk b1 u2 blanks = Inr v" "\<forall>w. v = Some w \<longrightarrow> u2 \<le> w \<and> w < q"
        using strings_at(1) [OF q1(1), of u2] k(2) by (auto simp: u2_def)
      have app1: "strpbrk (m_read_buf h @ t) p blanks = Inr u" "strspn (b1 @ t) (Suc u1) blanks = Inr k"
        "strpbrk (b1 @ t) u2 blanks = Inr v"
        using string_append(1) [OF q p] string_append(2) [OF q1(1), of "u1 + 1"]
          string_append(1) [OF q1(1), of u2] u1 k u(1) v(1) by (simp_all add: u2_def)
      show ?thesis
      proof (cases "m \<and> v \<noteq> None")
        case False
        moreover have "(tl_buf t n h2)\<lparr>m_url := Some u2, m_version := None\<rparr> =
            tl_buf t n (h2\<lparr>m_url := Some u2, m_version := None\<rparr>)" by (cases h2) (simp add: tl_buf_def)
        ultimately show ?thesis using u(1) Some wr1 m m' k v app1 f1
          by (auto simp: parse_request_line_def tl_buf_def h1_def u2_def simp del: wr_Inr)
      next
        case True
        then obtain v1 where v1: "v = Some v1" "u2 \<le> v1" "v1 < q" using v by auto
        define b2 where "b2 = b1[v1 := NUL]"
        have q2: "nul_at b2 q" "nul_at b2 v1" "length b2 = q + 2"
          using q1 v1 by (auto simp: b2_def nul_at_def)
        have wr2: "wr b1 v1 NUL = Inr b2" "wr (b1 @ t) v1 NUL = Inr (b2 @ t)"
          using v1 q1 by (simp_all add: wr_ok b2_def list_update_append)
        obtain j where j: "strspn b2 (v1 + 1) blanks = Inr j" "v1 + 1 + j \<le> q"
          using strings_at(2) [OF q2(1), of "v1 + 1"] v1 by auto
        define v2 where "v2 = v1 + 1 + j"
        obtain e where e: "strcasecmp0 b2 v2 ''HTTP/1.1'' = Inr e" "e \<Longrightarrow> v2 + 8 \<le> q"
          using strings_at(5) [OF q2(1), of v2 "''HTTP/1.1''"] j(2) by (auto simp: v2_def)
        have app2: "strspn (b2 @ t) (Suc v1) blanks = Inr j" "strcasecmp0 (b2 @ t) v2 ''HTTP/1.1'' = Inr e"
          using string_append(2) [OF q2(1), of "v1 + 1"] string_append(5) [OF q2(1), of v2] v1 j e(1)
          by (simp_all add: v2_def)
        define h3 where "h3 = h2\<lparr>m_url := Some u2, m_read_buf := b2, m_version := Some v2\<rparr>"
        have f3: "same_frame h h3" using f1 l q2(3) by (simp add: h3_def same_frame_def)
        have run: "parse_request_line p h = (if e then parse_path h3 else Inr (BAD_REQUEST, h3))"
          using u(1) Some wr1 m k v True v1 wr2 j e
          by (simp add: parse_request_line_def h1_def u2_def v2_def h3_def del: wr_Inr)
        have tl3: "tl_buf t n h3 = (tl_buf t n h2)\<lparr>m_url := Some u2, m_read_buf := b2 @ t, m_version := Some v2\<rparr>"
          by (cases h2) (simp add: h3_def tl_buf_def)
        have run': "parse_request_line p (tl_buf t n h) =
            (if e then parse_path (tl_buf t n h3) else Inr (BAD_REQUEST, tl_buf t n h3))"
          unfolding tl3 using app1 Some wr1 m m' k v True v1 wr2 j e app2
          by (simp add: parse_request_line_def u2_def v2_def tl_buf_def del: wr_Inr)
        show ?thesis
        proof (cases e)
          case False
          with run run' f3 show ?thesis by simp
        next
          case True
          have "nul_at (m_read_buf h3) v1" "url_le h3 v1" "v1 + 11 \<le> length (m_read_buf h3)"
            using q2 v1 e(2) [OF True] by (simp_all add: h3_def url_le_def v2_def)
          from parse_path_local [OF this] True run run' same_frame_trans [OF f3] show ?thesis by auto
        qed
      qed
    qed
  qed
  then show "parse_request_line p (tl_buf t n h) = res_map ?f (parse_request_line p h)"
    and "parse_request_line p h = Inl NullPointer \<or>
      (\<exists>c h'. parse_request_line p h = Inr (c, h') \<and> same_frame h h' \<and>
         (c = BAD_REQUEST \<or> c = NO_REQUEST))" by blast+
qed


lemma parse_headers_local:
  assumes q: "nul_at (m_read_buf h) q" and p: "p \<le> q"
  shows "parse_headers p (tl_buf t n h) w = res_map (\<lambda>(c, h, w). (c, tl_buf t n h, w)) (parse_headers p h w)"
    and "parse_headers p h w = Inl BadConversion \<or>
      (\<exists>c h' w'. parse_headers p h w = Inr (c, h', w') \<and> m_read_buf h' = m_read_buf h \<and> same_frame h h' \<and>
         (c = NO_REQUEST \<or> c = GET_REQUEST))"
proof -
  let ?b = "m_read_buf h"
  let ?f = "\<lambda>(c, h, w). (c, tl_buf t n h, w)"
  have r: "rd ?b p = Inr (?b ! p)" "rd (?b @ t) p = Inr (?b ! p)"
    using q p by (simp_all add: rd_ok nul_at_def nth_append)
  obtain s where s: "cstr ?b p = Inr s" "cstr (?b @ t) p = Inr s"
    using cstr_at [OF q p] cstr_append [OF q p] by metis
  have pre: "\<exists>e. strncasecmp0 ?b p lit n = Inr e \<and> (e \<longrightarrow> p + n \<le> q) \<and> strncasecmp0 (?b @ t) p lit n = Inr e"
    if "length lit = n" for lit n
    using strncasecmp_at [OF q p, of lit] string_append(6) [OF q p, of t lit n] that by auto
  obtain e1 where e1: "strncasecmp0 ?b p ''Connection:'' 11 = Inr e1" "e1 \<Longrightarrow> p + 11 \<le> q"
    "strncasecmp0 (?b @ t) p ''Connection:'' 11 = Inr e1" using pre [of "''Connection:''" 11] by auto
  obtain e2 where e2: "strncasecmp0 ?b p ''Content-length:'' 15 = Inr e2" "e2 \<Longrightarrow> p + 15 \<le> q"
    "strncasecmp0 (?b @ t) p ''Content-length:'' 15 = Inr e2" using pre [of "''Content-length:''" 15] by auto
  obtain e3 where e3: "strncasecmp0 ?b p ''Host:'' 5 = Inr e3" "e3 \<Longrightarrow> p + 5 \<le> q"
    "strncasecmp0 (?b @ t) p ''Host:'' 5 = Inr e3" using pre [of "''Host:''" 5] by auto
  have span: "\<exists>k. strspn ?b (p + n) blanks = Inr k \<and> strspn (?b @ t) (p + n) blanks = Inr k \<and> p + n + k \<le> q"
    if "p + n \<le> q" for n
    using strings_at(2) [OF q that, of blanks] string_append(2) [OF q that, of t blanks] by auto
  have "parse_headers p (tl_buf t n h) w = res_map ?f (parse_headers p h w) \<and>
      (parse_headers p h w = Inl BadConversion \<or>
      (\<exists>c h' w'. parse_headers p h w = Inr (c, h', w') \<and> m_read_buf h' = m_read_buf h \<and> same_frame h h' \<and>
         (c = NO_REQUEST \<or> c = GET_REQUEST)))"
  proof -
    consider "?b ! p = NUL" | "?b ! p \<noteq> NUL" e1 | "?b ! p \<noteq> NUL" "\<not> e1" e2
      | "?b ! p \<noteq> NUL" "\<not> e1" "\<not> e2" e3 | "?b ! p \<noteq> NUL" "\<not> e1" "\<not> e2" "\<not> e3" by blast
    then show ?thesis
    proof cases
      case 1
      with r show ?thesis by (simp add: parse_headers_def tl_buf_def del: rd_Inr)
    next
      case 2
      obtain k where k: "strspn ?b (p + 11) blanks = Inr k" "strspn (?b @ t) (p + 11) blanks = Inr k"
        "p + 11 + k \<le> q" using span [OF e1(2)] 2 by auto
      obtain e where "strcasecmp0 ?b (p + 11 + k) ''keep-alive'' = Inr e"
        "strcasecmp0 (?b @ t) (p + 11 + k) ''keep-alive'' = Inr e"
        using strings_at(5) [OF q k(3)] string_append(5) [OF q k(3)] by metis
      with 2 r e1 k show ?thesis by (simp add: parse_headers_def tl_buf_def del: rd_Inr)
    next
      case 3
      obtain k where k: "strspn ?b (p + 15) blanks = Inr k" "strspn (?b @ t) (p + 15) blanks = Inr k"
        "p + 15 + k \<le> q" using span [OF e2(2)] 3 by auto
      obtain u where "cstr ?b (p + 15 + k) = Inr u" using cstr_at [OF q k(3)] by blast
      then have "atoi ?b (p + 15 + k) = Inl BadConversion \<or> (\<exists>n. atoi ?b (p + 15 + k) = Inr n)"
        by (simp add: atoi_def Let_def)
      with 3 r e1 e2 k string_append(7) [OF q k(3), of t] show ?thesis
        by (auto simp: parse_headers_def tl_buf_def simp del: rd_Inr)
    next
      case 4
      obtain k where k: "strspn ?b (p + 5) blanks = Inr k" "strspn (?b @ t) (p + 5) blanks = Inr k"
        "p + 5 + k \<le> q" using span [OF e3(2)] 4 by auto
      with 4 r e1 e2 e3 show ?thesis by (simp add: parse_headers_def tl_buf_def del: rd_Inr)
    next
      case 5
      with r e1 e2 e3 s show ?thesis by (simp add: parse_headers_def tl_buf_def del: rd_Inr)
    qed
  qed
  then show "parse_headers p (tl_buf t n h) w = res_map ?f (parse_headers p h w)"
    and "parse_headers p h w = Inl BadConversion \<or>
      (\<exists>c h' w'. parse_headers p h w = Inr (c, h', w') \<and> m_read_buf h' = m_read_buf h \<and> same_frame h h' \<and>
         (c = NO_REQUEST \<or> c = GET_REQUEST))" by blast+
qed

text \<open>A connection as its buffer up to \<open>n\<close> and the rest.\<close>

lemma tl_buf_split:
  "tl_buf (drop n (m_read_buf h)) (m_read_idx h) (h\<lparr>m_read_buf := take n (m_read_buf h)\<rparr>) = h"
  by (cases h) (simp add: tl_buf_def)

lemma nul_at_take: "nul_at b q \<Longrightarrow> q < n \<Longrightarrow> nul_at (take n b) q"
  by (simp add: nul_at_def)

lemma tl_buf_fields [simp]:
  "m_read_idx (tl_buf t n h) = n" "m_checked_idx (tl_buf t n h) = m_checked_idx h"
  "m_start_line (tl_buf t n h) = m_start_line h" "m_check_state (tl_buf t n h) = m_check_state h"
  "m_content_length (tl_buf t n h) = m_content_length h" "m_read_buf (tl_buf t n h) = m_read_buf h @ t"
  by (simp_all add: tl_buf_def)

section \<open>A well-formed request line\<close>

lemma takeWhile_blank:
  "\<forall>c \<in> set ws. c \<in> set acc \<Longrightarrow> r = [] \<or> hd r \<notin> set acc \<Longrightarrow> takeWhile (\<lambda>c. c \<in> set acc) (ws @ r) = ws"
  by (induction ws) (auto simp: takeWhile_eq_Nil_iff)

lemma strpbrk_at:
  assumes "cstr b p = Inr (a @ d # r)" and "\<forall>c \<in> set a. c \<notin> set acc" and "d \<in> set acc"
  shows "strpbrk b p acc = Inr (Some (p + length a))"
proof -
  have "takeWhile (\<lambda>c. c \<notin> set acc) (a @ d # r) = a"
    using assms(2,3) by (intro takeWhile_append_stop) auto
  with assms(1,3) show ?thesis by (simp add: strpbrk_def)
qed

lemma strspn_at:
  "cstr b p = Inr (ws @ r) \<Longrightarrow> \<forall>c \<in> set ws. c \<in> set acc \<Longrightarrow> r = [] \<or> hd r \<notin> set acc \<Longrightarrow>
     strspn b p acc = Inr (length ws)"
  using takeWhile_blank [of ws acc r] by (simp add: strspn_def)

lemma cstr_Cons:
  assumes "cstr b (Suc p) = Inr s" and "b ! p \<noteq> NUL"
  shows "cstr b p = Inr (b ! p # s)"
proof -
  have "p < length b" using cstr_bound(1) [OF assms(1)] by simp
  then have "drop p b = b ! p # drop (Suc p) b" by (rule Cons_nth_drop_Suc [symmetric])
  with assms show ?thesis by (auto simp: cstr_def split: if_splits)
qed

lemma skip_scheme_path:
  assumes "m_url h = Some u" and "cstr (m_read_buf h) u = Inr (CHR ''/'' # r)" and "hd lit = CHR ''h''" "lit \<noteq> []"
  shows "skip_scheme lit h = Inr h"
proof -
  let ?b = "m_read_buf h"
  have q: "nul_at ?b (u + length (CHR ''/'' # r))" using cstr_bound [OF assms(2)] by (simp add: nul_at_def)
  obtain e where e: "strncasecmp0 ?b u lit (length lit) = Inr e"
    using strncasecmp_at [OF q, of u lit] by auto
  have "?b ! u = CHR ''/''" "u < length ?b"
    using cstr_nth [OF assms(2), of 0] cstr_bound(1) [OF assms(2)] by simp_all
  then have "drop u ?b = CHR ''/'' # drop (Suc u) ?b" by (metis Cons_nth_drop_Suc)
  moreover obtain n where "length lit = Suc n" using assms(4) by (cases lit) auto
  moreover obtain ls where "lit = CHR ''h'' # ls" using assms(3,4) by (cases lit) auto
  ultimately have "\<not> e" using e
    by (auto simp: strncasecmp0_def cstrn_def same_nocase_def tolower_def split: if_splits)
  with assms(1) e show ?thesis by (simp add: skip_scheme_def)
qed

definition page_of :: "string \<Rightarrow> string" where
  "page_of url = (if url = ''/'' then ''/judge.html'' else url)"

lemma check_path_page:
  assumes "m_url h = Some u" and "cstr (m_read_buf h) u = Inr url" and "hd url = CHR ''/''" "url \<noteq> []"
    and "u + 12 \<le> length (m_read_buf h)"
  shows "\<exists>b. check_path h = Inr (NO_REQUEST, h\<lparr>m_read_buf := b, m_check_state := CHECK_STATE_HEADER\<rparr>) \<and>
    cstr b u = Inr (page_of url)"
proof -
  let ?b = "m_read_buf h"
  obtain r where r: "url = CHR ''/'' # r" using assms(3,4) by (cases url) auto
  have c: "rd ?b u = Inr (CHR ''/'')"
    using cstr_nth [OF assms(2), of 0] cstr_bound(1) [OF assms(2)] r by (simp add: rd_def)
  have n: "strlen ?b u = Inr (length url)" using assms(2) by (simp add: strlen_def)
  show ?thesis
  proof (cases "length url = 1")
    case False
    then have "page_of url = url" by (auto simp: page_of_def)
    with False assms c n show ?thesis by (intro exI [of _ ?b]) (simp add: check_path_def del: rd_Inr)
  next
    case True
    define b where "b = take (u + 1) ?b @ (''judge.html'' @ [NUL]) @ drop (u + 1 + length (''judge.html'' @ [NUL])) ?b"
    have b: "put ?b (u + 1) (''judge.html'' @ [NUL]) = Inr b" using assms(5) by (simp add: put_def b_def)
    have "cstr b (u + 1) = Inr ''judge.html''" by (rule cstr_after_put [OF b]) simp
    moreover have "b ! u = CHR ''/''" using put_nth_before [OF b, of u] c by (simp add: rd_def split: if_splits)
    ultimately have "cstr b u = Inr ''/judge.html''" using cstr_Cons [of b u] by simp
    moreover have "page_of url = ''/judge.html''" using True r by (simp add: page_of_def)
    ultimately show ?thesis using True assms(1) c n b
      by (intro exI [of _ b]) (simp add: check_path_def strcat_def del: rd_Inr)
  qed
qed

section \<open>Properties\<close>

text \<open>C9: parsing a request line cannot touch the rest of the request. On a line that ends in two NULs,
  as \<open>parse_line\<close> leaves it, \<open>parse_request_line\<close> either passes a null URL to \<open>strncasecmp\<close>, which is its only
  fault, or answers \<open>BAD_REQUEST\<close> or \<open>NO_REQUEST\<close>; every access stays in the line, the appended
  \<open>judge.html\<close> included, so the bytes behind it and all indices are as before.\<close>

theorem parse_request_line_frame:
  assumes "nul_at (m_read_buf h) q" and "q + 2 \<le> length (m_read_buf h)" and "p \<le> q"
  shows "parse_request_line p h = Inl NullPointer \<or>
    (\<exists>c h'. parse_request_line p h = Inr (c, h') \<and> same_frame h h' \<and>
       drop (q + 2) (m_read_buf h') = drop (q + 2) (m_read_buf h) \<and> (c = BAD_REQUEST \<or> c = NO_REQUEST))"
proof -
  let ?h = "h\<lparr>m_read_buf := take (q + 2) (m_read_buf h)\<rparr>" and ?t = "drop (q + 2) (m_read_buf h)"
  have "nul_at (m_read_buf ?h) q" "length (m_read_buf ?h) = q + 2"
    using assms by (simp_all add: nul_at_def)
  note loc = parse_request_line_local(1) [OF this assms(3), of ?t "m_read_idx h", unfolded tl_buf_split]
    parse_request_line_local(2) [OF this assms(3)]
  from loc(2) consider "parse_request_line p ?h = Inl NullPointer"
    | c h' where "parse_request_line p ?h = Inr (c, h')" "same_frame ?h h'" "c = BAD_REQUEST \<or> c = NO_REQUEST"
    by blast
  then show ?thesis
  proof cases
    case 1
    with loc(1) show ?thesis by simp
  next
    case r: (2 c h')
    have "drop (q + 2) (m_read_buf (tl_buf ?t (m_read_idx h) h')) = drop (q + 2) (m_read_buf h)" "same_frame h (tl_buf ?t (m_read_idx h) h')"
      using r(2) assms(2) by (auto simp: same_frame_def tl_buf_def)
    with loc(1) r show ?thesis by auto
  qed
qed


theorem parse_request_line_frame_witness:
  "parse_request_line 0 (demo_conn 2 ''GET /'') = Inl NullPointer \<or>
    (\<exists>c h'. parse_request_line 0 (demo_conn 2 ''GET /'') = Inr (c, h') \<and> m_read_idx h' = 5)"
  using parse_request_line_frame [of "demo_conn 2 ''GET /''" 5 0]
  by (auto simp: demo_conn_def nul_at_def same_frame_def numeral_2_eq_2)

lemma request_line_result:
  assumes line: "cstr (m_read_buf h) p = Inr (meth @ d1 # ws1 @ url @ d2 # ws2 @ ver)"
    and room: "p + length (meth @ d1 # ws1 @ url @ d2 # ws2 @ ver) + 2 \<le> length (m_read_buf h)"
    and meth: "same_nocase meth ''GET'' \<or> same_nocase meth ''POST''" "\<forall>c \<in> set meth. c \<notin> set blanks"
    and url: "url \<noteq> []" "hd url = CHR ''/''" "\<forall>c \<in> set url. c \<notin> set blanks"
    and ver: "same_nocase ver ''HTTP/1.1''" "\<forall>c \<in> set ver. c \<notin> set blanks"
    and ws: "d1 \<in> set blanks" "d2 \<in> set blanks" "\<forall>c \<in> set ws1. c \<in> set blanks" "\<forall>c \<in> set ws2. c \<in> set blanks"
  shows "\<exists>b u v. parse_request_line p h = Inr (NO_REQUEST, h\<lparr>m_read_buf := b, m_url := Some u, m_version := Some v,
       m_method := (if same_nocase meth ''GET'' then GET else POST),
       cgi := (if same_nocase meth ''GET'' then cgi h else 1), m_check_state := CHECK_STATE_HEADER\<rparr>) \<and>
     cstr b u = Inr (page_of url)"
proof -
  let ?b = "m_read_buf h" and ?i = "p + length meth"
  have pb: "strpbrk ?b p blanks = Inr (Some ?i)" by (rule strpbrk_at [OF line meth(2) ws(1)])
  define b1 where "b1 = ?b[?i := NUL]"
  have b1: "cstr b1 p = Inr meth" "cstr b1 (?i + 1) = Inr (ws1 @ url @ d2 # ws2 @ ver)"
    using cstr_split [OF line] by (simp_all add: b1_def)
  have w1: "wr ?b ?i NUL = Inr b1" using room by (simp add: wr_def b1_def)
  have s1: "strspn b1 (?i + 1) blanks = Inr (length ws1)"
    by (rule strspn_at [OF b1(2) ws(3)]) (use url in \<open>auto simp: blanks_def\<close>)
  define u where "u = ?i + 1 + length ws1"
  have cu: "cstr b1 u = Inr (url @ d2 # ws2 @ ver)"
    using cstr_suffix [OF b1(2), of "length ws1"] by (simp add: u_def)
  have pv: "strpbrk b1 u blanks = Inr (Some (u + length url))" by (rule strpbrk_at [OF cu url(3) ws(2)])
  define b2 where "b2 = b1[u + length url := NUL]"
  have b2: "cstr b2 u = Inr url" "cstr b2 (u + length url + 1) = Inr (ws2 @ ver)"
    using cstr_split [OF cu] by (simp_all add: b2_def)
  have w2: "wr b1 (u + length url) NUL = Inr b2" using room by (simp add: wr_def b2_def b1_def u_def)
  have s2: "strspn b2 (u + length url + 1) blanks = Inr (length ws2)"
    by (rule strspn_at [OF b2(2) ws(4)]) (use ver in \<open>cases ver; auto\<close>)
  define v where "v = u + length url + 1 + length ws2"
  have cv: "cstr b2 v = Inr ver" using cstr_suffix [OF b2(2), of "length ws2"] by (simp add: v_def)
  have "length ver = 8" using ver(1) by (auto simp: same_nocase_def dest: map_eq_imp_length_eq)
  then have room': "u + 12 \<le> length b2"
    using room url(1) by (cases url) (auto simp: b2_def b1_def u_def)
  define h1 where "h1 = h\<lparr>m_read_buf := b1, m_url := Some (?i + 1)\<rparr>"
  define h2 where "h2 = h1\<lparr>m_method := (if same_nocase meth ''GET'' then GET else POST),
    cgi := (if same_nocase meth ''GET'' then cgi h else 1)\<rparr>"
  have m: "parse_method p h1 = Inr (True, h2)" "m_read_buf h2 = b1"
    using b1(1) meth(1) by (cases "same_nocase meth ''GET''")
      (auto simp: parse_method_def strcasecmp0_def h1_def h2_def)
  define h3 where "h3 = h2\<lparr>m_url := Some u, m_read_buf := b2, m_version := Some v\<rparr>"
  have run: "parse_request_line p h = parse_path h3"
    using pb w1 m s1 pv w2 s2 cv ver(1)
    by (simp add: parse_request_line_def h1_def h3_def u_def v_def strcasecmp0_def del: wr_Inr)
  obtain r where r: "url = CHR ''/'' # r" using url(1,2) by (cases url) auto
  have "skip_scheme ''http://'' h3 = Inr h3" "skip_scheme ''https://'' h3 = Inr h3"
    using b2(1) r by (auto intro!: skip_scheme_path simp: h3_def)
  then have run: "parse_request_line p h = check_path h3" by (simp add: run parse_path_def)
  have h3: "m_url h3 = Some u" "m_read_buf h3 = b2" by (simp_all add: h3_def)
  obtain b where "check_path h3 = Inr (NO_REQUEST, h3\<lparr>m_read_buf := b, m_check_state := CHECK_STATE_HEADER\<rparr>)"
    "cstr b u = Inr (page_of url)"
    using check_path_page [of h3 u url] h3 b2(1) url(1,2) room' by auto
  with run show ?thesis by (intro exI [of _ b] exI [of _ u] exI [of _ v]) (simp add: h3_def h2_def h1_def)
qed

text \<open>C8: a well-formed request line is understood. For a method GET or POST in any case, blanks, a path,
  blanks and the version, \<open>parse_request_line\<close> accepts the line, goes on to the headers, sets the method and
  \<open>cgi\<close>, and \<open>m_url\<close> points to the path, or to \<open>/judge.html\<close> when the path is \<open>/\<close>.\<close>

theorem parse_request_line_url:
  assumes line: "cstr (m_read_buf h) p = Inr (meth @ d1 # ws1 @ url @ d2 # ws2 @ ver)"
    and room: "p + length (meth @ d1 # ws1 @ url @ d2 # ws2 @ ver) + 2 \<le> length (m_read_buf h)"
    and meth: "same_nocase meth ''GET'' \<or> same_nocase meth ''POST''" "\<forall>c \<in> set meth. c \<notin> set blanks"
    and url: "url \<noteq> []" "hd url = CHR ''/''" "\<forall>c \<in> set url. c \<notin> set blanks"
    and ver: "same_nocase ver ''HTTP/1.1''" "\<forall>c \<in> set ver. c \<notin> set blanks"
    and ws: "d1 \<in> set blanks" "d2 \<in> set blanks" "\<forall>c \<in> set ws1. c \<in> set blanks" "\<forall>c \<in> set ws2. c \<in> set blanks"
  shows "\<exists>h' u. parse_request_line p h = Inr (NO_REQUEST, h') \<and> m_check_state h' = CHECK_STATE_HEADER \<and>
    m_url h' = Some u \<and> cstr (m_read_buf h') u = Inr (page_of url) \<and>
    m_method h' = (if same_nocase meth ''GET'' then GET else POST) \<and>
    cgi h' = (if same_nocase meth ''GET'' then cgi h else 1)"
  using request_line_result [OF assms] by fastforce

theorem parse_request_line_url_witness:
  "\<exists>h' u. parse_request_line 0 (demo_conn 9 ''get / HTTP/1.1'') = Inr (NO_REQUEST, h') \<and>
     m_url h' = Some u \<and> cstr (m_read_buf h') u = Inr ''/judge.html''"
proof -
  have "cstr (m_read_buf (demo_conn 9 ''get / HTTP/1.1'')) 0 = Inr (''get'' @ SP # [] @ ''/'' @ SP # [] @ ''HTTP/1.1'')"
    by code_simp
  moreover have "0 + length (''get'' @ SP # [] @ ''/'' @ SP # [] @ ''HTTP/1.1'') + 2 \<le>
      length (m_read_buf (demo_conn 9 ''get / HTTP/1.1''))" by (simp add: demo_conn_def)
  moreover have "same_nocase ''get'' ''GET''" "same_nocase ''HTTP/1.1'' ''HTTP/1.1''" by code_simp+
  ultimately show ?thesis
    using parse_request_line_url [of "demo_conn 9 ''get / HTTP/1.1''" 0 "''get''" SP "[]" "''/''" SP "[]" "''HTTP/1.1''"]
    by (simp add: blanks_def page_of_def) blast
qed

end
