(* ===== verification/HttpRequest.thy ===== *)
theory HttpRequest
  imports HttpParse HttpLine
begin

text \<open>
  The main automaton of \<open>src/http/http_conn.cpp\<close>: \<open>do_request\<close>, which maps the URL to a page, checks or
  registers the account of a form and opens the file, and \<open>process_read\<close>, which drives the
  parsers over the buffer. The file system and the database client are the record \<open>os\<close>.
\<close>

section \<open>do\_request\<close>

definition doc_root :: string where
  "doc_root = ''/home/ubuntu/SimpleWebServer/root''"

text \<open>The two loops that copy the name and the password out of the body; \<open>s\<close> is \<open>m_string\<close>.\<close>

function read_name :: "buffer \<Rightarrow> nat \<Rightarrow> nat \<Rightarrow> buffer \<Rightarrow> (nat \<times> buffer) res" where
  "read_name buf s i name =
     andThen (rd buf (s + i)) (\<lambda>c.
       if c = CHR ''&'' then Inr (i, name)
       else andThen (wr_at name (int i - 5) c) (\<lambda>name. read_name buf s (i + 1) name))"
  by pat_completeness auto
termination
  by (relation "measure (\<lambda>(buf, s, i, name). length buf - (s + i))") auto

function read_password :: "buffer \<Rightarrow> nat \<Rightarrow> nat \<Rightarrow> nat \<Rightarrow> buffer \<Rightarrow> buffer res" where
  "read_password buf s i j password =
     andThen (rd buf (s + i)) (\<lambda>c.
       if c = NUL then Inr password
       else andThen (wr password j c) (\<lambda>password. read_password buf s (i + 1) (j + 1) password))"
  by pat_completeness auto
termination
  by (relation "measure (\<lambda>(buf, s, i, j, password). length buf - (s + i))") auto

declare read_name.simps [simp del] read_password.simps [simp del]

definition form_fields :: "'m http_conn \<Rightarrow> (string \<times> string) res" where
  "form_fields h =
     andThen (fetch (m_string h)) (\<lambda>s.
     andThen (read_name (m_read_buf h) s 5 (replicate 100 NUL)) (\<lambda>(i, name).
     andThen (read_password (m_read_buf h) s (i + 10) 0 (replicate 100 NUL)) (\<lambda>password.
     andThen (cstr name 0) (\<lambda>name.
     andThen (cstr password 0) (\<lambda>password. Inr (name, password))))))"

text \<open>The statement is put together in a block of 200 bytes from \<open>malloc\<close>.\<close>

definition sql_insert :: "string \<Rightarrow> string \<Rightarrow> string res" where
  "sql_insert name password =
     andThen (strcpy (replicate 200 NUL) 0 ''INSERT INTO user(username, passwd) VALUES('') (\<lambda>b.
     andThen (strcat b 0 [CHR 0x27]) (\<lambda>b.
     andThen (strcat b 0 name) (\<lambda>b.
     andThen (strcat b 0 ([CHR 0x27] @ '', '' @ [CHR 0x27])) (\<lambda>b.
     andThen (strcat b 0 password) (\<lambda>b.
     andThen (strcat b 0 ([CHR 0x27] @ '')'')) (\<lambda>b. cstr b 0))))))"

definition register :: "('m, 'd) os \<Rightarrow> 'm option \<Rightarrow> string \<Rightarrow> string \<Rightarrow> 'd world \<Rightarrow> (string \<times> 'd world) res" where
  "register os con name password w =
     andThen (sql_insert name password) (\<lambda>sql.
       if users w name = None then
         andThen (locker_lock (m_lock w)) (\<lambda>l.
           let (res, d) = mysql_query os con sql (db w);
               w = emit (Query sql) (w\<lparr>db := d, users := (users w)(name \<mapsto> password)\<rparr>)
           in andThen (locker_unlock l) (\<lambda>l.
                Inr (if res = 0 then ''/login.html'' else ''/registerError.html'', w\<lparr>m_lock := l\<rparr>)))
       else Inr (''/registerError.html'', w))"

definition login :: "string \<Rightarrow> string \<Rightarrow> 'd world \<Rightarrow> string" where
  "login name password w =
     (if users w name = Some password then ''/welcome.html'' else ''/loginError.html'')"

text \<open>The page of the requests whose last path component starts with a digit other than the two forms.\<close>

definition fixed_page :: "char \<Rightarrow> string option" where
  "fixed_page c =
     (if c = CHR ''0'' then Some ''/register.html''
      else if c = CHR ''1'' then Some ''/login.html''
      else if c = CHR ''5'' then Some ''/picture.html''
      else if c = CHR ''6'' then Some ''/video.html''
      else None)"

text \<open>\<open>strncpy(m_real_file + len, s, strlen(s))\<close>: no NUL is added.\<close>

definition append_path :: "string \<Rightarrow> 'm http_conn \<Rightarrow> 'm http_conn res" where
  "append_path s h =
     andThen (strncpy (m_real_file h) (length doc_root) s (length s)) (\<lambda>f. Inr (h\<lparr>m_real_file := f\<rparr>))"

definition append_url :: "'m http_conn \<Rightarrow> 'm http_conn res" where
  "append_url h =
     andThen (deref (m_url h)) (\<lambda>u. andThen (cstr (m_read_buf h) u) (\<lambda>s. append_path s h))"

text \<open>The first half of \<open>do_request\<close>: the path of the file.\<close>

definition request_path :: "('m, 'd) os \<Rightarrow> 'm http_conn \<Rightarrow> 'd world \<Rightarrow> ('m http_conn \<times> 'd world) res" where
  "request_path os h w =
     andThen (strcpy (m_real_file h) 0 doc_root) (\<lambda>f.
     let h = h\<lparr>m_real_file := f\<rparr> in
     andThen (deref (m_url h)) (\<lambda>u.
     andThen (strrchr (m_read_buf h) u (CHR ''/'')) (\<lambda>p.
     andThen (deref p) (\<lambda>p.
     andThen (rd (m_read_buf h) (p + 1)) (\<lambda>c.
       if cgi h = 1 \<and> (c = CHR ''2'' \<or> c = CHR ''3'') then
         andThen (form_fields h) (\<lambda>(name, password).
         andThen (if c = CHR ''3'' then register os (mysql h) name password w
                  else Inr (login name password w, w)) (\<lambda>(page, w).
         andThen (strcpy (m_read_buf h) u page) (\<lambda>b.
         andThen (append_url (h\<lparr>m_read_buf := b\<rparr>)) (\<lambda>h. Inr (h, w)))))
       else
         (case fixed_page c of
            Some page \<Rightarrow> andThen (append_path page h) (\<lambda>h. Inr (h, w))
          | None \<Rightarrow> andThen (append_url h) (\<lambda>h. Inr (h, w))))))))"

definition S_IROTH :: "32 word" where "S_IROTH = 4"

definition S_ISDIR :: "32 word \<Rightarrow> bool" where
  "S_ISDIR m \<longleftrightarrow> m AND 0xF000 = 0x4000"

text \<open>The second half: the checks of the file and its mapping.\<close>

definition open_file :: "('m, 'd) os \<Rightarrow> 'm http_conn \<Rightarrow> (HTTP_CODE \<times> 'm http_conn) res" where
  "open_file os h =
     andThen (cstr (m_real_file h) 0) (\<lambda>path.
       Inr (case stat os path of
              None \<Rightarrow> (NO_RESOURCE, h)
            | Some st \<Rightarrow>
                let h = h\<lparr>m_file_stat := Set st\<rparr> in
                if st_mode st AND S_IROTH = 0 then (FORBIDDEN_REQUEST, h)
                else if S_ISDIR (st_mode st) then (BAD_REQUEST, h)
                else (FILE_REQUEST, h\<lparr>m_file_address := Set (Some (mmap_file os path (st_size st)))\<rparr>)))"

definition do_request :: "('m, 'd) os \<Rightarrow> 'm http_conn \<Rightarrow> 'd world \<Rightarrow> (HTTP_CODE \<times> 'm http_conn \<times> 'd world) res" where
  "do_request os h w =
     andThen (request_path os h w) (\<lambda>(h, w). andThen (open_file os h) (\<lambda>(c, h). Inr (c, h, w)))"

section \<open>process\_read\<close>

text \<open>The condition of the loop; the line status is assigned only when the first operand is false.\<close>

definition loop_cond :: "LINE_STATUS \<Rightarrow> 'm http_conn \<Rightarrow> (bool \<times> LINE_STATUS \<times> 'm http_conn) res" where
  "loop_cond line_status h =
     (if m_check_state h = CHECK_STATE_CONTENT \<and> line_status = LINE_OK then Inr (True, line_status, h)
      else andThen (parse_line h) (\<lambda>(st, h). Inr (st = LINE_OK, st, h)))"

text \<open>Its body: \<open>Some c\<close> is a \<open>return c\<close>.\<close>

definition loop_body :: "('m, 'd) os \<Rightarrow> LINE_STATUS \<Rightarrow> 'm http_conn \<Rightarrow> 'd world \<Rightarrow>
    (HTTP_CODE option \<times> LINE_STATUS \<times> 'm http_conn \<times> 'd world) res" where
  "loop_body os line_status h w =
     (let text = m_start_line h; h = h\<lparr>m_start_line := m_checked_idx h\<rparr> in
      andThen (cstr (m_read_buf h) text) (\<lambda>s.
      let w = emit (LogInfo s) w in
      case m_check_state h of
        CHECK_STATE_REQUESTLINE \<Rightarrow>
          andThen (parse_request_line text h) (\<lambda>(ret, h).
            Inr (if ret = BAD_REQUEST then Some BAD_REQUEST else None, line_status, h, w))
      | CHECK_STATE_HEADER \<Rightarrow>
          andThen (parse_headers text h w) (\<lambda>(ret, h, w).
            if ret = BAD_REQUEST then Inr (Some BAD_REQUEST, line_status, h, w)
            else if ret = GET_REQUEST then
              andThen (do_request os h w) (\<lambda>(c, h, w). Inr (Some c, line_status, h, w))
            else Inr (None, line_status, h, w))
      | CHECK_STATE_CONTENT \<Rightarrow>
          andThen (parse_content text h) (\<lambda>(ret, h).
            if ret = GET_REQUEST then
              andThen (do_request os h w) (\<lambda>(c, h, w). Inr (Some c, line_status, h, w))
            else Inr (None, LINE_OPEN, h, w))))"

text \<open>The indices only move forward: each round consumes a line or turns \<open>line_status\<close> to \<open>LINE_OPEN\<close>.\<close>

lemma parse_line_progress:
  "parse_line h = Inr (st, h') \<Longrightarrow>
     m_read_idx h' = m_read_idx h \<and> m_check_state h' = m_check_state h \<and>
     (st = LINE_OK \<longrightarrow> m_checked_idx h < m_checked_idx h' \<and> m_checked_idx h' \<le> m_read_idx h)"
proof (induction h rule: parse_line.induct)
  case (1 h)
  show ?case
  proof (cases "m_checked_idx h < m_read_idx h \<and> m_checked_idx h < length (m_read_buf h) \<and>
      m_read_buf h ! m_checked_idx h \<noteq> CR \<and> m_read_buf h ! m_checked_idx h \<noteq> LF")
    case True
    with "1.prems" have "parse_line (h\<lparr>m_checked_idx := m_checked_idx h + 1\<rparr>) = Inr (st, h')"
      by (subst (asm) parse_line.simps) (simp add: Let_def rd_ok)
    with "1.IH" [OF refl, of "m_read_buf h ! m_checked_idx h"] True show ?thesis
      by (auto simp: rd_ok)
  next
    case False
    with "1.prems" show ?thesis
      by (subst (asm) parse_line.simps) (auto simp: Let_def split: if_splits)
  qed
qed

lemma skip_scheme_idx:
  "skip_scheme lit h = Inr h' \<Longrightarrow> m_read_idx h' = m_read_idx h \<and> m_checked_idx h' = m_checked_idx h"
  by (auto simp: skip_scheme_def split: if_splits)

lemma check_path_idx:
  "check_path h = Inr (c, h') \<Longrightarrow> m_read_idx h' = m_read_idx h \<and> m_checked_idx h' = m_checked_idx h"
  by (auto simp: check_path_def split: if_splits option.splits)

lemma parse_method_idx:
  "parse_method p h = Inr (b, h') \<Longrightarrow> m_read_idx h' = m_read_idx h \<and> m_checked_idx h' = m_checked_idx h"
  by (auto simp: parse_method_def split: if_splits)

lemma parse_path_idx:
  "parse_path h = Inr (c, h') \<Longrightarrow> m_read_idx h' = m_read_idx h \<and> m_checked_idx h' = m_checked_idx h"
  by (auto simp: parse_path_def dest!: skip_scheme_idx check_path_idx)

lemma parse_request_line_idx:
  "parse_request_line p h = Inr (c, h') \<Longrightarrow>
     m_read_idx h' = m_read_idx h \<and> m_checked_idx h' = m_checked_idx h"
  by (clarsimp simp: parse_request_line_def Let_def simp del: rd_Inr wr_Inr split: if_splits option.splits)
    (fastforce dest: parse_method_idx parse_path_idx)+

lemma parse_headers_idx:
  "parse_headers p h w = Inr (c, h', w') \<Longrightarrow>
     m_read_idx h' = m_read_idx h \<and> m_checked_idx h' = m_checked_idx h"
  by (auto simp: parse_headers_def split: if_splits)

lemma parse_content_idx:
  "parse_content p h = Inr (c, h') \<Longrightarrow>
     m_read_idx h' = m_read_idx h \<and> m_checked_idx h' = m_checked_idx h"
  by (auto simp: parse_content_def split: if_splits)

lemma loop_body_idx:
  "loop_body os st h w = Inr (None, st', h', w') \<Longrightarrow>
     m_read_idx h' = m_read_idx h \<and> m_checked_idx h' = m_checked_idx h \<and>
     (if m_check_state h = CHECK_STATE_CONTENT then st' = LINE_OPEN else st' = st)"
  by (cases "m_check_state h")
    (auto simp: loop_body_def Let_def split: if_splits
      dest!: parse_request_line_idx parse_headers_idx parse_content_idx)

function process_read_loop :: "('m, 'd) os \<Rightarrow> LINE_STATUS \<Rightarrow> 'm http_conn \<Rightarrow> 'd world \<Rightarrow>
    (HTTP_CODE \<times> 'm http_conn \<times> 'd world) res" where
  "process_read_loop os line_status h w =
     andThen (loop_cond line_status h) (\<lambda>(go, line_status, h).
       if \<not> go then Inr (NO_REQUEST, h, w)
       else andThen (loop_body os line_status h w) (\<lambda>(ret, line_status, h, w).
              case ret of
                Some c \<Rightarrow> Inr (c, h, w)
              | None \<Rightarrow> process_read_loop os line_status h w))"
  by pat_completeness auto
termination
proof (relation "measure (\<lambda>(os, st, h, w).
    2 * (m_read_idx h - m_checked_idx h) + (if st = LINE_OK then 1 else 0))", goal_cases)
  case (2 os st h w x go y st1 h1 x1 ret y1 st2 z h2 w2)
  then have cond: "loop_cond st h = Inr (True, st1, h1)" and body: "loop_body os st1 h1 w = Inr (None, st2, h2, w2)"
    by auto
  from loop_body_idx [OF body]
  have idx: "m_read_idx h2 = m_read_idx h1" "m_checked_idx h2 = m_checked_idx h1"
    and st2: "m_check_state h1 = CHECK_STATE_CONTENT \<Longrightarrow> st2 = LINE_OPEN" by (auto split: if_splits)
  show ?case
  proof (cases "m_check_state h = CHECK_STATE_CONTENT \<and> st = LINE_OK")
    case True
    with cond have "st1 = LINE_OK" "h1 = h" by (simp_all add: loop_cond_def)
    with True st2 idx show ?thesis by simp
  next
    case False
    with cond have "parse_line h = Inr (LINE_OK, h1)" by (auto simp: loop_cond_def)
    from parse_line_progress [OF this] idx show ?thesis by auto
  qed
qed simp

declare process_read_loop.simps [simp del]

definition process_read :: "('m, 'd) os \<Rightarrow> 'm http_conn \<Rightarrow> 'd world \<Rightarrow> (HTTP_CODE \<times> 'm http_conn \<times> 'd world) res" where
  "process_read os h w = process_read_loop os LINE_OK h w"

end
