(* ===== verification/HttpRoute.thy ===== *)
theory HttpRoute
  imports HttpRequest
begin

text \<open>
  What \<open>do_request\<close> answers: the file a URL stands for and the code of the answer, the fields of a
  form, and what a login and a registration do.
\<close>

section \<open>Concrete surroundings\<close>

definition demo_world :: "unit world" where
  "demo_world = \<lparr>m_epollfd = 3, m_user_count = 1, users = [''bob'' \<mapsto> ''pw''], m_lock = Free,
     epoll = (\<lambda>_ _. None), fd_flags = (\<lambda>_. 0), db = (), trace = []\<rparr>"

text \<open>Two pages of three bytes; the database refuses every statement.\<close>

definition demo_os :: "(unit, unit) os" where
  "demo_os = \<lparr>stat = (\<lambda>p. if p = doc_root @ ''/judge.html'' \<or> p = doc_root @ ''/welcome.html''
       then Some \<lparr>st_mode = 0x81A4, st_size = 3\<rparr> else None),
     mmap_file = (\<lambda>p n. Mapping 1 ''abc''), mysql_query = (\<lambda>_ _ d. (1, d))\<rparr>"

section \<open>The path\<close>

lemma length_doc_root: "length doc_root = 33"
  by (simp add: doc_root_def)

lemma doc_root_NUL: "NUL \<notin> set doc_root"
  by (simp add: doc_root_def)

text \<open>The buffer of the path after its root and an appended page.\<close>

lemma append_path_result:
  assumes "m_real_file h = doc_root @ replicate k NUL" and "NUL \<notin> set s"
  shows "append_path s h =
    (if length s \<le> k then Inr (h\<lparr>m_real_file := doc_root @ s @ replicate (k - length s) NUL\<rparr>)
     else Inl OutOfBounds)"
  using assms(1) by (simp add: append_path_def strncpy_def put_def)

lemma cstr_path:
  assumes "NUL \<notin> set s" and "length s < k"
  shows "cstr (doc_root @ s @ replicate (k - length s) NUL) 0 = Inr (doc_root @ s)"
proof (rule cstrI)
  show "NUL \<notin> set (doc_root @ s)" using assms doc_root_NUL by simp
  show "(doc_root @ s @ replicate (k - length s) NUL) ! (0 + length (doc_root @ s)) = NUL"
    using assms by (simp add: nth_append)
qed (use assms in simp_all)

lemma strcpy_root:
  assumes "33 < n"
  shows "strcpy (replicate n NUL) 0 doc_root = Inr (doc_root @ replicate (n - 33) NUL)"
proof -
  obtain m where "n - 33 = Suc m" using assms by (metis Suc_diff_Suc)
  moreover from this have "n - 34 = m" by simp
  ultimately show ?thesis using assms by (simp add: strcpy_def put_def length_doc_root)
qed

lemma strrchr_last:
  assumes "cstr b p = Inr (dir @ c # name)" and "c \<notin> set name"
  shows "strrchr b p c = Inr (Some (p + length dir))"
proof -
  have "takeWhile (\<lambda>d. d \<noteq> c) (rev (dir @ c # name)) = rev name"
    using assms(2) by (simp add: takeWhile_neq_append)
  with assms(1) show ?thesis by (simp add: strrchr_def)
qed

text \<open>The character behind the last slash; NUL when the path ends there.\<close>

definition key_char :: "string \<Rightarrow> char" where
  "key_char name = hd (name @ [NUL])"

lemma rd_key:
  assumes "cstr b p = Inr (dir @ c # name)"
  shows "rd b (p + length dir + 1) = Inr (key_char name)"
proof -
  have "cstr b (p + length dir + 1) = Inr name"
    using cstr_suffix [OF assms, of "length dir + 1"] by (simp add: add.assoc)
  note n = cstr_bound [OF this] cstr_nth [OF this, of 0]
  then show ?thesis by (cases name) (simp_all add: rd_def key_char_def)
qed

definition page_for :: "string \<Rightarrow> string \<Rightarrow> string" where
  "page_for dir name =
     (case fixed_page (key_char name) of Some page \<Rightarrow> page | None \<Rightarrow> dir @ CHR ''/'' # name)"

lemma fixed_page_NUL: "fixed_page c = Some page \<Longrightarrow> NUL \<notin> set page"
  by (auto simp: fixed_page_def split: if_splits)

lemma request_path_page:
  assumes "m_url h = Some u" and "cstr (m_read_buf h) u = Inr (dir @ CHR ''/'' # name)"
    and "CHR ''/'' \<notin> set name" and "\<not> (cgi h = 1 \<and> key_char name \<in> {CHR ''2'', CHR ''3''})"
    and "m_real_file h = replicate n NUL" and "33 < n"
  shows "request_path os h w =
    (if length (page_for dir name) \<le> n - 33
     then Inr (h\<lparr>m_real_file := doc_root @ page_for dir name @
             replicate (n - 33 - length (page_for dir name)) NUL\<rparr>, w)
     else Inl OutOfBounds)"
proof -
  let ?page = "page_for dir name" and ?h = "h\<lparr>m_real_file := doc_root @ replicate (n - 33) NUL\<rparr>"
  have nul: "NUL \<notin> set ?page"
    using cstr_NUL_free [OF assms(2)] fixed_page_NUL by (auto simp: page_for_def split: option.split)
  have "request_path os h w = andThen (append_path ?page ?h) (\<lambda>h. Inr (h, w))"
    using assms strcpy_root [OF assms(6)] strrchr_last [OF assms(2,3)] rd_key [OF assms(2)]
    by (auto simp: request_path_def page_for_def append_url_def Let_def simp del: rd_Inr split: option.split)
  also have "append_path ?page ?h =
    (if length ?page \<le> n - 33 then Inr (?h\<lparr>m_real_file := doc_root @ ?page @ replicate (n - 33 - length ?page) NUL\<rparr>)
     else Inl OutOfBounds)"
    using nul by (intro append_path_result) simp_all
  finally show ?thesis by simp
qed

section \<open>Properties of the file lookup\<close>

text \<open>C7: a URL stands for the file below \<open>doc_root\<close> that it names, except that a last component that
  begins with 0, 1, 5 or 6 stands for one of the four fixed pages. \<open>do_request\<close> answers \<open>NO_RESOURCE\<close> when
  the file does not exist, \<open>FORBIDDEN_REQUEST\<close> when others may not read it, \<open>BAD_REQUEST\<close> for a directory,
  and otherwise maps the file and answers \<open>FILE_REQUEST\<close>.\<close>

theorem do_request_serves_file:
  assumes "m_url h = Some u" and "cstr (m_read_buf h) u = Inr (dir @ CHR ''/'' # name)"
    and "CHR ''/'' \<notin> set name" and "\<not> (cgi h = 1 \<and> key_char name \<in> {CHR ''2'', CHR ''3''})"
    and "m_real_file h = replicate n NUL" and "33 + length (page_for dir name) < n"
  shows "\<exists>h'. do_request os h w =
      Inr (case stat os (doc_root @ page_for dir name) of
             None \<Rightarrow> NO_RESOURCE
           | Some st \<Rightarrow>
               if st_mode st AND S_IROTH = 0 then FORBIDDEN_REQUEST
               else if S_ISDIR (st_mode st) then BAD_REQUEST else FILE_REQUEST, h', w) \<and>
    (\<forall>st. stat os (doc_root @ page_for dir name) = Some st \<longrightarrow> m_file_stat h' = Set st \<and>
       (st_mode st AND S_IROTH \<noteq> 0 \<and> \<not> S_ISDIR (st_mode st) \<longrightarrow>
          m_file_address h' = Set (Some (mmap_file os (doc_root @ page_for dir name) (st_size st)))))"
proof -
  let ?page = "page_for dir name"
  have n: "33 < n" using assms(6) by simp
  let ?h = "h\<lparr>m_real_file := doc_root @ ?page @ replicate (n - 33 - length ?page) NUL\<rparr>"
  have nul: "NUL \<notin> set ?page"
    using cstr_NUL_free [OF assms(2)] fixed_page_NUL by (auto simp: page_for_def split: option.split)
  have "request_path os h w = Inr (?h, w)"
    using request_path_page [OF assms(1-5) n, of os w] assms(6) by simp
  moreover have "cstr (m_real_file ?h) 0 = Inr (doc_root @ ?page)"
    using cstr_path [OF nul, of "n - 33"] assms(6) by simp
  ultimately have "do_request os h w = andThen (open_file os ?h) (\<lambda>(c, h). Inr (c, h, w))"
    "cstr (m_real_file ?h) 0 = Inr (doc_root @ ?page)" by (simp_all add: do_request_def)
  then show ?thesis
    by (auto simp: open_file_def Let_def split: option.split)
qed

theorem do_request_serves_file_witness:
  "\<exists>h'. do_request demo_os ((demo_conn 1 ''/judge.html'')\<lparr>m_url := Some 0\<rparr>) demo_world =
     Inr (FILE_REQUEST, h', demo_world) \<and> m_file_address h' = Set (Some (Mapping 1 ''abc''))"
proof -
  have c: "cstr (m_read_buf ((demo_conn 1 ''/judge.html'')\<lparr>m_url := Some 0\<rparr>)) 0 = Inr ([] @ CHR ''/'' # ''judge.html'')"
    by code_simp
  have p: "page_for [] ''judge.html'' = ''/judge.html''" "key_char ''judge.html'' = CHR ''j''"
    by (simp_all add: page_for_def fixed_page_def key_char_def)
  show ?thesis
    using do_request_serves_file [OF _ c, of 60 demo_os demo_world] p
    by (simp add: demo_conn_def demo_os_def S_IROTH_def S_ISDIR_def) blast
qed

text \<open>The length of the URL is not checked against the 200 bytes of \<open>m_real_file\<close>. A page of more
  than 167 bytes is written past its end; one of exactly 167 leaves no room for the terminating NUL and
  \<open>stat\<close> reads past it.\<close>

lemma long_url_overflows:
  assumes "m_url h = Some u" and "cstr (m_read_buf h) u = Inr (dir @ CHR ''/'' # name)"
    and "CHR ''/'' \<notin> set name" and "\<not> (cgi h = 1 \<and> key_char name \<in> {CHR ''2'', CHR ''3''})"
    and "m_real_file h = replicate FILENAME_LEN NUL" and "length (page_for dir name) \<ge> 167"
  shows "do_request os h w = Inl OutOfBounds"
proof -
  let ?page = "page_for dir name"
  have nul: "NUL \<notin> set ?page"
    using cstr_NUL_free [OF assms(2)] fixed_page_NUL by (auto simp: page_for_def split: option.split)
  note run = request_path_page [OF assms(1-5), of os w, unfolded FILENAME_LEN_def]
  show ?thesis
  proof (cases "length ?page = 167")
    case True
    have "NUL \<notin> set (doc_root @ ?page)" using nul doc_root_NUL by simp
    with True have "cstr (doc_root @ ?page) 0 = Inl OutOfBounds" by (simp add: cstr_def)
    with True run show ?thesis by (simp add: do_request_def open_file_def)
  next
    case False
    with assms(6) run show ?thesis by (simp add: do_request_def)
  qed
qed

lemma long_url_overflows_witness:
  "do_request demo_os ((demo_conn 1 (CHR ''/'' # replicate 166 (CHR ''a'')))\<lparr>m_url := Some 0,
      m_real_file := replicate FILENAME_LEN NUL\<rparr>) demo_world = Inl OutOfBounds"
proof (rule long_url_overflows [where u = 0 and dir = "[]" and name = "replicate 166 (CHR ''a'')"])
  have k: "replicate 166 (CHR ''a'') = CHR ''a'' # replicate 165 (CHR ''a'')"
    by (metis Suc_numeral replicate_Suc semiring_norm(5) semiring_norm(8) semiring_norm(2))
  have key: "key_char (replicate 166 (CHR ''a'')) = CHR ''a''" unfolding k by (simp add: key_char_def)
  then show "\<not> (cgi ((demo_conn 1 (CHR ''/'' # replicate 166 (CHR ''a'')))\<lparr>m_url := Some 0,
      m_real_file := replicate FILENAME_LEN NUL\<rparr>) = 1 \<and>
      key_char (replicate 166 (CHR ''a'')) \<in> {CHR ''2'', CHR ''3''})" by simp
  show "167 \<le> length (page_for [] (replicate 166 (CHR ''a'')))"
    using key by (simp add: page_for_def fixed_page_def)
  show "cstr (m_read_buf ((demo_conn 1 (CHR ''/'' # replicate 166 (CHR ''a'')))\<lparr>m_url := Some 0,
      m_real_file := replicate FILENAME_LEN NUL\<rparr>)) 0 = Inr ([] @ CHR ''/'' # replicate 166 (CHR ''a''))"
    by (intro cstrI) (simp_all add: demo_conn_def nth_append)
qed simp_all


section \<open>Forms\<close>

lemma drop_Suc_Cons: "drop n xs = y # ys \<Longrightarrow> n < length xs \<and> xs ! n = y \<and> drop (Suc n) xs = ys"
  by (metis Cons_nth_drop_Suc drop_all linorder_not_less list.distinct(1) list.inject)

lemma read_name_result:
  assumes "drop (s + i) buf = name @ CHR ''&'' # rest" and "CHR ''&'' \<notin> set name"
    and "5 \<le> i" and "i - 5 + length name \<le> length nb"
  shows "read_name buf s i nb =
    Inr (i + length name, take (i - 5) nb @ name @ drop (i - 5 + length name) nb)"
  using assms
proof (induction name arbitrary: i nb)
  case Nil
  with drop_Suc_Cons [of "s + i" buf "CHR ''&''" rest] show ?case
    by (subst read_name.simps) (simp add: rd_ok)
next
  case (Cons c name)
  from Cons.prems drop_Suc_Cons [of "s + i" buf c "name @ CHR ''&'' # rest"]
  have c: "s + i < length buf" "buf ! (s + i) = c" "drop (s + Suc i) buf = name @ CHR ''&'' # rest" by simp_all
  have w: "wr_at nb (int i - 5) c = Inr (nb[i - 5 := c])"
    using Cons.prems by (simp add: wr_at_def wr_def nat_diff_distrib')
  have "read_name buf s i nb = read_name buf s (Suc i) (nb[i - 5 := c])"
    using c w Cons.prems(2) by (subst read_name.simps) (auto simp: rd_ok)
  also have "\<dots> = Inr (Suc i + length name, take (Suc i - 5) (nb[i - 5 := c]) @ name @
      drop (Suc i - 5 + length name) (nb[i - 5 := c]))"
    using Cons.prems c by (intro Cons.IH) simp_all
  also have "take (Suc i - 5) (nb[i - 5 := c]) = take (i - 5) nb @ [c]"
    unfolding Suc_diff_le [OF Cons.prems(3)] using Cons.prems(3,4)
    by (subst take_Suc_conv_app_nth) (simp_all add: Suc_diff_le)
  also have "drop (Suc i - 5 + length name) (nb[i - 5 := c]) = drop (i - 5 + length (c # name)) nb"
  proof -
    have "Suc i - 5 + length name = i - 5 + length (c # name)" using Cons.prems(3) by simp
    then show ?thesis by (simp add: drop_update_cancel)
  qed
  finally show ?case by simp
qed

lemma read_password_result:
  assumes "drop (s + i) buf = pw @ NUL # rest" and "NUL \<notin> set pw" and "j + length pw \<le> length pb"
  shows "read_password buf s i j pb = Inr (take j pb @ pw @ drop (j + length pw) pb)"
  using assms
proof (induction pw arbitrary: i j pb)
  case Nil
  with drop_Suc_Cons [of "s + i" buf NUL rest] show ?case
    by (subst read_password.simps) (simp add: rd_ok)
next
  case (Cons c pw)
  from Cons.prems drop_Suc_Cons [of "s + i" buf c "pw @ NUL # rest"]
  have c: "s + i < length buf" "buf ! (s + i) = c" "drop (s + Suc i) buf = pw @ NUL # rest" by simp_all
  have "read_password buf s i j pb = read_password buf s (Suc i) (Suc j) (pb[j := c])"
    using c Cons.prems by (subst read_password.simps) (auto simp: rd_ok wr_ok)
  also have "\<dots> = Inr (take (Suc j) (pb[j := c]) @ pw @ drop (Suc j + length pw) (pb[j := c]))"
    using Cons.prems c by (intro Cons.IH) simp_all
  also have "take (Suc j) (pb[j := c]) = take j pb @ [c]"
    using Cons.prems(3) by (simp add: take_Suc_conv_app_nth)
  finally show ?case by simp
qed

lemma cstr_padded: "NUL \<notin> set s \<Longrightarrow> 0 < k \<Longrightarrow> cstr (s @ replicate k NUL) 0 = Inr s"
  by (cases k) (simp_all add: cstr_def takeWhile_neq_append)

lemma cstr_drop: "cstr b p = Inr s \<Longrightarrow> \<exists>rest. drop p b = s @ NUL # rest"
  using cstr_bound [of b p s] cstr_take [of b p s]
  by (metis Cons_nth_drop_Suc append_take_drop_id drop_drop add.commute)

definition form_text :: "string \<Rightarrow> string \<Rightarrow> string" where
  "form_text name password = ''user='' @ name @ ''&password='' @ password"

lemma form_fields_result:
  assumes "m_string h = Set s" and "cstr (m_read_buf h) s = Inr (form_text name password)"
    and "CHR ''&'' \<notin> set name" and "length name < 100" and "length password < 100"
  shows "form_fields h = Inr (name, password)"
proof -
  let ?b = "m_read_buf h"
  from cstr_drop [OF assms(2)] obtain rest where
    d: "drop s ?b = ''user='' @ name @ ''&password='' @ password @ NUL # rest" by (auto simp: form_text_def)
  have nul: "NUL \<notin> set name" "NUL \<notin> set password"
    using cstr_NUL_free [OF assms(2)] by (auto simp: form_text_def)
  have "drop (s + 5) ?b = drop 5 (drop s ?b)" by (simp add: add.commute)
  then have d5: "drop (s + 5) ?b = name @ CHR ''&'' # ''password='' @ password @ NUL # rest" by (simp add: d)
  have "drop (s + (5 + length name + 10)) ?b = drop 10 (drop (length name) (drop (s + 5) ?b))"
    by (simp add: ac_simps)
  then have d15: "drop (s + (5 + length name + 10)) ?b = password @ NUL # rest" by (simp add: d5)
  have "read_name ?b s 5 (replicate 100 NUL) = Inr (5 + length name, name @ replicate (100 - length name) NUL)"
    using read_name_result [OF d5 assms(3), of "replicate 100 NUL"] assms(4) by simp
  moreover have "read_password ?b s (5 + length name + 10) 0 (replicate 100 NUL) =
      Inr (password @ replicate (100 - length password) NUL)"
    using read_password_result [OF d15 nul(2), of 0 "replicate 100 NUL"] assms(5) by simp
  ultimately show ?thesis
    using assms cstr_padded [OF nul(1), of "100 - length name"] cstr_padded [OF nul(2), of "100 - length password"]
    by (simp add: form_fields_def)
qed

text \<open>The statement of a registration.\<close>

definition sql_text :: "string \<Rightarrow> string \<Rightarrow> string" where
  "sql_text name password =
     ''INSERT INTO user(username, passwd) VALUES('' @ [CHR 0x27] @ name @ [CHR 0x27] @ '', '' @ [CHR 0x27] @
       password @ [CHR 0x27] @ '')''"

lemma strcat_padded:
  assumes "NUL \<notin> set s" and "length t < k"
  shows "strcat (s @ replicate k NUL) 0 t = Inr ((s @ t) @ replicate (k - length t) NUL)"
proof -
  obtain m where m: "k - length t = Suc m" using assms(2) by (metis Suc_diff_Suc)
  then have "k - Suc (length t) = m" by simp
  with m assms cstr_padded [OF assms(1), of k] show ?thesis
    by (simp add: strcat_def strlen_def put_def)
qed

lemma sql_insert_result:
  assumes "NUL \<notin> set name" and "NUL \<notin> set password" and "length (sql_text name password) < 200"
  shows "sql_insert name password = Inr (sql_text name password)"
proof -
  let ?i = "''INSERT INTO user(username, passwd) VALUES(''" and ?q = "[CHR 0x27]"
  have l: "length name + length password + 49 < 200" "length ?i = 42"
    using assms(3) by (simp_all add: sql_text_def)
  have 0: "strcpy (replicate 200 NUL) 0 ?i = Inr (?i @ replicate 158 NUL)"
    by (simp add: strcpy_def put_def) (simp add: numeral_eq_Suc)
  have 1: "strcat (?i @ replicate 158 NUL) 0 ?q = Inr ((?i @ ?q) @ replicate 157 NUL)"
    using strcat_padded [of ?i ?q 158] by simp
  have 2: "strcat ((?i @ ?q) @ replicate 157 NUL) 0 name =
      Inr ((?i @ ?q @ name) @ replicate (157 - length name) NUL)"
    using strcat_padded [of "?i @ ?q" name 157] l by simp
  have 3: "strcat ((?i @ ?q @ name) @ replicate (157 - length name) NUL) 0 (?q @ '', '' @ ?q) =
      Inr ((?i @ ?q @ name @ ?q @ '', '' @ ?q) @ replicate (153 - length name) NUL)"
    using strcat_padded [of "?i @ ?q @ name" "?q @ '', '' @ ?q" "157 - length name"] l assms(1) by simp
  have 4: "strcat ((?i @ ?q @ name @ ?q @ '', '' @ ?q) @ replicate (153 - length name) NUL) 0 password =
      Inr ((?i @ ?q @ name @ ?q @ '', '' @ ?q @ password) @ replicate (153 - length name - length password) NUL)"
    using strcat_padded [of "?i @ ?q @ name @ ?q @ '', '' @ ?q" password "153 - length name"] l assms(1) by simp
  have 5: "strcat ((?i @ ?q @ name @ ?q @ '', '' @ ?q @ password) @ replicate (153 - length name - length password) NUL)
      0 (?q @ '')'') = Inr (sql_text name password @ replicate (151 - length name - length password) NUL)"
    using strcat_padded [of "?i @ ?q @ name @ ?q @ '', '' @ ?q @ password" "?q @ '')''"
        "153 - length name - length password"] l assms(1,2) by (simp add: sql_text_def)
  have 6: "cstr (sql_text name password @ replicate (151 - length name - length password) NUL) 0 =
      Inr (sql_text name password)"
    using l assms(1,2) by (intro cstr_padded) (auto simp: sql_text_def)
  show ?thesis
    unfolding sql_insert_def by (simp only: 0 1 2 3 4 5 6 andThen_simps)
qed


lemma request_path_form:
  assumes "m_url h = Some u" and "cstr (m_read_buf h) u = Inr (dir @ CHR ''/'' # name)"
    and "CHR ''/'' \<notin> set name" and "cgi h = 1" and "key_char name \<in> {CHR ''2'', CHR ''3''}"
    and "m_real_file h = replicate n NUL" and "33 < n"
    and "m_string h = Set s" and "cstr (m_read_buf h) s = Inr (form_text usr pw)"
    and "CHR ''&'' \<notin> set usr" and "length usr < 100" and "length pw < 100"
    and page: "(if key_char name = CHR ''3'' then register os (mysql h) usr pw w
      else Inr (login usr pw w, w)) = Inr (page, w')"
    and "NUL \<notin> set page" and "33 + length page < n" and "u + length page < length (m_read_buf h)"
  shows "\<exists>h'. request_path os h w = Inr (h', w') \<and> cstr (m_real_file h') 0 = Inr (doc_root @ page)"
proof -
  let ?h = "h\<lparr>m_real_file := doc_root @ replicate (n - 33) NUL\<rparr>"
  have ff: "form_fields ?h = Inr (usr, pw)"
    using assms(8-12) by (intro form_fields_result) simp_all
  obtain b where b: "put (m_read_buf h) u (page @ [NUL]) = Inr b" using assms(16) by (simp add: put_def)
  have cb: "cstr b u = Inr page" by (rule cstr_after_put [OF b assms(14)])
  have ap: "append_path page (?h\<lparr>m_read_buf := b\<rparr>) =
      Inr (?h\<lparr>m_read_buf := b, m_real_file := doc_root @ page @ replicate (n - 33 - length page) NUL\<rparr>)"
    using append_path_result [of "?h\<lparr>m_read_buf := b\<rparr>" "n - 33" page] assms(14,15) by simp
  have run: "request_path os h w =
      Inr (?h\<lparr>m_read_buf := b, m_real_file := doc_root @ page @ replicate (n - 33 - length page) NUL\<rparr>, w')"
    using assms(1,4-6) strcpy_root [OF assms(7)] strrchr_last [OF assms(2,3)] rd_key [OF assms(2)] ff page b cb ap
    by (auto simp: request_path_def strcpy_def append_url_def Let_def simp del: rd_Inr)
  with cstr_path [OF assms(14), of "n - 33"] assms(15) show ?thesis by auto
qed

text \<open>A request line and a body as the parsers leave them, for the witnesses.\<close>

definition demo_form :: "string \<Rightarrow> unit http_conn" where
  "demo_form url = (demo_conn 2 (url @ [NUL] @ replicate 20 (CHR ''h'') @ [NUL] @ form_text ''bob'' ''pw''))
     \<lparr>m_url := Some 0, cgi := 1, m_string := Set (22 + length url)\<rparr>"

lemma demo_form_strings:
  "cstr (m_read_buf (demo_form ''/2'')) 0 = Inr ([] @ CHR ''/'' # ''2'')"
  "cstr (m_read_buf (demo_form ''/3'')) 0 = Inr ([] @ CHR ''/'' # ''3'')"
  "cstr (m_read_buf (demo_form ''/2'')) 24 = Inr (form_text ''bob'' ''pw'')"
  "cstr (m_read_buf (demo_form ''/3'')) 24 = Inr (form_text ''bob'' ''pw'')"
  by code_simp+

lemma demo_form_fields:
  "m_url (demo_form url) = Some 0" "cgi (demo_form url) = 1" "m_real_file (demo_form url) = replicate 60 NUL"
  "m_string (demo_form url) = Set (22 + length url)" "mysql (demo_form url) = None"
  "length (m_read_buf (demo_form url)) = length url + 44"
  by (simp_all add: demo_form_def demo_conn_def form_text_def)

section \<open>Properties of the forms\<close>

text \<open>C17: a login is decided by the map of users alone. A POST to a last component that begins with 2, with
  the body \<open>user=...&password=...\<close>, leads to the welcome page exactly when the map holds that password for
  that name, and to the error page otherwise; nothing of the server's state changes.\<close>

theorem login_decides:
  assumes "m_url h = Some u" and "cstr (m_read_buf h) u = Inr (dir @ CHR ''/'' # name)"
    and "CHR ''/'' \<notin> set name" and "cgi h = 1" and "key_char name = CHR ''2''"
    and "m_real_file h = replicate n NUL" and "49 < n" and "u + 16 < length (m_read_buf h)"
    and "m_string h = Set s" and "cstr (m_read_buf h) s = Inr (form_text usr pw)"
    and "CHR ''&'' \<notin> set usr" and "length usr < 100" and "length pw < 100"
  shows "\<exists>h'. request_path os h w = Inr (h', w) \<and>
    cstr (m_real_file h') 0 =
      Inr (doc_root @ (if users w usr = Some pw then ''/welcome.html'' else ''/loginError.html''))"
  using assms
  by (intro request_path_form [where u = u and dir = dir and name = name and n = n and s = s and usr = usr and pw = pw])
    (auto simp: login_def)

theorem login_decides_witness:
  "\<exists>h'. request_path demo_os (demo_form ''/2'') demo_world = Inr (h', demo_world) \<and>
     cstr (m_real_file h') 0 = Inr (doc_root @ ''/welcome.html'')"
  using login_decides [OF demo_form_fields(1) demo_form_strings(1), of 60 24 "''bob''" "''pw''" demo_os demo_world]
  by (simp add: demo_form_fields demo_form_strings key_char_def demo_world_def)

text \<open>C23: a registration asks the database and remembers the account whatever the database answers. A POST
  to a last component that begins with 3 with a name that is not yet known sends exactly the INSERT of the
  name and the password, put between quotes as they are, and leads to the login page when the statement
  succeeded; but the name is in the map of users afterwards in both cases, so a registration that failed
  can be used to log in. A known name leads to the error page without any statement.\<close>

theorem register_result:
  assumes "m_url h = Some u" and "cstr (m_read_buf h) u = Inr (dir @ CHR ''/'' # name)"
    and "CHR ''/'' \<notin> set name" and "cgi h = 1" and "key_char name = CHR ''3''"
    and "m_real_file h = replicate n NUL" and "52 < n" and "u + 19 < length (m_read_buf h)"
    and "m_string h = Set s" and "cstr (m_read_buf h) s = Inr (form_text usr pw)"
    and "CHR ''&'' \<notin> set usr" and "length usr < 100" and "length pw < 100"
    and "length (sql_text usr pw) < 200" and "m_lock w = Free"
  shows "\<exists>h'. request_path os h w =
      Inr (h', if users w usr = None
               then emit (Query (sql_text usr pw))
                 (w\<lparr>db := snd (mysql_query os (mysql h) (sql_text usr pw) (db w)),
                    users := (users w)(usr \<mapsto> pw)\<rparr>)
               else w) \<and>
    cstr (m_real_file h') 0 =
      Inr (doc_root @ (if users w usr = None \<and> fst (mysql_query os (mysql h) (sql_text usr pw) (db w)) = 0
                       then ''/login.html'' else ''/registerError.html''))"
proof -
  have nul: "NUL \<notin> set usr" "NUL \<notin> set pw"
    using cstr_NUL_free [OF assms(10)] by (auto simp: form_text_def)
  let ?page = "if users w usr = None \<and> fst (mysql_query os (mysql h) (sql_text usr pw) (db w)) = 0
    then ''/login.html'' else ''/registerError.html''"
  let ?w = "if users w usr = None
    then emit (Query (sql_text usr pw))
      (w\<lparr>db := snd (mysql_query os (mysql h) (sql_text usr pw) (db w)), users := (users w)(usr \<mapsto> pw)\<rparr>)
    else w"
  have lock: "w\<lparr>m_lock := Free\<rparr> = w" using assms(15) by (cases w) simp
  have "register os (mysql h) usr pw w = Inr (?page, ?w)"
    using sql_insert_result [OF nul assms(14)] assms(15) lock
    by (cases w) (auto simp: register_def emit_def Let_def split: prod.split)
  then show ?thesis
    using assms
    by (intro request_path_form [where u = u and dir = dir and name = name and n = n and s = s and usr = usr and pw = pw])
      auto
qed

theorem register_result_witness:
  "\<exists>h' w'. request_path demo_os (demo_form ''/3'') (demo_world\<lparr>users := Map.empty\<rparr>) = Inr (h', w') \<and>
     cstr (m_real_file h') 0 = Inr (doc_root @ ''/registerError.html'') \<and>
     login ''bob'' ''pw'' w' = ''/welcome.html''"
proof -
  obtain h' where "request_path demo_os (demo_form ''/3'') (demo_world\<lparr>users := Map.empty\<rparr>) =
      Inr (h', emit (Query (sql_text ''bob'' ''pw'')) (demo_world\<lparr>users := [''bob'' \<mapsto> ''pw'']\<rparr>))"
    "cstr (m_real_file h') 0 = Inr (doc_root @ ''/registerError.html'')"
    using register_result [OF demo_form_fields(1) demo_form_strings(2), of 60 24 "''bob''" "''pw''"
        "demo_world\<lparr>users := Map.empty\<rparr>" demo_os]
    by (auto simp: demo_form_fields demo_form_strings key_char_def demo_world_def demo_os_def sql_text_def)
  then show ?thesis by (intro exI conjI) (auto simp: login_def emit_def)
qed

end
