(* ===== verification/HttpResponse.thy ===== *)
theory HttpResponse
  imports HttpRoute
begin

text \<open>
  The response side of \<open>src/http/http_conn.cpp\<close>: the formatting of the response into \<open>m_write_buf\<close>,
  \<open>process_write\<close>, the gathering \<open>write\<close> of header and file, and \<open>process\<close>, the entry point of the workers.
\<close>

section \<open>Formatting\<close>

text \<open>The conversion of a wider integer to \<open>int\<close> and of an \<open>int\<close> to \<open>size_t\<close>.\<close>

definition to_int :: "int \<Rightarrow> int" where
  "to_int n = (n + 2147483648) mod 4294967296 - 2147483648"

definition to_size_t :: "int \<Rightarrow> int" where
  "to_size_t n = n mod 18446744073709551616"

text \<open>\<open>s\<close> is the formatted text. A text that does not fit is cut and not counted.\<close>

definition add_response :: "string \<Rightarrow> 'm http_conn \<Rightarrow> 'd world \<Rightarrow> (bool \<times> 'm http_conn \<times> 'd world) res" where
  "add_response s h w =
     (if m_write_idx h \<ge> WRITE_BUFFER_SIZE then Inr (False, h, w)
      else let n = WRITE_BUFFER_SIZE - 1 - m_write_idx h in
        andThen (snprintf (m_write_buf h) (m_write_idx h) n s) (\<lambda>(len, b).
          let h = h\<lparr>m_write_buf := b\<rparr> in
          if len \<ge> n then Inr (False, h, w)
          else andThen (cstr b 0) (\<lambda>l.
                 Inr (True, h\<lparr>m_write_idx := m_write_idx h + len\<rparr>, emit (LogInfo (''request:'' @ l)) w))))"

definition crlf :: string where "crlf = [CR, LF]"

definition add_status_line :: "int \<Rightarrow> string \<Rightarrow> 'm http_conn \<Rightarrow> 'd world \<Rightarrow> (bool \<times> 'm http_conn \<times> 'd world) res" where
  "add_status_line status title =
     add_response (''HTTP/1.1'' @ '' '' @ show_int status @ '' '' @ title @ crlf)"

definition add_content_length :: "int \<Rightarrow> 'm http_conn \<Rightarrow> 'd world \<Rightarrow> (bool \<times> 'm http_conn \<times> 'd world) res" where
  "add_content_length content_len = add_response (''Content-Length:'' @ show_int content_len @ crlf)"

definition add_content_type :: "'m http_conn \<Rightarrow> 'd world \<Rightarrow> (bool \<times> 'm http_conn \<times> 'd world) res" where
  "add_content_type = add_response (''Content-Type:'' @ ''text/html'' @ crlf)"

definition add_linger :: "'m http_conn \<Rightarrow> 'd world \<Rightarrow> (bool \<times> 'm http_conn \<times> 'd world) res" where
  "add_linger h =
     add_response (''Connection:'' @ (if m_linger h then ''keep-alive'' else ''close'') @ crlf) h"

definition add_blank_line :: "'m http_conn \<Rightarrow> 'd world \<Rightarrow> (bool \<times> 'm http_conn \<times> 'd world) res" where
  "add_blank_line = add_response crlf"

definition add_content :: "string \<Rightarrow> 'm http_conn \<Rightarrow> 'd world \<Rightarrow> (bool \<times> 'm http_conn \<times> 'd world) res" where
  "add_content content = add_response content"

text \<open>\<open>add_headers\<close> has no \<open>return\<close>; its callers do not use the value, which the model leaves out.\<close>

definition add_headers :: "int \<Rightarrow> 'm http_conn \<Rightarrow> 'd world \<Rightarrow> ('m http_conn \<times> 'd world) res" where
  "add_headers content_len h w =
     andThen (add_content_length content_len h w) (\<lambda>(_, h, w).
     andThen (add_linger h w) (\<lambda>(_, h, w).
     andThen (add_blank_line h w) (\<lambda>(_, h, w). Inr (h, w))))"

section \<open>process\_write\<close>

definition ok_200_title :: string where "ok_200_title = ''OK''"
definition error_403_title :: string where "error_403_title = ''Forbidden''"
definition error_403_form :: string where
  "error_403_form = ''You do not have permission to get file form this server.'' @ [LF]"
definition error_404_title :: string where "error_404_title = ''Not Found''"
definition error_404_form :: string where
  "error_404_form = ''The requested file was not found on this server.'' @ [LF]"
definition error_500_title :: string where "error_500_title = ''Internal Error''"
definition error_500_form :: string where
  "error_500_form = ''There was an unusual problem serving the request file.'' @ [LF]"

text \<open>The tail of the function: only the header buffer is sent.\<close>

definition send_buffer :: "'m http_conn \<Rightarrow> 'm http_conn" where
  "send_buffer h =
     h\<lparr>m_iv0 := \<lparr>iov_base = WriteBuf 0, iov_len = int (m_write_idx h)\<rparr>, m_iv_count := 1,
       bytes_to_send := int (m_write_idx h)\<rparr>"

text \<open>The three error cases have the same form.\<close>

definition error_response :: "int \<Rightarrow> string \<Rightarrow> string \<Rightarrow> 'm http_conn \<Rightarrow> 'd world \<Rightarrow>
    (bool \<times> 'm http_conn \<times> 'd world) res" where
  "error_response status title form h w =
     andThen (add_status_line status title h w) (\<lambda>(_, h, w).
     andThen (add_headers (int (length form)) h w) (\<lambda>(h, w).
     andThen (add_content form h w) (\<lambda>(added, h, w).
       if \<not> added then Inr (False, h, w) else Inr (True, send_buffer h, w))))"

text \<open>The case of a file; an empty file gets a page of its own and then falls into \<open>default\<close>.\<close>

definition file_response :: "'m http_conn \<Rightarrow> 'd world \<Rightarrow> (bool \<times> 'm http_conn \<times> 'd world) res" where
  "file_response h w =
     andThen (add_status_line 200 ok_200_title h w) (\<lambda>(_, h, w).
     andThen (fetch (m_file_stat h)) (\<lambda>st.
       if st_size st \<noteq> 0 then
         andThen (add_headers (to_int (int (st_size st))) h w) (\<lambda>(h, w).
         andThen (fetch (m_file_address h)) (\<lambda>p.
           Inr (True,
             h\<lparr>m_iv0 := \<lparr>iov_base = WriteBuf 0, iov_len = int (m_write_idx h)\<rparr>,
               m_iv1 := \<lparr>iov_base = FileAt p 0, iov_len = int (st_size st)\<rparr>,
               m_iv_count := 2,
               bytes_to_send := to_int (int (m_write_idx h) + int (st_size st))\<rparr>, w)))
       else
         let ok_string = ''<html><body></body></html>'' in
         andThen (add_headers (int (length ok_string)) h w) (\<lambda>(h, w).
         andThen (add_content ok_string h w) (\<lambda>(_, h, w). Inr (False, h, w)))))"

definition process_write :: "HTTP_CODE \<Rightarrow> 'm http_conn \<Rightarrow> 'd world \<Rightarrow> (bool \<times> 'm http_conn \<times> 'd world) res" where
  "process_write ret h w =
     (case ret of
        INTERNAL_ERROR \<Rightarrow> error_response 500 error_500_title error_500_form h w
      | BAD_REQUEST \<Rightarrow> error_response 404 error_404_title error_404_form h w
      | FORBIDDEN_REQUEST \<Rightarrow> error_response 403 error_403_title error_403_form h w
      | FILE_REQUEST \<Rightarrow> file_response h w
      | _ \<Rightarrow> Inr (False, h, w))"

section \<open>write\<close>

definition unmap :: "'m http_conn \<Rightarrow> 'd world \<Rightarrow> ('m http_conn \<times> 'd world) res" where
  "unmap h w =
     andThen (fetch (m_file_address h)) (\<lambda>p.
       case p of
         None \<Rightarrow> Inr (h, w)
       | Some f \<Rightarrow>
           andThen (fetch (m_file_stat h)) (\<lambda>st.
             Inr (h\<lparr>m_file_address := Set None\<rparr>, emit (Munmap f (st_size st)) w)))"

text \<open>The bytes an \<open>iovec\<close> stands for. A range outside the buffer or the mapping is a fault.\<close>

definition slice :: "string \<Rightarrow> int \<Rightarrow> int \<Rightarrow> string res" where
  "slice s off len =
     (if 0 \<le> off \<and> off + len \<le> int (length s) then Inr (take (nat len) (drop (nat off) s))
      else Inl OutOfBounds)"

definition iov_bytes :: "iovec \<Rightarrow> 'm http_conn \<Rightarrow> string res" where
  "iov_bytes v h =
     (if iov_len v = 0 then Inr []
      else case iov_base v of
             NoPtr \<Rightarrow> Inl Indeterminate
           | WriteBuf off \<Rightarrow> slice (m_write_buf h) off (iov_len v)
           | FileAt None off \<Rightarrow> Inl NullPointer
           | FileAt (Some MapFailed) off \<Rightarrow> Inl OutOfBounds
           | FileAt (Some (Mapping _ s)) off \<Rightarrow> slice s off (iov_len v))"

definition iov_all :: "'m http_conn \<Rightarrow> string res" where
  "iov_all h =
     (if m_iv_count h = 0 then Inr []
      else andThen (iov_bytes (m_iv0 h) h) (\<lambda>s.
           if m_iv_count h = 1 then Inr s
           else andThen (iov_bytes (m_iv1 h) h) (\<lambda>t. Inr (s @ t))))"

text \<open>What \<open>writev\<close> meets: room for up to \<open>n\<close> bytes, a full socket buffer (\<open>EAGAIN\<close>) or another error.\<close>

datatype writev_result = Room nat | WriteAgain | WriteError

text \<open>The bookkeeping after \<open>temp\<close> bytes were taken.\<close>

definition after_write :: "int \<Rightarrow> 'm http_conn \<Rightarrow> 'm http_conn res" where
  "after_write temp h =
     (let h = h\<lparr>bytes_have_send := bytes_have_send h + temp, bytes_to_send := bytes_to_send h - temp\<rparr> in
      if to_size_t (bytes_have_send h) \<ge> iov_len (m_iv0 h) then
        andThen (fetch (m_file_address h)) (\<lambda>p.
          Inr (h\<lparr>m_iv0 := (m_iv0 h)\<lparr>iov_len := 0\<rparr>,
                 m_iv1 := \<lparr>iov_base = FileAt p (bytes_have_send h - int (m_write_idx h)),
                           iov_len = to_size_t (bytes_to_send h)\<rparr>\<rparr>))
      else
        Inr (h\<lparr>m_iv0 := \<lparr>iov_base = WriteBuf (bytes_have_send h),
                         iov_len = to_size_t (iov_len (m_iv0 h) - bytes_have_send h)\<rparr>\<rparr>))"

text \<open>The loop; the socket's answers are consumed one per round, and a socket with none left is full.\<close>

fun write_loop :: "writev_result list \<Rightarrow> 'm http_conn \<Rightarrow> 'd world \<Rightarrow>
    (bool \<times> 'm http_conn \<times> 'd world) res" where
  "write_loop [] h w = Inr (True, h, modfd (m_epollfd w) (m_sockfd h) EPOLLOUT w)"
| "write_loop (WriteAgain # sock) h w = Inr (True, h, modfd (m_epollfd w) (m_sockfd h) EPOLLOUT w)"
| "write_loop (WriteError # sock) h w = andThen (unmap h w) (\<lambda>(h, w). Inr (False, h, w))"
| "write_loop (Room n # sock) h w =
     andThen (iov_all h) (\<lambda>s.
     let w = emit (SentBytes (m_sockfd h) (take n s)) w in
     andThen (after_write (int (length (take n s))) h) (\<lambda>h.
       if bytes_to_send h \<le> 0 then
         andThen (unmap h w) (\<lambda>(h, w).
         let w = modfd (m_epollfd w) (m_sockfd h) EPOLLIN w in
           if m_linger h then Inr (True, init h, w) else Inr (False, h, w))
       else write_loop sock h w))"

definition conn_write :: "writev_result list \<Rightarrow> 'm http_conn \<Rightarrow> 'd world \<Rightarrow> (bool \<times> 'm http_conn \<times> 'd world) res" where
  "conn_write sock h w =
     (if bytes_to_send h = 0
      then Inr (True, init h, modfd (m_epollfd w) (m_sockfd h) EPOLLIN w)
      else write_loop sock h w)"

section \<open>process\<close>

definition process :: "('m, 'd) os \<Rightarrow> 'm http_conn \<Rightarrow> 'd world \<Rightarrow> ('m http_conn \<times> 'd world) res" where
  "process os h w =
     andThen (process_read os h w) (\<lambda>(read_ret, h, w).
       if read_ret = NO_REQUEST then Inr (h, modfd (m_epollfd w) (m_sockfd h) EPOLLIN w)
       else andThen (process_write read_ret h w) (\<lambda>(write_ret, h, w).
              let (h, w) = (if \<not> write_ret then close_conn True h w else (h, w))
              in Inr (h, modfd (m_epollfd w) (m_sockfd h) EPOLLOUT w)))"

section \<open>The header buffer\<close>

text \<open>The write buffer holds \<open>hdr\<close>, and NULs behind it.\<close>

definition holds :: "'m http_conn \<Rightarrow> string \<Rightarrow> bool" where
  "holds h hdr \<longleftrightarrow> m_write_buf h = hdr @ replicate (WRITE_BUFFER_SIZE - length hdr) NUL \<and>
     m_write_idx h = length hdr \<and> NUL \<notin> set hdr \<and> length hdr < WRITE_BUFFER_SIZE"

lemma holds_init: "holds (init h) []"
  by (simp add: holds_def init_def WRITE_BUFFER_SIZE_def)

text \<open>Everything but the write buffer and its index.\<close>

definition same_but_buf :: "'m http_conn \<Rightarrow> 'm http_conn \<Rightarrow> bool" where
  "same_but_buf h h' \<longleftrightarrow> h' = h\<lparr>m_write_buf := m_write_buf h', m_write_idx := m_write_idx h'\<rparr>"

lemma same_but_buf_refl [simp]: "same_but_buf h h"
  by (simp add: same_but_buf_def)

lemma same_but_buf_trans: "same_but_buf a b \<Longrightarrow> same_but_buf b c \<Longrightarrow> same_but_buf a c"
  unfolding same_but_buf_def by (metis (no_types, lifting) http_conn.update_convs(8,9) http_conn.surjective)

text \<open>A world that only logged.\<close>

definition logged :: "'d world \<Rightarrow> 'd world \<Rightarrow> bool" where
  "logged w w' \<longleftrightarrow> (\<exists>ls. w' = w\<lparr>trace := trace w @ map LogInfo ls\<rparr>)"

lemma logged_refl [simp]: "logged w w"
  unfolding logged_def by (rule exI [of _ "[]"]) simp

lemma logged_emit: "logged w (emit (LogInfo s) w)"
  unfolding logged_def emit_def by (rule exI [of _ "[s]"]) simp

lemma logged_trans: "logged a b \<Longrightarrow> logged b c \<Longrightarrow> logged a c"
  unfolding logged_def
proof (elim exE)
  fix ls ms
  assume "b = a\<lparr>trace := trace a @ map LogInfo ls\<rparr>" "c = b\<lparr>trace := trace b @ map LogInfo ms\<rparr>"
  then show "\<exists>ls. c = a\<lparr>trace := trace a @ map LogInfo ls\<rparr>"
    by (intro exI [of _ "ls @ ms"]) simp
qed

lemma add_response_fits:
  assumes "holds h hdr" and "NUL \<notin> set s" and "length hdr + length s < 1023"
  shows "\<exists>h' w'. add_response s h w = Inr (True, h', w') \<and> holds h' (hdr @ s) \<and> same_but_buf h h' \<and> logged w w'"
proof -
  let ?b = "(hdr @ s) @ replicate (1024 - length (hdr @ s)) NUL"
  have buf: "m_write_buf h = hdr @ replicate (1024 - length hdr) NUL" and idx: "m_write_idx h = length hdr"
    and nul: "NUL \<notin> set hdr"
    using assms(1) by (simp_all add: holds_def WRITE_BUFFER_SIZE_def)
  obtain m where m: "1024 - length (hdr @ s) = Suc m" using assms(3)
    by (metis Suc_diff_Suc length_append less_SucI numeral_eq_Suc pred_numeral_simps(2) pred_numeral_simps(3) semiring_norm(26) semiring_norm(27) semiring_norm(28))
  have "snprintf (m_write_buf h) (length hdr) (1023 - length hdr) s = Inr (length s, ?b)"
  proof -
    have "drop (length hdr + Suc (length s)) (m_write_buf h) = replicate m NUL"
      using m by (simp add: buf)
    then show ?thesis
      using snprintf_fits [of s "1023 - length hdr" "length hdr" "m_write_buf h"] assms(3) m
      by (simp add: buf)
  qed
  moreover have "cstr ?b 0 = Inr (hdr @ s)" unfolding m
    using nul assms(2) by (intro cstr_padded) simp_all
  ultimately have "add_response s h w =
      Inr (True, h\<lparr>m_write_buf := ?b, m_write_idx := length hdr + length s\<rparr>, emit (LogInfo (''request:'' @ hdr @ s)) w)"
    using assms(3) idx by (simp add: add_response_def WRITE_BUFFER_SIZE_def Let_def)
  moreover have "holds (h\<lparr>m_write_buf := ?b, m_write_idx := length hdr + length s\<rparr>) (hdr @ s)"
    using nul assms(2,3) by (simp add: holds_def WRITE_BUFFER_SIZE_def)
  moreover have "same_but_buf h (h\<lparr>m_write_buf := ?b, m_write_idx := length hdr + length s\<rparr>)"
    by (simp add: same_but_buf_def)
  ultimately show ?thesis using logged_emit by blast
qed

text \<open>The texts of a response.\<close>

definition status_text :: "int \<Rightarrow> string \<Rightarrow> string" where
  "status_text status title = ''HTTP/1.1'' @ '' '' @ show_int status @ '' '' @ title @ crlf"

definition header_text :: "int \<Rightarrow> bool \<Rightarrow> string" where
  "header_text n linger =
     ''Content-Length:'' @ show_int n @ crlf @
     ''Connection:'' @ (if linger then ''keep-alive'' else ''close'') @ crlf @ crlf"

lemma add_status_line_text: "add_status_line status title = add_response (status_text status title)"
  by (simp add: add_status_line_def status_text_def)

lemma status_text_NUL: "NUL \<notin> set title \<Longrightarrow> NUL \<notin> set (status_text status title)"
  by (simp add: status_text_def crlf_def show_int_NUL)

lemma header_text_NUL: "NUL \<notin> set (header_text n linger)"
  by (simp add: header_text_def crlf_def show_int_NUL)

lemma same_but_buf_fields:
  assumes "same_but_buf h h'"
  shows "m_linger h' = m_linger h" "m_file_stat h' = m_file_stat h" "m_file_address h' = m_file_address h"
    "m_sockfd h' = m_sockfd h" "bytes_have_send h' = bytes_have_send h" "m_iv1 h' = m_iv1 h"
  by (subst assms [unfolded same_but_buf_def], simp)+

lemma add_headers_fits:
  assumes "holds h hdr" and "length hdr + length (header_text n (m_linger h)) < 1023"
  shows "\<exists>h' w'. add_headers n h w = Inr (h', w') \<and> holds h' (hdr @ header_text n (m_linger h)) \<and>
    same_but_buf h h' \<and> logged w w'"
proof -
  let ?a = "''Content-Length:'' @ show_int n @ crlf"
  let ?b = "''Connection:'' @ (if m_linger h then ''keep-alive'' else ''close'') @ crlf"
  have l: "length hdr + length ?a + length ?b + 2 < 1023"
    using assms(2) by (simp add: header_text_def crlf_def)
  have "NUL \<notin> set ?a" by (simp add: show_int_NUL crlf_def)
  from add_response_fits [OF assms(1) this, of w] l obtain h1 w1 where
    1: "add_response ?a h w = Inr (True, h1, w1)" "holds h1 (hdr @ ?a)" "same_but_buf h h1" "logged w w1" by auto
  have "NUL \<notin> set ?b" by (simp add: crlf_def)
  from add_response_fits [OF 1(2) this, of w1] l obtain h2 w2 where
    2: "add_response ?b h1 w1 = Inr (True, h2, w2)" "holds h2 ((hdr @ ?a) @ ?b)" "same_but_buf h1 h2" "logged w1 w2" by auto
  have "NUL \<notin> set crlf" by (simp add: crlf_def)
  from add_response_fits [OF 2(2) this, of w2] l obtain h3 w3 where
    3: "add_response crlf h2 w2 = Inr (True, h3, w3)" "holds h3 (((hdr @ ?a) @ ?b) @ crlf)" "same_but_buf h2 h3" "logged w2 w3"
    by (auto simp: crlf_def)
  have "add_headers n h w = Inr (h3, w3)"
    using 1(1) 2(1) 3(1) same_but_buf_fields(1) [OF 1(3)]
    by (simp add: add_headers_def add_content_length_def add_linger_def add_blank_line_def)
  moreover have "holds h3 (hdr @ header_text n (m_linger h))" using 3(2) by (simp add: header_text_def)
  moreover have "same_but_buf h h3" using 1(3) 2(3) 3(3) same_but_buf_trans by metis
  moreover have "logged w w3" using 1(4) 2(4) 3(4) logged_trans by metis
  ultimately show ?thesis by blast
qed

lemma error_response_fits:
  assumes "holds h []" and "NUL \<notin> set title" and "NUL \<notin> set form"
    and "length (status_text status title @ header_text (int (length form)) (m_linger h) @ form) < 1023"
  shows "\<exists>h' w'. error_response status title form h w = Inr (True, send_buffer h', w') \<and>
    holds h' (status_text status title @ header_text (int (length form)) (m_linger h) @ form) \<and>
    same_but_buf h h' \<and> logged w w'"
proof -
  let ?s = "status_text status title" and ?t = "header_text (int (length form)) (m_linger h)"
  from add_response_fits [OF assms(1) status_text_NUL [OF assms(2)], of status w] assms(4) obtain h1 w1 where
    1: "add_response ?s h w = Inr (True, h1, w1)" "holds h1 ?s" "same_but_buf h h1" "logged w w1" by auto
  note linger = same_but_buf_fields(1) [OF 1(3)]
  from add_headers_fits [OF 1(2), of "int (length form)" w1] assms(4) linger obtain h2 w2 where
    2: "add_headers (int (length form)) h1 w1 = Inr (h2, w2)" "holds h2 (?s @ ?t)" "same_but_buf h1 h2" "logged w1 w2" by auto
  from add_response_fits [OF 2(2) assms(3), of w2] assms(4) obtain h3 w3 where
    3: "add_response form h2 w2 = Inr (True, h3, w3)" "holds h3 ((?s @ ?t) @ form)" "same_but_buf h2 h3" "logged w2 w3" by auto
  have "error_response status title form h w = Inr (True, send_buffer h3, w3)"
    using 1(1) 2(1) 3(1)
    by (simp add: error_response_def add_status_line_text add_content_def)
  moreover have "same_but_buf h h3" using 1(3) 2(3) 3(3) same_but_buf_trans by metis
  moreover have "logged w w3" using 1(4) 2(4) 3(4) logged_trans by metis
  ultimately show ?thesis using 3(2) by (intro exI [of _ h3] exI [of _ w3]) simp
qed

lemma length_show_int: "0 \<le> n \<Longrightarrow> n < 10 ^ k \<Longrightarrow> 0 < k \<Longrightarrow> length (show_int n) \<le> k"
  using length_show_nat [of k "nat n"] by (simp add: show_int_def nat_less_iff)

lemma file_response_fits:
  assumes "holds h []" and "m_file_stat h = Set st" and "0 < st_size st" and "int (st_size st) < 2000000000"
    and "m_file_address h = Set p"
  defines "hdr \<equiv> status_text 200 ok_200_title @ header_text (int (st_size st)) (m_linger h)"
  shows "\<exists>h' w'. file_response h w = Inr (True,
      h'\<lparr>m_iv0 := \<lparr>iov_base = WriteBuf 0, iov_len = int (length hdr)\<rparr>,
         m_iv1 := \<lparr>iov_base = FileAt p 0, iov_len = int (st_size st)\<rparr>, m_iv_count := 2,
         bytes_to_send := int (length hdr) + int (st_size st)\<rparr>, w') \<and>
    holds h' hdr \<and> same_but_buf h h' \<and> logged w w'"
proof -
  have "length (show_int (int (st_size st))) \<le> 10" "length (show_int 200) \<le> 3"
    using assms(4) by (intro length_show_int; simp)+
  then have l: "length hdr < 100"
    by (simp add: hdr_def status_text_def header_text_def crlf_def ok_200_title_def)
  let ?s = "status_text 200 ok_200_title"
  have "NUL \<notin> set ?s" by (intro status_text_NUL) (simp add: ok_200_title_def)
  from add_response_fits [OF assms(1) this, of w] l obtain h1 w1 where
    1: "add_response ?s h w = Inr (True, h1, w1)" "holds h1 ?s" "same_but_buf h h1" "logged w w1"
    by (auto simp: hdr_def)
  note f1 = same_but_buf_fields [OF 1(3)]
  from add_headers_fits [OF 1(2), of "int (st_size st)" w1] l f1(1) obtain h2 w2 where
    2: "add_headers (int (st_size st)) h1 w1 = Inr (h2, w2)" "holds h2 hdr" "same_but_buf h1 h2" "logged w1 w2"
    by (auto simp: hdr_def)
  note f2 = same_but_buf_fields [OF 2(3)]
  have i: "m_write_idx h2 = length hdr" using 2(2) by (simp add: holds_def)
  have "to_int (int (st_size st)) = int (st_size st)"
    "to_int (int (length hdr) + int (st_size st)) = int (length hdr) + int (st_size st)"
    using assms(4) l by (simp_all add: to_int_def)
  then have "file_response h w = Inr (True,
      h2\<lparr>m_iv0 := \<lparr>iov_base = WriteBuf 0, iov_len = int (length hdr)\<rparr>,
         m_iv1 := \<lparr>iov_base = FileAt p 0, iov_len = int (st_size st)\<rparr>, m_iv_count := 2,
         bytes_to_send := int (length hdr) + int (st_size st)\<rparr>, w2)"
    using 1(1) 2(1) f1 f2 i assms(2,3,5)
    by (simp add: file_response_def add_status_line_text)
  moreover have "same_but_buf h h2" using 1(3) 2(3) same_but_buf_trans by metis
  moreover have "logged w w2" using 1(4) 2(4) logged_trans by metis
  ultimately show ?thesis using 2(2) by blast
qed

section \<open>Sending\<close>

text \<open>
  A response \<open>hdr @ file\<close> of which \<open>bytes_have_send\<close> bytes are sent: the vectors stand for exactly the
  rest. \<open>file = []\<close> is a response from the buffer alone.
\<close>

definition sending :: "'m http_conn \<Rightarrow> string \<Rightarrow> string \<Rightarrow> bool" where
  "sending h hdr file \<longleftrightarrow>
     (let n = bytes_have_send h; total = int (length (hdr @ file)) in
      0 \<le> n \<and> n < total \<and> bytes_to_send h = total - n \<and> total < 18446744073709551616 \<and>
      m_write_idx h = length hdr \<and> take (length hdr) (m_write_buf h) = hdr \<and>
      (if file = [] then m_iv_count h = 1 \<and> m_file_address h = Set None
       else m_iv_count h = 2 \<and> (\<exists>st. m_file_stat h = Set st) \<and>
         (\<exists>i. m_file_address h = Set (Some (Mapping i file)) \<and>
            m_iv1 h = \<lparr>iov_base = FileAt (Some (Mapping i file)) (max 0 (n - int (length hdr))),
                       iov_len = total - max n (int (length hdr))\<rparr>)) \<and>
      (if n < int (length hdr)
       then m_iv0 h = \<lparr>iov_base = WriteBuf n, iov_len = int (length hdr) - n\<rparr>
       else iov_len (m_iv0 h) = 0))"

lemma slice_rest:
  assumes "0 \<le> n" and "n \<le> int (length s)"
  shows "slice (s @ t) n (int (length s) - n) = Inr (drop (nat n) s)"
proof -
  have "nat (int (length s) - n) = length s - nat n" using assms by simp
  with assms show ?thesis by (simp add: slice_def)
qed

lemma iov_all_sending:
  assumes "sending h hdr file"
  shows "iov_all h = Inr (drop (nat (bytes_have_send h)) (hdr @ file))"
proof -
  let ?n = "bytes_have_send h"
  from assms have n: "0 \<le> ?n" "?n < int (length (hdr @ file))" by (auto simp: sending_def Let_def)
  have buf: "m_write_buf h = hdr @ drop (length hdr) (m_write_buf h)"
    using assms by (auto simp: sending_def Let_def) (metis append_take_drop_id)
  have 0: "iov_bytes (m_iv0 h) h = Inr (drop (nat ?n) hdr)"
  proof (cases "?n < int (length hdr)")
    case True
    with assms have "m_iv0 h = \<lparr>iov_base = WriteBuf ?n, iov_len = int (length hdr) - ?n\<rparr>"
      by (simp add: sending_def Let_def)
    with True n slice_rest [where n = "?n" and s = "hdr" and t = "drop (length hdr) (m_write_buf h)"] show ?thesis
      by (simp add: iov_bytes_def flip: buf)
  next
    case False
    with assms have "iov_len (m_iv0 h) = 0" by (simp add: sending_def Let_def)
    with False show ?thesis by (simp add: iov_bytes_def)
  qed
  show ?thesis
  proof (cases "file = []")
    case True
    with assms 0 show ?thesis by (simp add: iov_all_def sending_def Let_def)
  next
    case False
    with assms obtain i where iv: "m_iv_count h = 2"
      "m_iv1 h = \<lparr>iov_base = FileAt (Some (Mapping i file)) (max 0 (?n - int (length hdr))),
                  iov_len = int (length (hdr @ file)) - max ?n (int (length hdr))\<rparr>"
      by (auto simp: sending_def Let_def)
    let ?m = "max 0 (?n - int (length hdr))"
    have m: "0 \<le> ?m" "?m < int (length file)" "nat ?m = nat ?n - length hdr"
      "int (length (hdr @ file)) - max ?n (int (length hdr)) = int (length file) - ?m"
      using n False by (auto simp: max_def)
    then have "iov_bytes (m_iv1 h) h = Inr (drop (nat ?n - length hdr) file)"
      unfolding iv using slice_rest [where n = "?m" and s = "file" and t = "[]"]
      by (simp add: iov_bytes_def del: length_append of_nat_add)
    with 0 iv show ?thesis by (simp add: iov_all_def)
  qed
qed

text \<open>The bookkeeping is right while at most one short write ends inside the header.\<close>

fun header_ok :: "nat \<Rightarrow> nat \<Rightarrow> writev_result list \<Rightarrow> bool" where
  "header_ok hdr n (Room k # sock) = (if n = 0 \<or> hdr \<le> n then header_ok hdr (n + k) sock else hdr \<le> n + k)"
| "header_ok hdr n _ = True"

lemma header_ok_past: "hdr \<le> n \<Longrightarrow> header_ok hdr n sock"
proof (induction sock arbitrary: n)
  case (Cons r sock)
  then show ?case by (cases r) auto
qed simp

lemma after_write_sending:
  assumes "sending h hdr file" and "temp = min k (length (hdr @ file) - nat (bytes_have_send h))"
    and "bytes_have_send h = 0 \<or> int (length hdr) \<le> bytes_have_send h + int k"
  shows "\<exists>h'. after_write (int temp) h = Inr h' \<and>
    bytes_have_send h' = bytes_have_send h + int temp \<and>
    bytes_to_send h' = int (length (hdr @ file)) - (bytes_have_send h + int temp) \<and>
    (0 < bytes_to_send h' \<longrightarrow> sending h' hdr file) \<and>
    m_linger h' = m_linger h \<and> m_sockfd h' = m_sockfd h \<and> m_file_address h' = m_file_address h \<and>
    m_file_stat h' = m_file_stat h"
proof -
  let ?n = "bytes_have_send h" and ?t = "int (length (hdr @ file))" and ?w = "int (length hdr)"
  from assms(1) have n: "0 \<le> ?n" "?n < ?t" "bytes_to_send h = ?t - ?n" "?t < 18446744073709551616"
    and i: "m_write_idx h = length hdr" by (auto simp: sending_def Let_def)
  have temp: "0 \<le> int temp" "?n + int temp \<le> ?t"
    using assms(2) n by (auto simp: min_def)
  have enough: "?n = 0 \<or> ?w \<le> ?n + int temp"
  proof (cases "k \<le> length (hdr @ file) - nat ?n")
    case True
    with assms(2,3) show ?thesis by simp
  next
    case False
    with assms(2) n have "?n + int temp = ?t" by (simp add: min_def)
    then show ?thesis by simp
  qed
  obtain p where p: "m_file_address h = Set p" using assms(1) by (auto simp: sending_def Let_def split: if_splits)
  have size: "to_size_t x = x" if "0 \<le> x" "x \<le> ?t" for x using that n(4) by (simp add: to_size_t_def)
  have len: "iov_len (m_iv0 h) = (if ?n < ?w then ?w - ?n else 0)" using assms(1) by (auto simp: sending_def Let_def)
  show ?thesis
  proof (cases "iov_len (m_iv0 h) \<le> ?n + int temp")
    case True
    have past: "?w \<le> ?n + int temp"
    proof (cases "?n < ?w")
      case True
      with \<open>iov_len (m_iv0 h) \<le> ?n + int temp\<close> len enough show ?thesis by auto
    next
      case False
      with temp show ?thesis by linarith
    qed
    let ?h = "h\<lparr>bytes_have_send := ?n + int temp, bytes_to_send := ?t - (?n + int temp),
      m_iv0 := (m_iv0 h)\<lparr>iov_len := 0\<rparr>,
      m_iv1 := \<lparr>iov_base = FileAt p (?n + int temp - ?w), iov_len = ?t - (?n + int temp)\<rparr>\<rparr>"
    have e: "to_size_t (?n + int temp) = ?n + int temp" "to_size_t (?t - (?n + int temp)) = ?t - (?n + int temp)"
      by (rule size; use temp n in linarith)+
    have b: "bytes_to_send h - int temp = ?t - (?n + int temp)" using n by linarith
    have "after_write (int temp) h = Inr ?h"
      unfolding after_write_def Let_def by (simp add: True p i e b del: length_append of_nat_add)
    moreover have "sending ?h hdr file" if "0 < ?t - (?n + int temp)"
    proof (cases "file = []")
      case True
      with that past show ?thesis by simp
    next
      case False
      with assms(1) p obtain j where "m_iv_count h = 2" "\<exists>st. m_file_stat h = Set st" "p = Some (Mapping j file)"
        by (auto simp: sending_def Let_def)
      with assms(1) False that past temp n i p show ?thesis by (simp add: sending_def Let_def)
    qed
    ultimately show ?thesis by (intro exI [of _ ?h]) simp
  next
    case False
    then have zero: "?n < ?w" "?n + int temp < ?w - ?n" using len n temp by (simp_all split: if_splits)
    then have n0: "?n = 0" using enough n by linarith
    let ?h = "h\<lparr>bytes_have_send := ?n + int temp, bytes_to_send := ?t - (?n + int temp),
      m_iv0 := \<lparr>iov_base = WriteBuf (?n + int temp), iov_len = ?w - ?n - (?n + int temp)\<rparr>\<rparr>"
    have e: "to_size_t (int temp) = int temp" "to_size_t (?w - int temp) = ?w - int temp"
      by (rule size; use temp n zero n0 in simp)+
    have b: "bytes_to_send h = ?t" "iov_len (m_iv0 h) = ?w" using n len zero n0 by simp_all
    have "after_write (int temp) h = Inr ?h"
      unfolding after_write_def Let_def using zero(2)
      by (simp add: n0 b e del: length_append of_nat_add)
    moreover have "sending ?h hdr file"
      using assms(1) n0 zero temp n by (cases "file = []"; simp add: sending_def Let_def max_def)
    ultimately show ?thesis by (intro exI [of _ ?h]) simp
  qed
qed

text \<open>The bytes handed to the kernel, in order.\<close>

definition sent_bytes :: "'d world \<Rightarrow> string" where
  "sent_bytes w = concat (map (\<lambda>e. case e of SentBytes _ s \<Rightarrow> s | _ \<Rightarrow> []) (trace w))"

lemma sent_bytes_simps [simp]:
  "sent_bytes (emit (SentBytes fd s) w) = sent_bytes w @ s"
  "sent_bytes (emit (Munmap f n) w) = sent_bytes w"
  "sent_bytes (modfd e fd ev w) = sent_bytes w"
  by (simp_all add: sent_bytes_def emit_def modfd_def epoll_ctl_mod_def)

lemma epoll_simps [simp]:
  "epoll (emit e w) = epoll w" "m_epollfd (emit e w) = m_epollfd w"
  by (simp_all add: emit_def)

lemma epoll_modfd_cong: "epoll w1 = epoll w2 \<Longrightarrow> epoll (modfd e fd ev w1) = epoll (modfd e fd ev w2)"
  by (simp add: modfd_def epoll_ctl_mod_def)

text \<open>The bytes a socket has room for before it stops, and whether it stops on an error.\<close>

fun room :: "writev_result list \<Rightarrow> nat" where
  "room (Room k # sock) = k + room sock"
| "room _ = 0"

fun breaks :: "writev_result list \<Rightarrow> bool" where
  "breaks (Room k # sock) = breaks sock"
| "breaks (WriteError # sock) = True"
| "breaks _ = False"

text \<open>A connection just reset by \<open>init\<close> on its socket: ready for the next request.\<close>

definition reset_on :: "int \<Rightarrow> 'm http_conn \<Rightarrow> bool" where
  "reset_on fd h \<longleftrightarrow> (\<exists>c. h = init c \<and> m_sockfd c = fd)"

lemma reset_on_init: "reset_on (m_sockfd c) (init c)"
  unfolding reset_on_def by blast

text \<open>What a call of \<open>write\<close> leaves when \<open>rest\<close> was still to be sent.\<close>

definition delivered :: "string \<Rightarrow> string \<Rightarrow> writev_result list \<Rightarrow> 'm http_conn \<Rightarrow> 'd world \<Rightarrow>
    bool \<Rightarrow> 'm http_conn \<Rightarrow> 'd world \<Rightarrow> bool" where
  "delivered hdr file sock h w alive h' w' \<longleftrightarrow>
     (let rest = drop (nat (bytes_have_send h)) (hdr @ file) in
      sent_bytes w' = sent_bytes w @ take (room sock) rest \<and>
      (if length rest \<le> room sock
       then alive = m_linger h \<and> m_file_address h' = Set None \<and>
         (m_linger h \<longrightarrow> reset_on (m_sockfd h) h') \<and>
         epoll w' = epoll (modfd (m_epollfd w) (m_sockfd h) EPOLLIN w)
       else if breaks sock
       then \<not> alive \<and> m_file_address h' = Set None \<and> epoll w' = epoll w
       else alive \<and> sending h' hdr file \<and> bytes_have_send h' = bytes_have_send h + int (room sock) \<and>
         m_linger h' = m_linger h \<and> m_sockfd h' = m_sockfd h \<and>
         epoll w' = epoll (modfd (m_epollfd w) (m_sockfd h) EPOLLOUT w)))"

lemma unmap_sending:
  assumes "m_file_address h = Set None \<or> (\<exists>st p. m_file_stat h = Set st \<and> m_file_address h = Set (Some p))"
  shows "\<exists>h' w'. unmap h w = Inr (h', w') \<and> m_file_address h' = Set None \<and> sent_bytes w' = sent_bytes w \<and>
    epoll w' = epoll w \<and> m_epollfd w' = m_epollfd w \<and> m_linger h' = m_linger h \<and> m_sockfd h' = m_sockfd h"
  using assms by (auto simp: unmap_def)

lemma sending_file:
  "sending h hdr file \<Longrightarrow> m_file_address h = Set None \<or> (\<exists>st p. m_file_stat h = Set st \<and> m_file_address h = Set (Some p))"
  by (auto simp: sending_def Let_def split: if_splits)

lemma init_file [simp]: "m_file_address (init h) = m_file_address h"
  by (simp add: init_def)

lemma sending_rest: "sending h hdr file \<Longrightarrow> \<not> length (drop (nat (bytes_have_send h)) (hdr @ file)) \<le> 0"
  by (auto simp: sending_def Let_def)

lemma delivered_wait:
  assumes "sending h hdr file" and "room sock = 0" and "\<not> breaks sock"
  shows "delivered hdr file sock h w True h (modfd (m_epollfd w) (m_sockfd h) EPOLLOUT w)"
  using assms sending_rest [OF assms(1)] unfolding delivered_def Let_def by auto

lemma length_drop_le: "length xs \<le> k + n \<longleftrightarrow> length (drop k xs) \<le> n"
  by auto

lemma write_loop_sends:
  assumes "sending h hdr file" and "header_ok (length hdr) (nat (bytes_have_send h)) sock"
  shows "\<exists>alive h' w'. write_loop sock h w = Inr (alive, h', w') \<and> delivered hdr file sock h w alive h' w'"
  using assms
proof (induction sock h w rule: write_loop.induct)
  case (1 h w)
  then show ?case using delivered_wait [of h hdr "file" "[]" w] by auto
next
  case (2 sock h w)
  then show ?case using delivered_wait [of h hdr "file" "WriteAgain # sock" w] by auto
next
  case (3 sock h w)
  obtain h' w' where "unmap h w = Inr (h', w')" "m_file_address h' = Set None" "sent_bytes w' = sent_bytes w"
    "epoll w' = epoll w" using unmap_sending [OF sending_file [OF 3(1)]] by blast
  with sending_rest [OF 3(1)] show ?case
    by (intro exI [of _ False] exI [of _ h'] exI [of _ w']) (auto simp: delivered_def Let_def)
next
  case (4 k sock h w)
  let ?n = "bytes_have_send h" and ?all = "hdr @ file"
  let ?rest = "drop (nat ?n) ?all"
  define temp where "temp = min k (length ?all - nat ?n)"
  define w1 where "w1 = emit (SentBytes (m_sockfd h) (take k ?rest)) w"
  have n: "0 \<le> ?n" "?n < int (length ?all)" using 4(2) by (auto simp: sending_def Let_def)
  have len: "length (take k ?rest) = temp" unfolding temp_def length_take length_drop by (rule min.commute)
  have "?n = 0 \<or> int (length hdr) \<le> ?n + int k"
    using 4(3) n by (auto split: if_splits simp: nat_le_iff le_nat_iff)
  from after_write_sending [OF 4(2) temp_def this] obtain h1 where
    h1: "after_write (int temp) h = Inr h1" "bytes_have_send h1 = ?n + int temp"
      "bytes_to_send h1 = int (length ?all) - (?n + int temp)" "0 < bytes_to_send h1 \<Longrightarrow> sending h1 hdr file"
      "m_linger h1 = m_linger h" "m_sockfd h1 = m_sockfd h" "m_file_address h1 = m_file_address h"
      "m_file_stat h1 = m_file_stat h" by blast
  have step: "write_loop (Room k # sock) h w =
      (if bytes_to_send h1 \<le> 0 then
         andThen (unmap h1 w1) (\<lambda>(h, w).
         let w = modfd (m_epollfd w) (m_sockfd h) EPOLLIN w in
           if m_linger h then Inr (True, init h, w) else Inr (False, h, w))
       else write_loop sock h1 w1)"
    using iov_all_sending [OF 4(2)] h1(1) len by (simp add: w1_def del: drop_append)
  show ?case
  proof (cases "length ?rest \<le> k")
    case True
    then have "bytes_to_send h1 \<le> 0" using h1(3) n by (simp add: temp_def)
    moreover obtain h2 w2 where h2: "unmap h1 w1 = Inr (h2, w2)" "m_file_address h2 = Set None"
      "sent_bytes w2 = sent_bytes w1" "epoll w2 = epoll w1" "m_epollfd w2 = m_epollfd w1"
      "m_linger h2 = m_linger h1" "m_sockfd h2 = m_sockfd h1"
      using unmap_sending [of h1 w1] sending_file [OF 4(2)] h1(7,8) by force
    ultimately have "write_loop (Room k # sock) h w =
        Inr (m_linger h, if m_linger h then init h2 else h2, modfd (m_epollfd w2) (m_sockfd h2) EPOLLIN w2)"
      using h1(5) by (simp add: step del: write_loop.simps)
    moreover have "take (room (Room k # sock)) ?rest = take k ?rest" "length ?rest \<le> room (Room k # sock)"
      using True by (simp_all only: take_all room.simps trans_le_add1)
    moreover have "epoll w1 = epoll w" "m_epollfd w1 = m_epollfd w" "sent_bytes w1 = sent_bytes w @ take k ?rest"
      by (simp_all only: w1_def epoll_simps sent_bytes_simps)
    moreover have "reset_on (m_sockfd h) (init h2)" using reset_on_init [of h2] h2(7) h1(6) by simp
    ultimately show ?thesis using h2(2-) h1(5,6) epoll_modfd_cong [of w2 w]
      unfolding delivered_def Let_def by (auto simp del: drop_append take_append room.simps)
  next
    case False
    then have t: "temp = k" by (simp add: temp_def)
    with False h1(3) n have pos: "0 < bytes_to_send h1" by simp
    have n1: "nat (bytes_have_send h1) = nat ?n + k" using h1(2) n t by simp
    have ok1: "header_ok (length hdr) (nat (bytes_have_send h1)) sock"
      using 4(3) unfolding n1 by (auto split: if_splits intro: header_ok_past)
    have "\<exists>alive h' w'. write_loop sock h1 w1 = Inr (alive, h', w') \<and> delivered hdr file sock h1 w1 alive h' w'"
      using 4(1) [of _ w1 h1] iov_all_sending [OF 4(2)] len h1(1) pos h1(4) [OF pos] ok1
      by (simp add: w1_def del: drop_append)
    then obtain alive h' w' where r: "write_loop sock h1 w1 = Inr (alive, h', w')" "delivered hdr file sock h1 w1 alive h' w'" by blast
    have rest1: "drop (nat (bytes_have_send h1)) ?all = drop k ?rest" unfolding n1 drop_drop by (simp only: add.commute)
    have room: "take (room (Room k # sock)) ?rest = take k ?rest @ take (room sock) (drop k ?rest)"
      by (simp only: room.simps take_add)
    have cond: "length ?rest \<le> room (Room k # sock) \<longleftrightarrow> length (drop k ?rest) \<le> room sock"
      unfolding room.simps by (rule length_drop_le)
    have "delivered hdr file (Room k # sock) h w alive h' w'"
      using r(2) h1(2,5,6) t epoll_modfd_cong [of w1 w]
      unfolding delivered_def Let_def rest1 room cond by (auto simp: w1_def simp del: drop_append)
    with pos r(1) show ?thesis by (auto simp: step simp del: write_loop.simps)
  qed
qed

end
