(* ===== verification/StdHeap.thy ===== *)
theory StdHeap
  imports Prelude "HOL-Library.Multiset"
begin

text \<open>
  \<open>std::priority_queue\<close> over a vector, as \<open>inc/heap_timer.h\<close> uses it: \<open>push\<close> appends and
  sifts up, \<open>pop\<close> moves the last element to the root and sifts down, \<open>top\<close> is the element at
  index 0. The comparison orders the elements by a key, least first. The laws the timers rely
  on are the locale \<open>min_queue\<close>: those about the elements hold for any vector, also for one
  whose keys were changed behind the container's back; those about the order hold for a heap.
\<close>

section \<open>The container\<close>

function sift_up :: "('a \<Rightarrow> int) \<Rightarrow> 'a list \<Rightarrow> nat \<Rightarrow> 'a list" where
  "sift_up key v i =
     (if 0 < i \<and> key (v ! i) < key (v ! ((i - 1) div 2))
      then sift_up key (v[i := v ! ((i - 1) div 2), (i - 1) div 2 := v ! i]) ((i - 1) div 2)
      else v)"
  by pat_completeness auto
termination
  by (relation "measure (\<lambda>(key, v, i). i)") auto

definition least_child :: "('a \<Rightarrow> int) \<Rightarrow> 'a list \<Rightarrow> nat \<Rightarrow> nat" where
  "least_child key v i =
     (if 2 * i + 2 < length v \<and> key (v ! (2 * i + 2)) < key (v ! (2 * i + 1))
      then 2 * i + 2 else 2 * i + 1)"

function sift_down :: "('a \<Rightarrow> int) \<Rightarrow> 'a list \<Rightarrow> nat \<Rightarrow> 'a list" where
  "sift_down key v i =
     (if 2 * i + 1 < length v \<and> key (v ! least_child key v i) < key (v ! i)
      then sift_down key (v[i := v ! least_child key v i, least_child key v i := v ! i])
             (least_child key v i)
      else v)"
  by pat_completeness auto
termination
  by (relation "measure (\<lambda>(key, v, i). length v - i)") (auto simp: least_child_def)

declare sift_up.simps [simp del] sift_down.simps [simp del]

definition pq_push :: "('a \<Rightarrow> int) \<Rightarrow> 'a \<Rightarrow> 'a list \<Rightarrow> 'a list" where
  "pq_push key x v = sift_up key (v @ [x]) (length v)"

definition pq_pop :: "('a \<Rightarrow> int) \<Rightarrow> 'a list \<Rightarrow> 'a list" where
  "pq_pop key v = sift_down key (butlast (v[0 := last v])) 0"

definition is_heap :: "('a \<Rightarrow> int) \<Rightarrow> 'a list \<Rightarrow> bool" where
  "is_heap key v \<longleftrightarrow> (\<forall>i \<in> {1..<length v}. key (v ! ((i - 1) div 2)) \<le> key (v ! i))"

section \<open>Elements\<close>

lemma mset_sift_up: "i < length v \<Longrightarrow> mset (sift_up key v i) = mset v"
proof (induction key v i rule: sift_up.induct)
  case (1 key v i)
  then show ?case
    by (subst sift_up.simps) (auto simp: mset_swap)
qed

lemma least_child_bounds:
  "2 * i + 1 < length v \<Longrightarrow> i < least_child key v i \<and> least_child key v i < length v"
  by (auto simp: least_child_def)

lemma mset_sift_down: "mset (sift_down key v i) = mset v"
proof (induction key v i rule: sift_down.induct)
  case (1 key v i)
  show ?case
  proof (cases "2 * i + 1 < length v \<and> key (v ! least_child key v i) < key (v ! i)")
    case True
    with least_child_bounds [of i v key] have "i < length v" "least_child key v i < length v" by auto
    with True 1 show ?thesis
      by (simp add: sift_down.simps [of key v i] mset_swap)
  next
    case False
    then show ?thesis by (subst sift_down.simps) auto
  qed
qed

lemma mset_pq_push: "mset (pq_push key x v) = add_mset x (mset v)"
  by (simp add: pq_push_def mset_sift_up)

lemma mset_pq_pop:
  assumes "v \<noteq> []"
  shows "mset (pq_pop key v) = mset v - {#hd v#}"
proof -
  obtain x xs where v: "v = x # xs" using assms by (cases v) auto
  have "mset (butlast (v[0 := last v])) = mset xs"
  proof (cases "xs = []")
    case False
    then have "mset (butlast (v[0 := last v])) = add_mset (last xs) (mset (butlast xs))"
      using v by simp
    also have "\<dots> = mset (butlast xs @ [last xs])" by simp
    also have "\<dots> = mset xs" using False by simp
    finally show ?thesis .
  qed (simp add: v)
  then show ?thesis by (simp add: pq_pop_def mset_sift_down v)
qed

section \<open>Order\<close>

text \<open>A heap but for the pair of \<open>i\<close> and its parent, with the pairs around \<open>i\<close> bridged.\<close>

definition up_inv :: "('a \<Rightarrow> int) \<Rightarrow> 'a list \<Rightarrow> nat \<Rightarrow> bool" where
  "up_inv key v i \<longleftrightarrow>
     (\<forall>j \<in> {1..<length v}. j \<noteq> i \<longrightarrow> key (v ! ((j - 1) div 2)) \<le> key (v ! j)) \<and>
     (\<forall>j \<in> {1..<length v}. (j - 1) div 2 = i \<longrightarrow> 0 < i \<longrightarrow>
        key (v ! ((i - 1) div 2)) \<le> key (v ! j))"

lemma up_invD1: "up_inv key v i \<Longrightarrow> 0 < j \<Longrightarrow> j < length v \<Longrightarrow> j \<noteq> i \<Longrightarrow>
    key (v ! ((j - 1) div 2)) \<le> key (v ! j)"
  by (simp add: up_inv_def)

lemma up_invD2: "up_inv key v i \<Longrightarrow> 0 < j \<Longrightarrow> j < length v \<Longrightarrow> (j - 1) div 2 = i \<Longrightarrow> 0 < i \<Longrightarrow>
    key (v ! ((i - 1) div 2)) \<le> key (v ! j)"
  by (simp add: up_inv_def)

lemma nth_swap:
  assumes "i < length v" "p < length v" "j < length v"
  shows "v[i := v ! p, p := v ! i] ! j = (if j = p then v ! i else if j = i then v ! p else v ! j)"
  using assms by (auto simp: nth_list_update)

lemma up_inv_step:
  assumes inv: "up_inv key v i" and i: "0 < i" "i < length v"
    and p_def: "p = (i - 1) div 2" and less: "key (v ! i) < key (v ! p)"
  shows "up_inv key (v[i := v ! p, p := v ! i]) p"
proof -
  let ?w = "v[i := v ! p, p := v ! i]"
  have p: "p < i" "p < length v" using i unfolding p_def by linarith+
  note w = nth_swap [OF i(2) p(2)]
  have wp: "?w ! p = v ! i" and wi: "?w ! i = v ! p" using w p i by auto
  have other: "?w ! j = v ! j" if "j < length v" "j \<noteq> p" "j \<noteq> i" for j
    using w that by simp
  show ?thesis unfolding up_inv_def
  proof (intro conjI ballI impI)
    fix j assume j: "j \<in> {1..<length ?w}" "j \<noteq> p"
    then have jl: "0 < j" "j < length v" by auto
    obtain k where k: "k = (j - 1) div 2" by blast
    then have kl: "k < length v" using jl by linarith
    show "key (?w ! ((j - 1) div 2)) \<le> key (?w ! j)"
      unfolding k [symmetric]
    proof (cases "j = i")
      case True
      then have "k = p" using k p_def by simp
      with True wp wi less show "key (?w ! k) \<le> key (?w ! j)" by simp
    next
      case False
      have base: "key (v ! k) \<le> key (v ! j)"
        using up_invD1 [OF inv jl False] k by simp
      have wj: "?w ! j = v ! j" using other jl j(2) False by simp
      consider "k = i" | "k = p" | "k \<noteq> i" "k \<noteq> p" by blast
      then show "key (?w ! k) \<le> key (?w ! j)"
      proof cases
        case 1
        then have "key (v ! p) \<le> key (v ! j)"
          using up_invD2 [OF inv jl _ i(1)] k p_def by simp
        with 1 wi wj show ?thesis by simp
      next
        case 2
        with base less wp wj show ?thesis by simp
      next
        case 3
        with base other [OF kl] wj show ?thesis by simp
      qed
    qed
  next
    fix j assume j: "j \<in> {1..<length ?w}" and jp: "(j - 1) div 2 = p" and pp: "0 < p"
    then have jl: "0 < j" "j < length v" by auto
    obtain q where q_def: "q = (p - 1) div 2" by blast
    have q: "q < p" using pp unfolding q_def by linarith
    have up: "key (v ! q) \<le> key (v ! p)"
      using up_invD1 [OF inv pp p(2)] p(1) q_def by simp
    have wq: "?w ! q = v ! q" using other [of q] q p by simp
    show "key (?w ! ((p - 1) div 2)) \<le> key (?w ! j)"
      unfolding q_def [symmetric] wq
    proof (cases "j = i")
      case True
      with up wi show "key (v ! q) \<le> key (?w ! j)" by simp
    next
      case False
      have "j \<noteq> p" using jp jl by linarith
      then have "?w ! j = v ! j" using other jl False by simp
      moreover have "key (v ! p) \<le> key (v ! j)"
        using up_invD1 [OF inv jl False] jp by simp
      ultimately show "key (v ! q) \<le> key (?w ! j)" using up by simp
    qed
  qed
qed

lemma is_heap_sift_up: "i < length v \<Longrightarrow> up_inv key v i \<Longrightarrow> is_heap key (sift_up key v i)"
proof (induction key v i rule: sift_up.induct)
  case (1 key v i)
  show ?case
  proof (cases "0 < i \<and> key (v ! i) < key (v ! ((i - 1) div 2))")
    case True
    then have "is_heap key (sift_up key (v[i := v ! ((i - 1) div 2), (i - 1) div 2 := v ! i])
        ((i - 1) div 2))"
      using "1.prems" by (intro "1.IH" up_inv_step [OF _ _ _ refl]) auto
    with True show ?thesis by (simp add: sift_up.simps [of key v i])
  next
    case False
    then have "is_heap key v"
      using "1.prems"(2) unfolding is_heap_def up_inv_def
      by (metis atLeastLessThan_iff less_eq_Suc_le not_less One_nat_def)
    with False show ?thesis by (subst sift_up.simps) auto
  qed
qed

lemma is_heap_pq_push:
  assumes "is_heap key v"
  shows "is_heap key (pq_push key x v)"
  unfolding pq_push_def
proof (rule is_heap_sift_up)
  show "length v < length (v @ [x])" by simp
  show "up_inv key (v @ [x]) (length v)"
    unfolding up_inv_def
  proof (intro conjI ballI impI)
    fix j assume j: "j \<in> {1..<length (v @ [x])}" "j \<noteq> length v"
    then have "j \<in> {1..<length v}" "(j - 1) div 2 < length v" by auto
    with assms show "key ((v @ [x]) ! ((j - 1) div 2)) \<le> key ((v @ [x]) ! j)"
      by (auto simp: is_heap_def nth_append)
  next
    fix j assume "j \<in> {1..<length (v @ [x])}" "(j - 1) div 2 = length v" "0 < length v"
    then show "key ((v @ [x]) ! ((length v - 1) div 2)) \<le> key ((v @ [x]) ! j)" by auto
  qed
qed

text \<open>A heap but for the pairs of \<open>i\<close> and its children.\<close>

definition down_inv :: "('a \<Rightarrow> int) \<Rightarrow> 'a list \<Rightarrow> nat \<Rightarrow> bool" where
  "down_inv key v i \<longleftrightarrow>
     (\<forall>j \<in> {1..<length v}. (j - 1) div 2 \<noteq> i \<longrightarrow> key (v ! ((j - 1) div 2)) \<le> key (v ! j)) \<and>
     (\<forall>j \<in> {1..<length v}. (j - 1) div 2 = i \<longrightarrow> 0 < i \<longrightarrow>
        key (v ! ((i - 1) div 2)) \<le> key (v ! j))"

lemma down_invD1: "down_inv key v i \<Longrightarrow> 0 < j \<Longrightarrow> j < length v \<Longrightarrow> (j - 1) div 2 \<noteq> i \<Longrightarrow>
    key (v ! ((j - 1) div 2)) \<le> key (v ! j)"
  by (simp add: down_inv_def)

lemma down_invD2: "down_inv key v i \<Longrightarrow> 0 < j \<Longrightarrow> j < length v \<Longrightarrow> (j - 1) div 2 = i \<Longrightarrow> 0 < i \<Longrightarrow>
    key (v ! ((i - 1) div 2)) \<le> key (v ! j)"
  by (simp add: down_inv_def)

lemma child_cases: "0 < j \<Longrightarrow> (j - 1) div 2 = i \<Longrightarrow> j = 2 * i + 1 \<or> j = 2 * i + 2"
  for j :: nat
  by presburger

lemma least_child_parent: "(least_child key v i - 1) div 2 = i" "0 < least_child key v i"
  by (simp_all add: least_child_def)

lemma least_child_le:
  assumes "0 < j" "j < length v" "(j - 1) div 2 = i"
  shows "key (v ! least_child key v i) \<le> key (v ! j)"
  using child_cases [OF assms(1,3)] assms(2) by (auto simp: least_child_def)

lemma down_inv_step:
  assumes inv: "down_inv key v i" and l: "2 * i + 1 < length v"
    and c_def: "c = least_child key v i" and less: "key (v ! c) < key (v ! i)"
  shows "down_inv key (v[i := v ! c, c := v ! i]) c"
proof -
  let ?w = "v[i := v ! c, c := v ! i]"
  have c: "i < c" "c < length v" using least_child_bounds [OF l] unfolding c_def by auto
  have cp: "(c - 1) div 2 = i" "0 < c" unfolding c_def by (rule least_child_parent)+
  have il: "i < length v" using c by simp
  note w = nth_swap [OF il c(2)]
  have wc: "?w ! c = v ! i" and wi: "?w ! i = v ! c" using w c il by auto
  have other: "?w ! j = v ! j" if "j < length v" "j \<noteq> c" "j \<noteq> i" for j
    using w that by simp
  show ?thesis unfolding down_inv_def
  proof (intro conjI ballI impI)
    fix j assume j: "j \<in> {1..<length ?w}" and jc: "(j - 1) div 2 \<noteq> c"
    then have jl: "0 < j" "j < length v" by auto
    obtain k where k: "k = (j - 1) div 2" by blast
    then have kl: "k < length v" "k < j" using jl by linarith+
    show "key (?w ! ((j - 1) div 2)) \<le> key (?w ! j)"
      unfolding k [symmetric]
    proof (cases "k = i")
      case True
      have "key (v ! c) \<le> key (v ! j)"
        unfolding c_def using jl True k by (intro least_child_le) auto
      then show "key (?w ! k) \<le> key (?w ! j)"
        using True less wi wc other [of j] jl kl by (cases "j = c") simp_all
    next
      case False
      have base: "key (v ! k) \<le> key (v ! j)"
        using down_invD1 [OF inv jl] False k by simp
      have wk: "?w ! k = v ! k" using other kl False jc k by simp
      show "key (?w ! k) \<le> key (?w ! j)"
      proof (cases "j = i")
        case True
        then have "key (v ! k) \<le> key (v ! c)"
          using down_invD2 [OF inv cp(2) c(2) cp(1)] k jl(1) by simp
        with True wi wk show ?thesis by simp
      next
        case False
        have "j \<noteq> c" using cp(1) \<open>k \<noteq> i\<close> k by auto
        with False base wk other [of j] jl show ?thesis by simp
      qed
    qed
  next
    fix j assume j: "j \<in> {1..<length ?w}" and jc: "(j - 1) div 2 = c"
    then have jl: "0 < j" "j < length v" by auto
    then have jc': "c < j" using jc by linarith
    have "key (v ! c) \<le> key (v ! j)"
      using down_invD1 [OF inv jl] jc c(1) by simp
    moreover have "?w ! j = v ! j" using other [of j] jl jc' c by simp
    ultimately show "key (?w ! ((c - 1) div 2)) \<le> key (?w ! j)"
      using wi cp(1) by simp
  qed
qed

lemma is_heap_sift_down: "down_inv key v i \<Longrightarrow> is_heap key (sift_down key v i)"
proof (induction key v i rule: sift_down.induct)
  case (1 key v i)
  show ?case
  proof (cases "2 * i + 1 < length v \<and> key (v ! least_child key v i) < key (v ! i)")
    case True
    with "1.prems" have "is_heap key (sift_down key (v[i := v ! least_child key v i,
        least_child key v i := v ! i]) (least_child key v i))"
      by (intro "1.IH" down_inv_step [OF _ _ refl]) auto
    with True show ?thesis by (simp add: sift_down.simps [of key v i])
  next
    case False
    have "key (v ! ((j - 1) div 2)) \<le> key (v ! j)" if j: "0 < j" "j < length v" for j
    proof (cases "(j - 1) div 2 = i")
      case True
      then have "2 * i + 1 < length v" using child_cases [OF j(1) True] j(2) by auto
      with False have "key (v ! i) \<le> key (v ! least_child key v i)" by simp
      also have "\<dots> \<le> key (v ! j)" using j True by (intro least_child_le)
      finally show ?thesis using True by simp
    next
      case False
      with down_invD1 [OF "1.prems" j] show ?thesis by simp
    qed
    then have "is_heap key v" by (auto simp: is_heap_def)
    with False show ?thesis by (subst sift_down.simps) auto
  qed
qed

lemma is_heap_pq_pop:
  assumes "is_heap key v"
  shows "is_heap key (pq_pop key v)"
  unfolding pq_pop_def
proof (rule is_heap_sift_down)
  let ?w = "butlast (v[0 := last v])"
  have w: "?w ! j = v ! j" if "0 < j" "j < length v - 1" for j
    using that by (simp add: nth_butlast)
  show "down_inv key ?w 0"
    using assms unfolding down_inv_def is_heap_def
    by (auto simp: w)
qed

lemma heap_top_le:
  assumes "is_heap key v"
  shows "i < length v \<Longrightarrow> key (v ! 0) \<le> key (v ! i)"
proof (induction i rule: less_induct)
  case (less i)
  show ?case
  proof (cases "i = 0")
    case False
    then have "key (v ! 0) \<le> key (v ! ((i - 1) div 2))" using less by auto
    also have "\<dots> \<le> key (v ! i)" using assms less.prems False by (auto simp: is_heap_def)
    finally show ?thesis .
  qed simp
qed

section \<open>The interface\<close>

locale min_queue =
  fixes heap :: "('a \<Rightarrow> int) \<Rightarrow> 'a list \<Rightarrow> bool"
    and push :: "('a \<Rightarrow> int) \<Rightarrow> 'a \<Rightarrow> 'a list \<Rightarrow> 'a list"
    and pop :: "('a \<Rightarrow> int) \<Rightarrow> 'a list \<Rightarrow> 'a list"
  assumes heap_nil: "heap key []"
    and mset_push: "mset (push key x v) = add_mset x (mset v)"
    and mset_pop: "v \<noteq> [] \<Longrightarrow> mset (pop key v) = mset v - {#hd v#}"
    and heap_push: "heap key v \<Longrightarrow> heap key (push key x v)"
    and heap_pop: "heap key v \<Longrightarrow> heap key (pop key v)"
    and heap_top: "heap key v \<Longrightarrow> x \<in> set v \<Longrightarrow> key (hd v) \<le> key x"
begin

lemma length_pop: "v \<noteq> [] \<Longrightarrow> length (pop key v) = length v - 1"
  by (metis mset_pop size_mset size_Diff_singleton hd_in_set set_mset_mset)

lemma length_push: "length (push key x v) = Suc (length v)"
  by (metis mset_push size_mset size_add_mset)

lemma set_push: "set (push key x v) = insert x (set v)"
  by (metis mset_push set_mset_add_mset_insert set_mset_mset)

lemma mset_pop_Cons: "mset (pop key (x # v)) = mset v"
  by (simp add: mset_pop)

end

interpretation std: min_queue is_heap pq_push pq_pop
proof
  fix key :: "'a \<Rightarrow> int" and v :: "'a list" and x
  show "is_heap key []" by (simp add: is_heap_def)
  show "mset (pq_push key x v) = add_mset x (mset v)" by (rule mset_pq_push)
  show "mset (pq_pop key v) = mset v - {#hd v#}" if "v \<noteq> []" using that by (rule mset_pq_pop)
  show "is_heap key (pq_push key x v)" if "is_heap key v" using that by (rule is_heap_pq_push)
  show "is_heap key (pq_pop key v)" if "is_heap key v" using that by (rule is_heap_pq_pop)
  show "key (hd v) \<le> key x" if "is_heap key v" "x \<in> set v"
  proof -
    obtain i where "i < length v" "v ! i = x" using \<open>x \<in> set v\<close> by (auto simp: in_set_conv_nth)
    moreover have "v \<noteq> []" using \<open>x \<in> set v\<close> by auto
    ultimately show ?thesis using heap_top_le [OF that(1)] by (metis hd_conv_nth)
  qed
qed

end
