(* ===== verification/HeapTimer.thy ===== *)
theory HeapTimer
  imports StdHeap
begin

text \<open>
  The timer container of \<open>inc/heap_timer.h\<close>. A timer is an object on the C++ heap, so the
  model keeps the live timers in \<open>store\<close>, by address, and the priority queue \<open>m_pq\<close> holds
  addresses. The server changes a timer's \<open>expire\<close> while its address is in the queue: the
  order of the queue is then wrong until \<open>adjust_timer\<close> has rebuilt it, which is why the lemmas
  on \<open>del_timer\<close> make no assumption on the order. The callback's state is a type parameter.
\<close>

section \<open>The classes\<close>

record 's util_timer =
  expire :: int
  cb_func :: "nat \<Rightarrow> 's \<Rightarrow> 's res"
  user_data :: nat          \<comment> \<open>the entry of \<open>users_timer\<close> it points to\<close>

record 's HeapTimer =
  m_pq :: "nat list"
  store :: "nat \<rightharpoonup> 's util_timer"

text \<open>\<open>timer_cmp\<close> compares the \<open>expire\<close> fields, least first.\<close>

definition timer_key :: "(nat \<rightharpoonup> 's util_timer) \<Rightarrow> nat \<Rightarrow> int" where
  "timer_key st a = (case st a of None \<Rightarrow> 0 | Some t \<Rightarrow> expire t)"

definition live :: "'s HeapTimer \<Rightarrow> bool" where
  "live H \<longleftrightarrow> list_all (\<lambda>a. store H a \<noteq> None) (m_pq H)"

definition heap_timer_new :: "'s HeapTimer" where
  "heap_timer_new = \<lparr>m_pq = [], store = Map.empty\<rparr>"

section \<open>Its operations\<close>

definition add_timer :: "nat \<Rightarrow> 's HeapTimer \<Rightarrow> 's HeapTimer res" where
  "add_timer timer H =
     (if live H \<and> store H timer \<noteq> None
      then Inr (H\<lparr>m_pq := pq_push (timer_key (store H)) timer (m_pq H)\<rparr>)
      else Inl UseAfterFree)"

text \<open>
  The loop of \<open>del_timer\<close> that empties the queue into \<open>vec\<close>, leaving the timer out. Its bound is
  the size of the queue: each round pops one element, so the rest it returns is empty.
\<close>

fun drain :: "('a list \<Rightarrow> 'a list) \<Rightarrow> 'a \<Rightarrow> nat \<Rightarrow> 'a list \<Rightarrow> 'a list \<Rightarrow> 'a list \<times> 'a list" where
  "drain pop timer 0 v vec = (vec, v)"
| "drain pop timer (Suc n) v vec =
     (case v of
        [] \<Rightarrow> (vec, v)
      | x # _ \<Rightarrow> drain pop timer n (pop v) (if x \<noteq> timer then vec @ [x] else vec))"

definition rebuild :: "('a \<Rightarrow> 'a list \<Rightarrow> 'a list) \<Rightarrow> ('a list \<Rightarrow> 'a list) \<Rightarrow> 'a \<Rightarrow> 'a list \<Rightarrow> 'a list" where
  "rebuild push pop timer v =
     (let (vec, rest) = drain pop timer (length v) v [] in fold push vec rest)"

text \<open>\<open>vec.reserve(m_pq.size() - 1)\<close> of an empty queue asks for the largest \<open>size_t\<close> and throws.\<close>

definition del_timer :: "nat \<Rightarrow> 's HeapTimer \<Rightarrow> 's HeapTimer res" where
  "del_timer timer H =
     (if m_pq H = [] then Inl Thrown
      else if live H
      then Inr (H\<lparr>m_pq := rebuild (pq_push (timer_key (store H))) (pq_pop (timer_key (store H)))
                             timer (m_pq H)\<rparr>)
      else Inl UseAfterFree)"

definition adjust_timer :: "nat \<Rightarrow> 's HeapTimer \<Rightarrow> 's HeapTimer res" where
  "adjust_timer timer H = andThen (del_timer timer H) (add_timer timer)"

text \<open>
  The loop of \<open>tick\<close>, bounded by the size of the queue: each round pops one timer. The callback
  runs before the timer is deleted.
\<close>

fun tick_loop :: "nat \<Rightarrow> int \<Rightarrow> 's HeapTimer \<Rightarrow> 's \<Rightarrow> ('s HeapTimer \<times> 's) res" where
  "tick_loop 0 cur H s = Inr (H, s)"
| "tick_loop (Suc n) cur H s =
     (case m_pq H of
        [] \<Rightarrow> Inr (H, s)
      | tmp # _ \<Rightarrow>
          (case store H tmp of
             None \<Rightarrow> Inl UseAfterFree
           | Some t \<Rightarrow>
               (if expire t \<le> cur
                then andThen (cb_func t (user_data t) s) (\<lambda>s'.
                       tick_loop n cur
                         (H\<lparr>m_pq := pq_pop (timer_key (store H)) (m_pq H),
                            store := (store H)(tmp := None)\<rparr>) s')
                else Inr (H, s))))"

text \<open>\<open>log\<close> is the effect of the two calls on the logger.\<close>

definition tick :: "(string \<Rightarrow> 's \<Rightarrow> 's) \<Rightarrow> int \<Rightarrow> 's HeapTimer \<Rightarrow> 's \<Rightarrow> ('s HeapTimer \<times> 's) res" where
  "tick log cur H s =
     (let s = log ''timer tick'' s
      in if live H then tick_loop (length (m_pq H)) cur H s else Inl UseAfterFree)"

text \<open>\<open>~HeapTimer\<close> deletes every timer of the queue.\<close>

fun delete_all :: "nat \<Rightarrow> 's HeapTimer \<Rightarrow> 's HeapTimer res" where
  "delete_all 0 H = Inr H"
| "delete_all (Suc n) H =
     (case m_pq H of
        [] \<Rightarrow> Inr H
      | tmp # _ \<Rightarrow>
          (if store H tmp = None then Inl UseAfterFree
           else delete_all n (H\<lparr>m_pq := pq_pop (timer_key (store H)) (m_pq H),
                                store := (store H)(tmp := None)\<rparr>)))"

definition heap_timer_delete :: "'s HeapTimer \<Rightarrow> 's HeapTimer res" where
  "heap_timer_delete H = delete_all (length (m_pq H)) H"

section \<open>Lemmas for every priority queue\<close>

context min_queue
begin

lemma drain_pops:
  "length v \<le> n \<Longrightarrow> \<exists>ys. drain (pop key) t n v vec = (vec @ ys, []) \<and>
     mset ys = filter_mset (\<lambda>x. x \<noteq> t) (mset v)"
proof (induction n arbitrary: v vec)
  case 0
  then show ?case by simp
next
  case (Suc n)
  show ?case
  proof (cases v)
    case Nil
    then show ?thesis by simp
  next
    case (Cons x xs)
    have l: "length (pop key v) \<le> n" using Suc.prems Cons length_pop [of v key] by simp
    have m: "mset (pop key v) = mset xs" using Cons by (simp add: mset_pop_Cons)
    obtain ys where "drain (pop key) t n (pop key v) (if x \<noteq> t then vec @ [x] else vec) =
        ((if x \<noteq> t then vec @ [x] else vec) @ ys, [])"
      "mset ys = filter_mset (\<lambda>x. x \<noteq> t) (mset xs)"
      using Suc.IH [OF l] m by metis
    then show ?thesis using Cons
      by (intro exI [of _ "if x \<noteq> t then x # ys else ys"]) auto
  qed
qed

lemma fold_push:
  "heap key v \<Longrightarrow> heap key (fold (push key) xs v) \<and> mset (fold (push key) xs v) = mset xs + mset v"
  by (induction xs arbitrary: v) (auto simp: heap_push mset_push)

lemma rebuild_spec:
  "heap key (rebuild (push key) (pop key) t v) \<and>
   mset (rebuild (push key) (pop key) t v) = filter_mset (\<lambda>x. x \<noteq> t) (mset v)"
proof -
  obtain ys where "drain (pop key) t (length v) v [] = (ys, [])"
    "mset ys = filter_mset (\<lambda>x. x \<noteq> t) (mset v)"
    using drain_pops [of v "length v" key t "[]"] by auto
  then show ?thesis
    using fold_push [OF heap_nil [of key], of ys] by (simp add: rebuild_def)
qed

end

section \<open>Invariant\<close>

text \<open>
  Between two events of the server: each queued timer is live, no timer is queued twice and
  the queue is in order.
\<close>

definition timers_ok :: "'s HeapTimer \<Rightarrow> bool" where
  "timers_ok H \<longleftrightarrow> live H \<and> distinct (m_pq H) \<and> is_heap (timer_key (store H)) (m_pq H)"

lemma live_iff: "live H \<longleftrightarrow> (\<forall>a \<in> set (m_pq H). \<exists>t. store H a = Some t)"
  by (auto simp: live_def list_all_iff)

lemma set_rebuild:
  "set (rebuild (pq_push key) (pq_pop key) t v) = set v - {t}"
proof -
  have "set_mset (mset (rebuild (pq_push key) (pq_pop key) t v)) =
      set_mset (filter_mset (\<lambda>x. x \<noteq> t) (mset v))"
    using std.rebuild_spec [of key t v] by simp
  then show ?thesis by auto
qed

lemma distinct_rebuild:
  assumes "distinct v"
  shows "distinct (rebuild (pq_push key) (pq_pop key) t v)"
proof -
  have "mset (rebuild (pq_push key) (pq_pop key) t v) = mset (filter (\<lambda>x. x \<noteq> t) v)"
    using std.rebuild_spec [of key t v] by simp
  then have "distinct (rebuild (pq_push key) (pq_pop key) t v) = distinct (filter (\<lambda>x. x \<noteq> t) v)"
    by (rule mset_eq_imp_distinct_iff)
  with assms show ?thesis by simp
qed

lemma del_timer_ok:
  assumes "live H" and "distinct (m_pq H)" and "m_pq H \<noteq> []"
  shows "\<exists>H'. del_timer timer H = Inr H' \<and> timers_ok H' \<and> store H' = store H \<and>
    set (m_pq H') = set (m_pq H) - {timer}"
  using assms std.rebuild_spec [of "timer_key (store H)" timer "m_pq H"]
  by (auto simp: del_timer_def timers_ok_def live_iff set_rebuild distinct_rebuild)

lemma add_timer_ok:
  assumes "timers_ok H" and "store H timer = Some t" and "timer \<notin> set (m_pq H)"
  shows "\<exists>H'. add_timer timer H = Inr H' \<and> timers_ok H' \<and> store H' = store H \<and>
    set (m_pq H') = insert timer (set (m_pq H))"
proof -
  let ?v = "pq_push (timer_key (store H)) timer (m_pq H)"
  have "mset ?v = mset (timer # m_pq H)" by (simp add: std.mset_push)
  then have "distinct ?v = distinct (timer # m_pq H)" by (rule mset_eq_imp_distinct_iff)
  with assms std.heap_push [of "timer_key (store H)" "m_pq H" timer] show ?thesis
    by (auto simp: add_timer_def timers_ok_def live_iff std.set_push)
qed

lemma adjust_timer_ok:
  assumes "live H" and "distinct (m_pq H)" and "timer \<in> set (m_pq H)"
  shows "\<exists>H'. adjust_timer timer H = Inr H' \<and> timers_ok H' \<and> store H' = store H \<and>
    set (m_pq H') = set (m_pq H)"
proof -
  have n: "m_pq H \<noteq> []" using assms(3) by auto
  obtain H1 where 1: "del_timer timer H = Inr H1" "timers_ok H1" "store H1 = store H"
    "set (m_pq H1) = set (m_pq H) - {timer}"
    using del_timer_ok [OF assms(1,2) n] by blast
  obtain t where "store H1 timer = Some t" using assms(1,3) 1(3) by (auto simp: live_iff)
  with 1(4) add_timer_ok [OF 1(2), of timer t] obtain H2 where "add_timer timer H1 = Inr H2" "timers_ok H2"
    "store H2 = store H1" "set (m_pq H2) = insert timer (set (m_pq H1))" by blast
  with 1 assms(3) show ?thesis by (auto simp: adjust_timer_def)
qed

section \<open>Expiry\<close>

text \<open>The callbacks of a list of timers, run one after the other.\<close>

fun run_callbacks :: "(nat \<rightharpoonup> 's util_timer) \<Rightarrow> nat list \<Rightarrow> 's \<Rightarrow> 's res" where
  "run_callbacks st [] s = Inr s"
| "run_callbacks st (a # as) s =
     (case st a of None \<Rightarrow> Inl UseAfterFree
      | Some t \<Rightarrow> andThen (cb_func t (user_data t) s) (run_callbacks st as))"

lemma timer_key_other: "a \<noteq> b \<Longrightarrow> timer_key (st(a := None)) b = timer_key st b"
  by (simp add: timer_key_def)

lemma is_heap_key_cong:
  assumes "\<And>x. x \<in> set v \<Longrightarrow> key x = key' x"
  shows "is_heap key v \<longleftrightarrow> is_heap key' v"
proof -
  have "key (v ! ((i - 1) div 2)) = key' (v ! ((i - 1) div 2))" "key (v ! i) = key' (v ! i)"
    if "i \<in> {1..<length v}" for i
    using that by (auto intro!: assms nth_mem)
  then show ?thesis unfolding is_heap_def by (intro ball_cong) auto
qed

lemma run_callbacks_cong:
  "(\<And>a. a \<in> set as \<Longrightarrow> st a = st' a) \<Longrightarrow> run_callbacks st as s = run_callbacks st' as s"
proof (induction as arbitrary: s)
  case (Cons a as)
  then have "run_callbacks st as = run_callbacks st' as" by (intro ext) auto
  with Cons.prems show ?case by (cases "st' a") simp_all
qed simp

lemma pop_step:
  assumes ok: "timers_ok H" and v: "m_pq H = tmp # rest"
  defines "H' \<equiv> H\<lparr>m_pq := pq_pop (timer_key (store H)) (m_pq H), store := (store H)(tmp := None)\<rparr>"
  shows "timers_ok H'" and "mset (m_pq H') = mset rest" and "tmp \<notin> set rest"
    and "\<forall>a \<in> set rest. store H' a = store H a \<and> timer_key (store H') a = timer_key (store H) a"
proof -
  have d: "distinct (tmp # rest)" using ok v by (simp add: timers_ok_def)
  show t: "tmp \<notin> set rest" using d by simp
  show m: "mset (m_pq H') = mset rest" by (simp add: H'_def v std.mset_pop_Cons)
  then have s: "set (m_pq H') = set rest" by (metis set_mset_mset)
  show k: "\<forall>a \<in> set rest. store H' a = store H a \<and> timer_key (store H') a = timer_key (store H) a"
    using t by (auto simp: H'_def timer_key_other)
  have "is_heap (timer_key (store H)) (m_pq H')"
    using ok v by (simp add: H'_def timers_ok_def std.heap_pop)
  then have "is_heap (timer_key (store H')) (m_pq H')"
    using k s is_heap_key_cong [of "m_pq H'" "timer_key (store H')" "timer_key (store H)"] by simp
  moreover have "distinct (m_pq H')"
    using mset_eq_imp_distinct_iff [OF m] d by simp
  moreover have "live H'" using ok v s k by (auto simp: live_iff timers_ok_def)
  ultimately show "timers_ok H'" by (simp add: timers_ok_def)
qed

lemma tick_loop_spec:
  "\<lbrakk>timers_ok H; length (m_pq H) \<le> n; tick_loop n cur H s = Inr (H', s')\<rbrakk> \<Longrightarrow>
   \<exists>fired. sorted (map (timer_key (store H)) fired) \<and> distinct fired \<and>
     set fired = {a \<in> set (m_pq H). timer_key (store H) a \<le> cur} \<and>
     run_callbacks (store H) fired s = Inr s' \<and>
     timers_ok H' \<and> set (m_pq H') = set (m_pq H) - set fired \<and>
     store H' = store H |` (- set fired)"
proof (induction n arbitrary: H s)
  case 0
  then show ?case by (intro exI [of _ "[]"]) (auto simp: timers_ok_def)
next
  case (Suc n)
  show ?case
  proof (cases "m_pq H")
    case Nil
    with Suc.prems show ?thesis by (intro exI [of _ "[]"]) (auto simp: timers_ok_def)
  next
    case (Cons tmp rest)
    have tmp: "tmp \<in> set (m_pq H)" using Cons by simp
    then obtain t where t: "store H tmp = Some t"
      using Suc.prems(1) by (auto simp: timers_ok_def live_iff)
    then have key: "timer_key (store H) tmp = expire t" by (simp add: timer_key_def)
    have least: "expire t \<le> timer_key (store H) a" if "a \<in> set (m_pq H)" for a
      using std.heap_top [of "timer_key (store H)" "m_pq H" a] that Suc.prems(1) Cons key
      by (simp add: timers_ok_def)
    show ?thesis
    proof (cases "expire t \<le> cur")
      case False
      with Suc.prems Cons t have "H' = H" "s' = s" by auto
      moreover have "{a \<in> set (m_pq H). timer_key (store H) a \<le> cur} = {}"
        using least False by force
      ultimately show ?thesis using Suc.prems(1) by (intro exI [of _ "[]"]) auto
    next
      case True
      let ?H = "H\<lparr>m_pq := pq_pop (timer_key (store H)) (m_pq H), store := (store H)(tmp := None)\<rparr>"
      note P = pop_step [OF Suc.prems(1) Cons]
      obtain s1 where s1: "cb_func t (user_data t) s = Inr s1" "tick_loop n cur ?H s1 = Inr (H', s')"
        using Suc.prems(3) Cons t True by auto
      have "length (m_pq ?H) \<le> n"
        using Suc.prems(2) Cons P(2) by (metis size_mset length_Cons Suc_le_mono)
      from Suc.IH [OF P(1) this s1(2)] obtain fired where f:
        "sorted (map (timer_key (store ?H)) fired)" "distinct fired"
        "set fired = {a \<in> set (m_pq ?H). timer_key (store ?H) a \<le> cur}"
        "run_callbacks (store ?H) fired s1 = Inr s'" "timers_ok H'"
        "set (m_pq H') = set (m_pq ?H) - set fired" "store H' = store ?H |` (- set fired)"
        by blast
      have sr: "set (m_pq ?H) = set rest" using P(2) by (metis set_mset_mset)
      have fr: "set fired \<subseteq> set rest" using f(3) sr by auto
      have keys: "map (timer_key (store ?H)) fired = map (timer_key (store H)) fired"
        using P(4) fr by (intro map_cong) auto
      have "sorted (map (timer_key (store H)) (tmp # fired))"
      proof -
        have "sorted (map (timer_key (store H)) fired)" using f(1) by (simp only: keys)
        then show ?thesis using least fr Cons key by auto
      qed
      moreover have "distinct (tmp # fired)" using f(2) fr P(3) by auto
      moreover have "set (tmp # fired) = {a \<in> set (m_pq H). timer_key (store H) a \<le> cur}"
        using f(3) sr P(4) Cons key True by auto
      moreover have "run_callbacks (store H) (tmp # fired) s = Inr s'"
      proof -
        have "run_callbacks (store ?H) fired s1 = run_callbacks (store H) fired s1"
          using fr P(4) by (intro run_callbacks_cong) blast
        with t s1(1) f(4) show ?thesis by simp
      qed
      moreover have "set (m_pq H') = set (m_pq H) - set (tmp # fired)"
        using f(6) sr Cons P(3) by auto
      moreover have "store H' = store H |` (- set (tmp # fired))"
        using f(7) by (auto simp: restrict_map_def fun_eq_iff)
      ultimately show ?thesis using f(5) by blast
    qed
  qed
qed

text \<open>A tick whose callbacks do not fault returns.\<close>

lemma tick_loop_total_inv:
  "\<lbrakk>timers_ok H; I s; \<And>a t s. \<lbrakk>a \<in> set (m_pq H); store H a = Some t; I s\<rbrakk> \<Longrightarrow>
      \<exists>s'. cb_func t (user_data t) s = Inr s' \<and> I s'\<rbrakk>
   \<Longrightarrow> ok (tick_loop n cur H s)"
proof (induction n arbitrary: H s)
  case 0
  then show ?case by simp
next
  case (Suc n)
  show ?case
  proof (cases "m_pq H")
    case (Cons tmp rest)
    then obtain t where t: "store H tmp = Some t"
      using Suc.prems(1) by (auto simp: timers_ok_def live_iff)
    with Cons Suc.prems(2) Suc.prems(3) [of tmp t s] obtain s1 where
      s1: "cb_func t (user_data t) s = Inr s1" "I s1" by auto
    let ?H = "H\<lparr>m_pq := pq_pop (timer_key (store H)) (m_pq H), store := (store H)(tmp := None)\<rparr>"
    note P = pop_step [OF Suc.prems(1) Cons]
    have sr: "set (m_pq ?H) = set rest" using P(2) by (metis set_mset_mset)
    have "\<exists>z'. cb_func u (user_data u) z = Inr z' \<and> I z'"
      if "a \<in> set (m_pq ?H)" "store ?H a = Some u" "I z" for a u z
      using that sr P(4) Cons Suc.prems(3) [of a u z] by auto
    then have "ok (tick_loop n cur ?H s1)" using P(1) s1(2) by (intro Suc.IH)
    with Cons t s1 show ?thesis by simp
  qed simp
qed

lemma tick_loop_total:
  "\<lbrakk>timers_ok H; \<And>a t s. a \<in> set (m_pq H) \<Longrightarrow> store H a = Some t \<Longrightarrow> ok (cb_func t (user_data t) s)\<rbrakk>
   \<Longrightarrow> ok (tick_loop n cur H s)"
  by (rule tick_loop_total_inv [where I = "\<lambda>_. True"]) (simp_all add: ok_iff)

text \<open>No queued timer's callback faults.\<close>

definition callbacks_ok :: "'s HeapTimer \<Rightarrow> bool" where
  "callbacks_ok H \<longleftrightarrow>
     (\<forall>a \<in> set (m_pq H). \<forall>t z. store H a = Some t \<longrightarrow> ok (cb_func t (user_data t) z))"

section \<open>Properties\<close>

text \<open>\<open>del_timer\<close> takes exactly its timer out of the queue and leaves the queue in order,
  also when the queue it starts from is not in order because a key was changed.\<close>

lemma del_timer_any_order:
  assumes "live H" and "distinct (m_pq H)" and "m_pq H \<noteq> []"
  shows "\<exists>H'. del_timer timer H = Inr H' \<and> store H' = store H \<and>
    mset (m_pq H') = filter_mset (\<lambda>a. a \<noteq> timer) (mset (m_pq H)) \<and>
    is_heap (timer_key (store H)) (m_pq H')"
  using assms std.rebuild_spec [of "timer_key (store H)" timer "m_pq H"]
  by (simp add: del_timer_def)

lemma del_timer_any_order_witness:
  "let st = [10 \<mapsto> \<lparr>expire = 9, cb_func = \<lambda>_ s. Inr s, user_data = 4\<rparr>,
             11 \<mapsto> \<lparr>expire = 3, cb_func = \<lambda>_ s. Inr s, user_data = 5\<rparr>] :: nat \<rightharpoonup> unit util_timer
   in \<not> is_heap (timer_key st) [10, 11] \<and>
      (\<exists>H'. del_timer 10 \<lparr>m_pq = [10, 11], store = st\<rparr> = Inr H' \<and> mset (m_pq H') = {#11#})"
proof -
  let ?st = "[10 \<mapsto> \<lparr>expire = 9, cb_func = \<lambda>_ s. Inr s, user_data = 4\<rparr>,
      11 \<mapsto> \<lparr>expire = 3, cb_func = \<lambda>_ s. Inr s, user_data = 5\<rparr>] :: nat \<rightharpoonup> unit util_timer"
  have "\<not> is_heap (timer_key ?st) [10, 11]"
    by (auto simp: is_heap_def timer_key_def intro!: bexI [of _ "1::nat"])
  moreover have "\<exists>H'. del_timer 10 \<lparr>m_pq = [10, 11], store = ?st\<rparr> = Inr H' \<and> mset (m_pq H') = {#11#}"
    using del_timer_any_order [of "\<lparr>m_pq = [10, 11], store = ?st\<rparr>" 10]
    by (auto simp: live_iff)
  ultimately show ?thesis by (simp only: Let_def simp_thms)
qed

text \<open>The way the server postpones a timer. It first changes \<open>expire\<close> in place, which breaks
  the order of the queue, and then calls \<open>adjust_timer\<close>: afterwards the queue is in order for the
  new times and holds the same timers.\<close>

lemma adjust_timer_restores:
  assumes "timers_ok H" and "timer \<in> set (m_pq H)" and "store H timer = Some t"
  shows "\<exists>H'. adjust_timer timer (H\<lparr>store := (store H)(timer \<mapsto> t\<lparr>expire := e\<rparr>)\<rparr>) = Inr H' \<and>
    timers_ok H' \<and> mset (m_pq H') = mset (m_pq H) \<and>
    store H' = (store H)(timer \<mapsto> t\<lparr>expire := e\<rparr>)"
proof -
  let ?H = "H\<lparr>store := (store H)(timer \<mapsto> t\<lparr>expire := e\<rparr>)\<rparr>"
  have "live ?H" "distinct (m_pq ?H)" "timer \<in> set (m_pq ?H)"
    using assms by (auto simp: timers_ok_def live_iff)
  then obtain H' where H': "adjust_timer timer ?H = Inr H'" "timers_ok H'" "store H' = store ?H"
    "set (m_pq H') = set (m_pq ?H)" using adjust_timer_ok by blast
  moreover have "mset (m_pq H') = mset (m_pq H)"
    using H'(2,4) assms(1) by (simp add: timers_ok_def set_eq_iff_mset_eq_distinct)
  ultimately show ?thesis by auto
qed

lemma adjust_timer_restores_witness:
  "let t = \<lparr>expire = 1, cb_func = \<lambda>_ s. Inr s, user_data = 4\<rparr>;
       st = [10 \<mapsto> t, 11 \<mapsto> t\<lparr>expire := 3\<rparr>] :: nat \<rightharpoonup> unit util_timer
   in \<exists>H'. adjust_timer 10 \<lparr>m_pq = [10, 11], store = st(10 \<mapsto> t\<lparr>expire := 20\<rparr>)\<rparr> = Inr H' \<and>
        timers_ok H' \<and> mset (m_pq H') = {#10, 11#}"
proof -
  let ?t = "\<lparr>expire = 1, cb_func = \<lambda>_ s. Inr s, user_data = 4\<rparr> :: unit util_timer"
  let ?H = "\<lparr>m_pq = [10, 11], store = [10 \<mapsto> ?t, 11 \<mapsto> ?t\<lparr>expire := 3\<rparr>]\<rparr> :: unit HeapTimer"
  have i: "{1..<Suc (Suc 0)} = {1}" by auto
  have "timers_ok ?H" by (simp add: timers_ok_def live_iff is_heap_def timer_key_def i)
  from adjust_timer_restores [OF this, of 10 ?t 20] show ?thesis
    by (simp add: Let_def) blast
qed

text \<open>A tick fires exactly the timers whose time has come, in the order of their times, each
  callback once, and deletes them; the other timers stay queued, in order and alive.\<close>

lemma tick_fires_expired:
  assumes "timers_ok H" and "callbacks_ok H"
  shows "\<exists>H' s' fired. tick log cur H s = Inr (H', s') \<and>
    distinct fired \<and> sorted (map (timer_key (store H)) fired) \<and>
    set fired = {a \<in> set (m_pq H). timer_key (store H) a \<le> cur} \<and>
    run_callbacks (store H) fired (log ''timer tick'' s) = Inr s' \<and>
    timers_ok H' \<and> set (m_pq H') = {a \<in> set (m_pq H). cur < timer_key (store H) a} \<and>
    store H' = store H |` (- set fired)"
proof -
  have "ok (tick_loop (length (m_pq H)) cur H (log ''timer tick'' s))"
    using assms by (intro tick_loop_total) (auto simp: callbacks_ok_def)
  then obtain H' s' where r: "tick_loop (length (m_pq H)) cur H (log ''timer tick'' s) = Inr (H', s')"
    by (auto simp: ok_iff)
  moreover have "tick log cur H s = Inr (H', s')"
    using r assms(1) by (simp add: tick_def Let_def timers_ok_def)
  ultimately show ?thesis using tick_loop_spec [OF assms(1) order_refl r] by fastforce
qed

lemma tick_fires_expired_witness:
  "let t = \<lparr>expire = 1, cb_func = \<lambda>u s. Inr (s @ [u]), user_data = 4\<rparr>;
       st = [10 \<mapsto> t, 11 \<mapsto> t\<lparr>expire := 3, user_data := 5\<rparr>] :: nat \<rightharpoonup> nat list util_timer
   in \<exists>H' s' fired. tick (\<lambda>_ s. s) 2 \<lparr>m_pq = [10, 11], store = st\<rparr> [] = Inr (H', s') \<and>
        set fired = {a \<in> {10, 11}. timer_key st a \<le> 2} \<and> run_callbacks st fired [] = Inr s'"
proof -
  let ?t = "\<lparr>expire = 1, cb_func = \<lambda>u s. Inr (s @ [u]), user_data = 4\<rparr> :: nat list util_timer"
  let ?st = "[10 \<mapsto> ?t, 11 \<mapsto> ?t\<lparr>expire := 3, user_data := 5\<rparr>]"
  let ?H = "\<lparr>m_pq = [10, 11], store = ?st\<rparr> :: nat list HeapTimer"
  have i: "{1..<Suc (Suc 0)} = {1}" by auto
  have 1: "timers_ok ?H" by (simp add: timers_ok_def live_iff is_heap_def timer_key_def i)
  have 2: "callbacks_ok ?H" by (auto simp: callbacks_ok_def)
  from tick_fires_expired [OF 1 2, where log = "\<lambda>_ s. s" and cur = 2 and s = "[]"] show ?thesis
    by (simp add: Let_def) blast
qed

end
