(* ===== verification/SqlPool.thy ===== *)
theory SqlPool
  imports Locker "HOL-Library.Word" "HOL-Library.Multiset"
begin

text \<open>
  The database connection pool of \<open>src/MysqlPool/sql_connection_pool.cpp\<close>: a list of free
  connections under a mutex, a semaphore that counts them and three \<open>unsigned int\<close> counters.
  \<open>GetConnection\<close> and \<open>ReleaseConnection\<close> are split at the points where another thread can
  run; the step relation \<open>pool_step\<close> interleaves any number of threads. The MySQL client
  library is a parameter.
\<close>

section \<open>The class\<close>

record 'c connection_pool =
  MaxConn :: "32 word"
  CurConn :: "32 word"
  FreeConn :: "32 word"
  lock :: locker
  connList :: "'c list"
  reserve :: sem
  url :: string
  Port :: string
  User :: string
  PassWord :: string
  DatabaseName :: string

definition connection_pool_new :: "'c connection_pool" where
  "connection_pool_new =
     \<lparr>MaxConn = 0, CurConn = 0, FreeConn = 0, lock = locker_new, connList = [],
      reserve = sem_new 0, url = [], Port = [], User = [], PassWord = [], DatabaseName = []\<rparr>"

text \<open>
  The loop of \<open>init\<close>: \<open>mysql_init\<close> and \<open>mysql_real_connect\<close> are the results of the library's
  calls in round \<open>i\<close>; a null result ends the process.
\<close>

fun init_loop :: "(nat \<Rightarrow> 'c option) \<Rightarrow> (nat \<Rightarrow> 'c \<Rightarrow> 'c option) \<Rightarrow> nat \<Rightarrow> nat \<Rightarrow>
    'c connection_pool \<Rightarrow> 'c connection_pool res" where
  "init_loop mysql_init mysql_real_connect 0 i p = Inr p"
| "init_loop mysql_init mysql_real_connect (Suc n) i p =
     (case mysql_init i of
        None \<Rightarrow> Inl (ProcessExit 1)
      | Some con \<Rightarrow>
          (case mysql_real_connect i con of
             None \<Rightarrow> Inl (ProcessExit 1)
           | Some con \<Rightarrow>
               init_loop mysql_init mysql_real_connect n (Suc i)
                 (p\<lparr>connList := connList p @ [con], FreeConn := FreeConn p + 1\<rparr>)))"

text \<open>The assignment of an \<open>int\<close> to the \<open>string\<close> member \<open>Port\<close> stores one character.\<close>

definition char_of_int :: "int \<Rightarrow> char" where
  "char_of_int n = char_of (nat (n mod 256))"

definition pool_init :: "(nat \<Rightarrow> 'c option) \<Rightarrow> (nat \<Rightarrow> 'c \<Rightarrow> 'c option) \<Rightarrow>
    string \<Rightarrow> string \<Rightarrow> string \<Rightarrow> string \<Rightarrow> int \<Rightarrow> 32 word \<Rightarrow>
    'c connection_pool \<Rightarrow> 'c connection_pool res" where
  "pool_init mysql_init mysql_real_connect u usr pw db port maxconn p =
     (let p = p\<lparr>url := u, Port := [char_of_int port], User := usr, PassWord := pw, DatabaseName := db\<rparr>
      in andThen (locker_lock (lock p)) (\<lambda>l.
         andThen (init_loop mysql_init mysql_real_connect (unat maxconn) 0
                    (p\<lparr>lock := l, FreeConn := 0\<rparr>)) (\<lambda>p.
         let p = p\<lparr>reserve := sem_new (unat (FreeConn p)), MaxConn := FreeConn p\<rparr>
         in andThen (locker_unlock (lock p)) (\<lambda>l. Inr (p\<lparr>lock := l\<rparr>)))))"

text \<open>\<open>GetConnection\<close>: the unguarded test of the list, the wait, and the critical section.\<close>

definition get_check :: "'c connection_pool \<Rightarrow> bool" where
  "get_check p \<longleftrightarrow> 0 \<noteq> length (connList p)"

definition get_take :: "'c connection_pool \<Rightarrow> ('c \<times> 'c connection_pool) res" where
  "get_take p =
     andThen (locker_lock (lock p)) (\<lambda>l.
       case connList p of
         [] \<Rightarrow> Inl EmptyContainer
       | con # rest \<Rightarrow>
           andThen (locker_unlock l) (\<lambda>l.
             Inr (con, p\<lparr>connList := rest, FreeConn := FreeConn p - 1,
                         CurConn := CurConn p + 1, lock := l\<rparr>)))"

text \<open>The whole call by one thread alone: \<open>None\<close> when the wait blocks it.\<close>

definition GetConnection :: "'c connection_pool \<Rightarrow> ('c option \<times> 'c connection_pool) res option" where
  "GetConnection p =
     (if \<not> get_check p then Some (Inr (None, p))
      else case sem_wait (reserve p) of
             None \<Rightarrow> None
           | Some v \<Rightarrow> Some (andThen (get_take (p\<lparr>reserve := v\<rparr>)) (\<lambda>(con, p). Inr (Some con, p))))"

text \<open>\<open>ReleaseConnection\<close>: the critical section, then the post.\<close>

definition release_put :: "'c \<Rightarrow> 'c connection_pool \<Rightarrow> 'c connection_pool res" where
  "release_put con p =
     andThen (locker_lock (lock p)) (\<lambda>l.
     andThen (locker_unlock l) (\<lambda>l.
       Inr (p\<lparr>connList := connList p @ [con], FreeConn := FreeConn p + 1,
              CurConn := CurConn p - 1, lock := l\<rparr>)))"

definition release_post :: "'c connection_pool \<Rightarrow> 'c connection_pool" where
  "release_post p = p\<lparr>reserve := sem_post (reserve p)\<rparr>"

definition ReleaseConnection :: "'c option \<Rightarrow> 'c connection_pool \<Rightarrow> (bool \<times> 'c connection_pool) res" where
  "ReleaseConnection con p =
     (case con of
        None \<Rightarrow> Inr (False, p)
      | Some c \<Rightarrow> andThen (release_put c p) (\<lambda>p. Inr (True, release_post p)))"

text \<open>
  \<open>DestroyPool\<close>: the connections are closed in order (the second result). The unlock inside the
  \<open>if\<close> and the one behind it both run when the list is not empty.
\<close>

definition DestroyPool :: "'c connection_pool \<Rightarrow> ('c connection_pool \<times> 'c list) res" where
  "DestroyPool p =
     andThen (locker_lock (lock p)) (\<lambda>l.
       andThen
         (if length (connList p) > 0
          then andThen (locker_unlock l) (\<lambda>l.
                 Inr (p\<lparr>CurConn := 0, FreeConn := 0, connList := [], lock := l\<rparr>, connList p))
          else Inr (p\<lparr>lock := l\<rparr>, []))
         (\<lambda>(p, closed). andThen (locker_unlock (lock p)) (\<lambda>l. Inr (p\<lparr>lock := l\<rparr>, closed))))"

definition GetFreeConn :: "'c connection_pool \<Rightarrow> 32 word" where
  "GetFreeConn p = FreeConn p"

text \<open>\<open>connectionRAII\<close> holds the connection its constructor took; its destructor releases it.\<close>

definition connectionRAII_new :: "'c connection_pool \<Rightarrow> ('c option \<times> 'c connection_pool) res option" where
  "connectionRAII_new p = GetConnection p"

definition connectionRAII_delete :: "'c option \<Rightarrow> 'c connection_pool \<Rightarrow> 'c connection_pool res" where
  "connectionRAII_delete conRAII p = andThen (ReleaseConnection conRAII p) (\<lambda>(_, p). Inr p)"

section \<open>Threads\<close>

datatype 'c pool_pc =
    Outside          \<comment> \<open>not in a call\<close>
  | Checked          \<comment> \<open>saw the list not empty, about to wait\<close>
  | Reserved         \<comment> \<open>past the wait, about to enter the critical section\<close>
  | Using 'c         \<comment> \<open>holds a connection\<close>
  | Posting          \<comment> \<open>has put its connection back, about to post\<close>
  | GotNull          \<comment> \<open>\<open>GetConnection\<close> returned \<open>NULL\<close>\<close>

record 'c pool_sys =
  pool :: "'c connection_pool"
  pcs :: "'c pool_pc list"

inductive pool_step :: "'c pool_sys \<Rightarrow> 'c pool_sys \<Rightarrow> bool" where
  check_ok: "\<lbrakk>i < length (pcs s); pcs s ! i = Outside; get_check (pool s)\<rbrakk> \<Longrightarrow>
     pool_step s (s\<lparr>pcs := (pcs s)[i := Checked]\<rparr>)"
| check_null: "\<lbrakk>i < length (pcs s); pcs s ! i = Outside; \<not> get_check (pool s)\<rbrakk> \<Longrightarrow>
     pool_step s (s\<lparr>pcs := (pcs s)[i := GotNull]\<rparr>)"
| wait: "\<lbrakk>i < length (pcs s); pcs s ! i = Checked; sem_wait (reserve (pool s)) = Some v\<rbrakk> \<Longrightarrow>
     pool_step s (s\<lparr>pool := (pool s)\<lparr>reserve := v\<rparr>, pcs := (pcs s)[i := Reserved]\<rparr>)"
| take: "\<lbrakk>i < length (pcs s); pcs s ! i = Reserved; get_take (pool s) = Inr (c, p)\<rbrakk> \<Longrightarrow>
     pool_step s (s\<lparr>pool := p, pcs := (pcs s)[i := Using c]\<rparr>)"
| put: "\<lbrakk>i < length (pcs s); pcs s ! i = Using c; release_put c (pool s) = Inr p\<rbrakk> \<Longrightarrow>
     pool_step s (s\<lparr>pool := p, pcs := (pcs s)[i := Posting]\<rparr>)"
| post: "\<lbrakk>i < length (pcs s); pcs s ! i = Posting\<rbrakk> \<Longrightarrow>
     pool_step s (s\<lparr>pool := release_post (pool s), pcs := (pcs s)[i := Outside]\<rparr>)"
| release_null: "\<lbrakk>i < length (pcs s); pcs s ! i = GotNull\<rbrakk> \<Longrightarrow>
     pool_step s (s\<lparr>pcs := (pcs s)[i := Outside]\<rparr>)"

text \<open>The states \<open>n\<close> threads reach from a pool that \<open>init\<close> has filled.\<close>

inductive pool_reach :: "'c connection_pool \<Rightarrow> nat \<Rightarrow> 'c pool_sys \<Rightarrow> bool"
  for p n where
  start: "pool_reach p n \<lparr>pool = p, pcs = replicate n Outside\<rparr>"
| step: "pool_reach p n s \<Longrightarrow> pool_step s t \<Longrightarrow> pool_reach p n t"

inductive_simps pool_step_iff: "pool_step s t"

section \<open>Invariant\<close>

definition held :: "'c pool_pc \<Rightarrow> 'c list" where
  "held pc = (case pc of Using c \<Rightarrow> [c] | _ \<Rightarrow> [])"

definition busy :: "'c pool_pc list \<Rightarrow> 'c list" where
  "busy ps = concat (map held ps)"

abbreviation count_pc :: "'c pool_pc \<Rightarrow> 'c pool_pc list \<Rightarrow> nat" where
  "count_pc pc ps \<equiv> count_list ps pc"

definition pool_inv :: "'c multiset \<Rightarrow> 'c pool_sys \<Rightarrow> bool" where
  "pool_inv cs s \<longleftrightarrow>
     lock (pool s) = Free \<and>
     mset (connList (pool s)) + mset (busy (pcs s)) = cs \<and>
     length (connList (pool s)) =
       reserve (pool s) + count_pc Reserved (pcs s) + count_pc Posting (pcs s) \<and>
     FreeConn (pool s) = of_nat (length (connList (pool s))) \<and>
     CurConn (pool s) = of_nat (length (busy (pcs s)))"

lemma held_simps [simp]:
  "held Outside = []" "held Checked = []" "held Reserved = []" "held Posting = []"
  "held GotNull = []" "held (Using c) = [c]"
  by (simp_all add: held_def)

text \<open>The counts with the thread's own state in front, so that arithmetic closes each step.\<close>

lemma upd:
  assumes "i < length ps"
  shows "mset (busy (ps[i := pc])) + mset (held (ps ! i)) = mset (busy ps) + mset (held pc)"
    and "length (busy (ps[i := pc])) + length (held (ps ! i)) = length (busy ps) + length (held pc)"
    and "count_pc Reserved (ps[i := pc]) + (if ps ! i = Reserved then 1 else 0) =
      count_pc Reserved ps + (if pc = Reserved then 1 else 0)"
    and "count_pc Posting (ps[i := pc]) + (if ps ! i = Posting then 1 else 0) =
      count_pc Posting ps + (if pc = Posting then 1 else 0)"
proof -
  show b: "mset (busy (ps[i := pc])) + mset (held (ps ! i)) = mset (busy ps) + mset (held pc)"
    unfolding busy_def using assms by (rule mset_concat_map_update)
  show "length (busy (ps[i := pc])) + length (held (ps ! i)) = length (busy ps) + length (held pc)"
    using arg_cong [OF b, of size] by simp
qed (rule count_list_update [OF assms])+

lemma pool_step_inv:
  assumes "pool_step s t" and "pool_inv cs s"
  shows "pool_inv cs t"
  using assms(1)
proof cases
  case (check_ok i)
  with assms(2) upd [of i "pcs s" Checked] show ?thesis by (simp add: pool_inv_def)
next
  case (check_null i)
  with assms(2) upd [of i "pcs s" GotNull] show ?thesis by (simp add: pool_inv_def)
next
  case (wait i v)
  with assms(2) upd [of i "pcs s" Reserved] show ?thesis
    by (simp add: pool_inv_def sem_wait_Some_iff)
next
  case (take i c p)
  from assms(2) take have pool: "connList (pool s) = c # connList p" "FreeConn p = FreeConn (pool s) - 1"
      "CurConn p = CurConn (pool s) + 1" "lock p = Free" "reserve p = reserve (pool s)"
    by (auto simp: pool_inv_def get_take_def split: list.splits)
  with assms(2) have "FreeConn p = of_nat (length (connList p))"
    by (simp add: pool_inv_def del: of_nat_add)
  with pool take assms(2) upd [OF take(2), of "Using c"] show ?thesis
    by (simp add: pool_inv_def del: of_nat_add)
next
  case (put i c p)
  from assms(2) put have pool: "connList p = connList (pool s) @ [c]" "FreeConn p = FreeConn (pool s) + 1"
      "CurConn p = CurConn (pool s) - 1" "lock p = Free" "reserve p = reserve (pool s)"
    by (auto simp: pool_inv_def release_put_def)
  from put upd(2) [OF put(2), of Posting]
  have "length (busy (pcs s)) = Suc (length (busy ((pcs s)[i := Posting])))" by simp
  with pool assms(2) have "CurConn p = of_nat (length (busy ((pcs s)[i := Posting])))"
    by (simp add: pool_inv_def del: of_nat_add)
  with pool put assms(2) upd [OF put(2), of Posting] show ?thesis
    by (auto simp: pool_inv_def simp del: of_nat_add)
next
  case (post i)
  with assms(2) upd [of i "pcs s" Outside] show ?thesis
    by (simp add: pool_inv_def release_post_def sem_post_def)
next
  case (release_null i)
  with assms(2) upd [of i "pcs s" Outside] show ?thesis by (simp add: pool_inv_def)
qed


lemma busy_replicate [simp]: "busy (replicate n Outside) = []"
  by (induction n) (simp_all add: busy_def)

lemma pool_step_threads: "pool_step s t \<Longrightarrow> length (pcs t) = length (pcs s)"
  by (auto simp: pool_step_iff)

lemma pool_reach_threads: "pool_reach p n s \<Longrightarrow> length (pcs s) = n"
  by (induction rule: pool_reach.induct) (simp_all add: pool_step_threads)

text \<open>What \<open>init\<close> leaves behind.\<close>

lemma init_loop_result:
  "init_loop mysql_init mysql_real_connect n i p = Inr q \<longleftrightarrow>
     (\<exists>cs. length cs = n \<and>
        (\<forall>k < n. \<exists>h. mysql_init (i + k) = Some h \<and> mysql_real_connect (i + k) h = Some (cs ! k)) \<and>
        q = p\<lparr>connList := connList p @ cs, FreeConn := FreeConn p + of_nat n\<rparr>)"
proof (induction n arbitrary: i p)
  case 0
  then show ?case by auto
next
  case (Suc n)
  show ?case (is "?run \<longleftrightarrow> ?spec")
  proof
    assume ?run
    then obtain h c where h: "mysql_init i = Some h" "mysql_real_connect i h = Some c"
      and run: "init_loop mysql_init mysql_real_connect n (Suc i)
        (p\<lparr>connList := connList p @ [c], FreeConn := FreeConn p + 1\<rparr>) = Inr q"
      by (auto split: option.splits)
    then obtain cs where "length cs = n"
      "\<forall>k < n. \<exists>h. mysql_init (Suc i + k) = Some h \<and> mysql_real_connect (Suc i + k) h = Some (cs ! k)"
      "q = p\<lparr>connList := connList p @ c # cs, FreeConn := FreeConn p + of_nat (Suc n)\<rparr>"
      unfolding Suc.IH by (auto simp: ac_simps)
    with h show ?spec
      by (intro exI [of _ "c # cs"]) (auto simp: less_Suc_eq_0_disj)
  next
    assume ?spec
    then obtain cs where cs: "length cs = Suc n"
      "\<forall>k < Suc n. \<exists>h. mysql_init (i + k) = Some h \<and> mysql_real_connect (i + k) h = Some (cs ! k)"
      "q = p\<lparr>connList := connList p @ cs, FreeConn := FreeConn p + of_nat (Suc n)\<rparr>" by auto
    then obtain c ds where ds: "cs = c # ds" by (cases cs) auto
    from cs(2) [rule_format, of 0] ds obtain h where
      h: "mysql_init i = Some h" "mysql_real_connect i h = Some c" by auto
    from cs(2) ds have "\<forall>k < n. \<exists>h. mysql_init (Suc i + k) = Some h \<and> mysql_real_connect (Suc i + k) h = Some (ds ! k)"
      by (metis Suc_less_eq add_Suc_shift nth_Cons_Suc)
    with cs ds have "init_loop mysql_init mysql_real_connect n (Suc i)
        (p\<lparr>connList := connList p @ [c], FreeConn := FreeConn p + 1\<rparr>) = Inr q"
      unfolding Suc.IH by (intro exI [of _ ds]) (simp add: ac_simps)
    with h show ?run by simp
  qed
qed

lemma init_loop_fault:
  "init_loop mysql_init mysql_real_connect n i p = Inl e \<Longrightarrow> e = ProcessExit 1"
  by (induction n arbitrary: i p) (auto split: option.splits)

lemma pool_init_fields:
  assumes "pool_init mysql_init mysql_real_connect u usr pw db port maxconn connection_pool_new = Inr p"
  shows "lock p = Free" "length (connList p) = unat maxconn" "reserve p = unat maxconn"
    "FreeConn p = maxconn" "MaxConn p = maxconn" "CurConn p = 0" "Port p = [char_of_int port]"
  using assms
  by (auto simp: pool_init_def init_loop_result connection_pool_new_def locker_new_def sem_new_def Let_def)

lemma pool_reach_inv:
  assumes "pool_reach p n s"
    and "pool_init mysql_init mysql_real_connect u usr pw db port maxconn connection_pool_new = Inr p"
  shows "pool_inv (mset (connList p)) s"
  using assms(1)
proof (induction rule: pool_reach.induct)
  case start
  from pool_init_fields [OF assms(2)] show ?case by (simp add: pool_inv_def)
next
  case (step s t)
  then show ?case by (blast intro: pool_step_inv)
qed


text \<open>Counting: the threads at different places of the code are at most all threads.\<close>

lemma count_bound:
  "i < length ps \<Longrightarrow> ps ! i \<noteq> Reserved \<Longrightarrow> ps ! i \<noteq> Posting \<Longrightarrow> (\<And>c. ps ! i \<noteq> Using c) \<Longrightarrow>
     Suc (length (busy ps) + count_pc Reserved ps + count_pc Posting ps) \<le> length ps"
proof (induction ps arbitrary: i)
  case (Cons a ps)
  have all: "length (busy ps) + count_pc Reserved ps + count_pc Posting ps \<le> length ps" for ps :: "'a pool_pc list"
    by (induction ps) (auto simp: busy_def held_def split: pool_pc.splits)
  show ?case
  proof (cases i)
    case 0
    with Cons.prems all [of ps] show ?thesis
      by (auto simp: busy_def held_def split: pool_pc.splits)
  next
    case (Suc j)
    with Cons.prems have "Suc (length (busy ps) + count_pc Reserved ps + count_pc Posting ps) \<le> length ps"
      by (intro Cons.IH [of j]) auto
    then show ?thesis by (auto simp: busy_def held_def split: pool_pc.splits)
  qed
qed simp

lemma busy_memI: "i < length ps \<Longrightarrow> ps ! i = Using c \<Longrightarrow> c \<in> set (busy ps)"
  using nth_mem [of i ps] by (force simp: busy_def)

lemma busy_twice:
  "i < j \<Longrightarrow> j < length ps \<Longrightarrow> ps ! i = Using c \<Longrightarrow> ps ! j = Using c \<Longrightarrow> \<not> distinct (busy ps)"
  unfolding busy_def by (rule concat_map_twice [of i j _ c]) simp_all

section \<open>A concrete pool\<close>

text \<open>Two connections, shared by two threads that each have got as far as they can in turn.\<close>

definition demo_pool :: "nat connection_pool" where
  "demo_pool = connection_pool_new\<lparr>connList := [10, 11], FreeConn := 2, MaxConn := 2, reserve := 2,
     url := ''localhost'', Port := [char_of_int 3306], User := ''root'', PassWord := ''pw'',
     DatabaseName := ''webdb''\<rparr>"

lemma demo_init:
  "pool_init (\<lambda>i. Some i) (\<lambda>i h. Some (10 + h)) ''localhost'' ''root'' ''pw'' ''webdb'' 3306 2
     connection_pool_new = Inr demo_pool"
proof -
  have "init_loop Some (\<lambda>i h. Some (10 + h)) 2 0 p =
    Inr (p\<lparr>connList := connList p @ [10, 11], FreeConn := FreeConn p + 2\<rparr>)" for p
    by (simp add: numeral_2_eq_2)
  then show ?thesis
    by (simp add: pool_init_def connection_pool_new_def demo_pool_def sem_new_def locker_new_def)
qed

lemma demo_reach:
  "pool_reach demo_pool 2
     \<lparr>pool = demo_pool\<lparr>connList := [11], FreeConn := 1, CurConn := 1, reserve := 1\<rparr>,
      pcs = [Using 10, Checked]\<rparr>" (is "pool_reach _ _ ?s4")
proof -
  let ?s1 = "\<lparr>pool = demo_pool, pcs = [Checked, Outside]\<rparr>"
  let ?s2 = "\<lparr>pool = demo_pool\<lparr>reserve := 1\<rparr>, pcs = [Reserved, Outside]\<rparr>"
  let ?s3 = "\<lparr>pool = demo_pool\<lparr>connList := [11], FreeConn := 1, CurConn := 1, reserve := 1\<rparr>,
    pcs = [Using 10, Outside]\<rparr>"
  have "pool_step \<lparr>pool = demo_pool, pcs = replicate 2 Outside\<rparr> ?s1"
    using pool_step.check_ok [of 0 "\<lparr>pool = demo_pool, pcs = replicate 2 Outside\<rparr>"]
    by (simp add: demo_pool_def get_check_def numeral_2_eq_2)
  moreover have "pool_step ?s1 ?s2"
    using pool_step.wait [of 0 ?s1 1] by (simp add: demo_pool_def numeral_2_eq_2)
  moreover have "pool_step ?s2 ?s3"
    using pool_step.take [of 0 ?s2] by (simp add: demo_pool_def get_take_def connection_pool_new_def locker_new_def)
  moreover have "pool_step ?s3 ?s4"
    using pool_step.check_ok [of 1 ?s3] by (simp add: get_check_def)
  ultimately show ?thesis by (meson pool_reach.intros)
qed

section \<open>Properties\<close>

text \<open>C16: no interleaving of \<open>GetConnection\<close> and \<open>ReleaseConnection\<close> calls by any number of threads
  loses or duplicates a connection. In every reachable state the free connections and those the
  threads hold are, together, exactly those \<open>init\<close> opened, one each; the mutex is free between
  critical sections; and the counters \<open>FreeConn\<close> and \<open>CurConn\<close> are exact.\<close>

theorem pool_conserves_connections:
  assumes "pool_init mysql_init mysql_real_connect u usr pw db port maxconn connection_pool_new = Inr p"
    and "pool_reach p n s"
  shows "mset (connList (pool s)) + mset (busy (pcs s)) = mset (connList p) \<and>
    size (mset (connList (pool s)) + mset (busy (pcs s))) = unat maxconn \<and>
    lock (pool s) = Free \<and>
    FreeConn (pool s) = of_nat (length (connList (pool s))) \<and>
    CurConn (pool s) = of_nat (length (busy (pcs s)))"
  using pool_reach_inv [OF assms(2,1)] pool_init_fields(2) [OF assms(1)]
  by (auto simp: pool_inv_def simp flip: size_mset)

theorem pool_conserves_connections_witness:
  "FreeConn (demo_pool\<lparr>connList := [11], FreeConn := 1, CurConn := 1, reserve := 1\<rparr>) = 1 \<and>
   mset [11] + mset (busy [Using 10, Checked]) = mset (connList demo_pool)"
  using pool_conserves_connections [OF demo_init demo_reach] by simp

text \<open>A connection is used by one thread at a time. When the connections \<open>init\<close> opened are
  distinct, two threads never hold the same one, and none that a thread holds is in the free list.\<close>

lemma pool_mutual_exclusion:
  assumes "pool_init mysql_init mysql_real_connect u usr pw db port maxconn connection_pool_new = Inr p"
    and "pool_reach p n s" and "distinct (connList p)"
    and "i < n" and "pcs s ! i = Using c"
  shows "c \<notin> set (connList (pool s)) \<and> (\<forall>j < n. pcs s ! j = Using c \<longrightarrow> j = i)"
proof -
  from pool_reach_inv [OF assms(2,1)]
  have m: "mset (connList (pool s) @ busy (pcs s)) = mset (connList p)" by (simp add: pool_inv_def)
  with assms(3) have d: "distinct (connList (pool s) @ busy (pcs s))"
    by (metis mset_eq_imp_distinct_iff)
  have n: "length (pcs s) = n" using assms(2) by (rule pool_reach_threads)
  with assms(4,5) have "c \<in> set (busy (pcs s))" by (auto intro: busy_memI)
  moreover have "j = i" if "j < n" "pcs s ! j = Using c" for j
    using d that assms(4,5) n busy_twice [of i j "pcs s" c] busy_twice [of j i "pcs s" c]
    by (metis distinct_append nat_neq_iff)
  ultimately show ?thesis using d by auto
qed

lemma pool_mutual_exclusion_witness:
  "10 \<notin> set [11 :: nat] \<and> distinct (connList demo_pool)"
  using pool_mutual_exclusion [OF demo_init demo_reach, of 0 10]
  by (simp add: demo_pool_def)

text \<open>\<open>GetConnection\<close> never takes from an empty list. Although the list is tested without the
  lock, a thread that has passed the semaphore finds a connection: in every reachable state its
  critical section runs without a fault and returns the first connection of the list.\<close>

lemma pool_take_succeeds:
  assumes "pool_init mysql_init mysql_real_connect u usr pw db port maxconn connection_pool_new = Inr p"
    and "pool_reach p n s" and "i < n" and "pcs s ! i = Reserved"
  shows "\<exists>c p'. get_take (pool s) = Inr (c, p') \<and> connList (pool s) = c # connList p'"
proof -
  note inv = pool_reach_inv [OF assms(2,1)]
  have "0 < count_pc Reserved (pcs s)"
    using assms(3,4) pool_reach_threads [OF assms(2)] by (intro count_list_pos) auto
  with inv have "connList (pool s) \<noteq> []" by (auto simp: pool_inv_def)
  with inv show ?thesis by (cases "connList (pool s)") (auto simp: get_take_def pool_inv_def)
qed

lemma pool_take_succeeds_witness:
  "\<exists>s c p'. pool_reach demo_pool 2 s \<and> get_take (pool s) = Inr (c, p') \<and> c = 11"
proof -
  let ?s = "\<lparr>pool = demo_pool\<lparr>connList := [11], FreeConn := 1, CurConn := 1, reserve := 1\<rparr>,
      pcs = [Using 10, Checked]\<rparr>"
  let ?t = "\<lparr>pool = demo_pool\<lparr>connList := [11], FreeConn := 1, CurConn := 1, reserve := 0\<rparr>,
      pcs = [Using 10, Reserved]\<rparr>"
  have "pool_step ?s ?t" using pool_step.wait [of 1 ?s 0] by simp
  with demo_reach have "pool_reach demo_pool 2 ?t" by (rule pool_reach.step)
  with pool_take_succeeds [OF demo_init this, of 1] show ?thesis by fastforce
qed

text \<open>With no more threads than connections, as \<open>main\<close> configures the server (8 and 8), a
  thread never gets \<open>NULL\<close> from \<open>GetConnection\<close> and never blocks on the semaphore.\<close>

lemma pool_enough_connections:
  assumes "pool_init mysql_init mysql_real_connect u usr pw db port maxconn connection_pool_new = Inr p"
    and "pool_reach p n s" and "n \<le> unat maxconn" and "i < n"
  shows "pcs s ! i \<noteq> GotNull \<and> (pcs s ! i = Checked \<longrightarrow> sem_wait (reserve (pool s)) \<noteq> None)"
proof -
  have total: "length (connList (pool t)) + length (busy (pcs t)) = unat maxconn"
    and sem: "length (connList (pool t)) =
       reserve (pool t) + count_pc Reserved (pcs t) + count_pc Posting (pcs t)"
    if "pool_reach p n t" for t
  proof -
    from pool_reach_inv [OF that assms(1)]
    have m: "mset (connList (pool t) @ busy (pcs t)) = mset (connList p)"
      and l: "length (connList (pool t)) =
        reserve (pool t) + count_pc Reserved (pcs t) + count_pc Posting (pcs t)"
      by (simp_all add: pool_inv_def)
    from arg_cong [OF m, of size] pool_init_fields(2) [OF assms(1)]
    show "length (connList (pool t)) + length (busy (pcs t)) = unat maxconn"
      by (simp del: mset_append)
    show "length (connList (pool t)) =
       reserve (pool t) + count_pc Reserved (pcs t) + count_pc Posting (pcs t)" by (rule l)
  qed
  have "GotNull \<notin> set (pcs s)" using assms(2)
  proof (induction rule: pool_reach.induct)
    case (step s t)
    have "get_check (pool s)" if "i < length (pcs s)" "pcs s ! i = Outside" for i
      using count_bound [OF that(1)] that(2) total [OF step(1)] pool_reach_threads [OF step(1)] assms(3)
      by (auto simp: get_check_def)
    with step show ?case
      by (auto simp: pool_step_iff dest!: set_update_subset_insert [THEN subsetD])
  qed simp
  moreover have "0 < reserve (pool s)" if "pcs s ! i = Checked"
    using count_bound [of i "pcs s"] that total [OF assms(2)] sem [OF assms(2)]
      pool_reach_threads [OF assms(2)] assms(3,4) by auto
  ultimately show ?thesis using assms(4) pool_reach_threads [OF assms(2)]
    by (metis nth_mem sem_wait_None_iff less_nat_zero_code)
qed

lemma pool_enough_connections_witness:
  "sem_wait (reserve (demo_pool\<lparr>connList := [11], FreeConn := 1, CurConn := 1, reserve := 1\<rparr>)) \<noteq> None"
  using pool_enough_connections [OF demo_init demo_reach, of 1] by simp

text \<open>\<open>DestroyPool\<close> unlocks twice. On a pool with a free connection (every pool at the end of the
  process) the connections are closed and the mutex is then unlocked a second time, which is
  undefined; only an empty pool is destroyed cleanly.\<close>

lemma DestroyPool_double_unlock:
  assumes "lock p = Free"
  shows "DestroyPool p =
    (if connList p = [] then Inr (p, []) else Inl UnlockNotHeld)"
  using assms by (simp add: DestroyPool_def)

lemma DestroyPool_double_unlock_witness: "DestroyPool demo_pool = Inl UnlockNotHeld"
  using DestroyPool_double_unlock [of demo_pool]
  by (simp add: demo_pool_def connection_pool_new_def locker_new_def)

text \<open>A \<open>connectionRAII\<close> object returns what it took. Construction and destruction by one thread
  on a pool whose semaphore counts its list move the first connection to the end and leave the
  counters, the semaphore and the mutex as they were; on an empty pool the object holds \<open>NULL\<close> and
  its destruction does nothing.\<close>

lemma connectionRAII_roundtrip:
  assumes "lock p = Free" and "reserve p = length (connList p)"
  shows "connectionRAII_new p =
      (case connList p of
         [] \<Rightarrow> Some (Inr (None, p))
       | c # cs \<Rightarrow> Some (Inr (Some c, p\<lparr>connList := cs, FreeConn := FreeConn p - 1,
           CurConn := CurConn p + 1, reserve := length cs\<rparr>))) \<and>
    (\<forall>c q. connectionRAII_new p = Some (Inr (c, q)) \<longrightarrow>
       connectionRAII_delete c q = Inr (p\<lparr>connList := rotate1 (connList p)\<rparr>))"
  using assms
  by (cases "connList p")
    (auto simp: connectionRAII_new_def connectionRAII_delete_def GetConnection_def get_check_def
      get_take_def ReleaseConnection_def release_put_def release_post_def sem_post_def)

lemma connectionRAII_roundtrip_witness:
  "\<exists>q. connectionRAII_new demo_pool = Some (Inr (Some 10, q)) \<and>
     connectionRAII_delete (Some 10) q = Inr (demo_pool\<lparr>connList := [11, 10]\<rparr>)"
  using connectionRAII_roundtrip [of demo_pool]
  by (simp add: demo_pool_def connection_pool_new_def locker_new_def)

end
