(* ===== verification/ThreadPool.thy ===== *)
theory ThreadPool
  imports SqlPool
begin

text \<open>
  The worker pool of \<open>inc/threadpool.h\<close>: a queue of requests under a mutex, a semaphore that
  counts them, one producer (the event loop calls \<open>append\<close>) and the worker threads, each of
  which takes a request, holds a database connection for it, processes it and gives the
  connection back. \<open>append\<close> and \<open>run\<close> are split where another thread can run. A request is a
  pointer: \<open>None\<close> is null. What the workers need of the connection pool is the locale
  \<open>connection_source\<close>, which the pool of \<open>SqlPool\<close> provides.
\<close>

section \<open>The class\<close>

record 'r threadpool =
  m_thread_number :: int
  m_max_requests :: int
  m_threads :: bool              \<comment> \<open>the array of thread ids is allocated\<close>
  m_workqueue :: "'r option list"
  m_queuelocker :: locker
  m_queuestat :: sem
  m_stop :: bool

text \<open>The loop of the constructor: \<open>create i\<close> and \<open>detach i\<close> are 0 when the calls on thread \<open>i\<close> succeed.
  The first result counts the threads that run, also when it throws.\<close>

fun start_threads :: "(nat \<Rightarrow> int) \<Rightarrow> (nat \<Rightarrow> int) \<Rightarrow> nat \<Rightarrow> nat \<Rightarrow> 'r threadpool \<Rightarrow>
    nat \<times> 'r threadpool res" where
  "start_threads create detach 0 i T = (i, Inr T)"
| "start_threads create detach (Suc n) i T =
     (if create i \<noteq> 0 then (i, Inl Thrown)
      else if detach i \<noteq> 0 then (Suc i, Inl Thrown)
      else start_threads create detach n (Suc i) T)"

definition threadpool_new :: "(nat \<Rightarrow> int) \<Rightarrow> (nat \<Rightarrow> int) \<Rightarrow> int \<Rightarrow> int \<Rightarrow> nat \<times> 'r threadpool res" where
  "threadpool_new create detach thread_number max_requests =
     (if thread_number \<le> 0 \<or> max_requests \<le> 0 then (0, Inl Thrown)
      else start_threads create detach (nat thread_number) 0
             \<lparr>m_thread_number = thread_number, m_max_requests = max_requests, m_threads = True,
              m_workqueue = [], m_queuelocker = locker_new, m_queuestat = sem_new 0, m_stop = False\<rparr>)"

text \<open>The destructor runs when \<open>main\<close> returns; it does not stop the detached workers, so it is not a
  step of the running system below.\<close>

definition threadpool_delete :: "'r threadpool \<Rightarrow> 'r threadpool" where
  "threadpool_delete T = T\<lparr>m_threads := False, m_stop := True\<rparr>"

text \<open>\<open>append\<close>: the critical section, then the post of an accepted request.\<close>

definition append_put :: "'r option \<Rightarrow> 'r threadpool \<Rightarrow> (bool \<times> 'r threadpool) res" where
  "append_put request T =
     andThen (locker_lock (m_queuelocker T)) (\<lambda>l.
       if int (length (m_workqueue T)) > m_max_requests T
       then andThen (locker_unlock l) (\<lambda>l. Inr (False, T\<lparr>m_queuelocker := l\<rparr>))
       else andThen (locker_unlock l) (\<lambda>l.
              Inr (True, T\<lparr>m_workqueue := m_workqueue T @ [request], m_queuelocker := l\<rparr>)))"

definition append_post :: "'r threadpool \<Rightarrow> 'r threadpool" where
  "append_post T = T\<lparr>m_queuestat := sem_post (m_queuestat T)\<rparr>"

definition append_request :: "'r option \<Rightarrow> 'r threadpool \<Rightarrow> (bool \<times> 'r threadpool) res" where
  "append_request request T =
     andThen (append_put request T) (\<lambda>(b, T). Inr (b, if b then append_post T else T))"

text \<open>The critical section of \<open>run\<close>: \<open>None\<close> is the \<open>continue\<close> on an empty queue.\<close>

definition run_take :: "'r threadpool \<Rightarrow> ('r option option \<times> 'r threadpool) res" where
  "run_take T =
     andThen (locker_lock (m_queuelocker T)) (\<lambda>l.
       case m_workqueue T of
         [] \<Rightarrow> andThen (locker_unlock l) (\<lambda>l. Inr (None, T\<lparr>m_queuelocker := l\<rparr>))
       | request # rest \<Rightarrow>
           andThen (locker_unlock l) (\<lambda>l.
             Inr (Some request, T\<lparr>m_workqueue := rest, m_queuelocker := l\<rparr>)))"

section \<open>What the workers need of a connection pool\<close>

locale connection_source =
  fixes acquire :: "'p \<Rightarrow> ('c option \<times> 'p) res option"
    and release :: "'c option \<Rightarrow> 'p \<Rightarrow> 'p res"
    and free :: "'p \<Rightarrow> 'c list"
    and good :: "'p \<Rightarrow> bool"
  assumes acquire_empty: "good p \<Longrightarrow> free p = [] \<Longrightarrow> acquire p = Some (Inr (None, p))"
    and acquire_first: "good p \<Longrightarrow> free p = c # cs \<Longrightarrow>
      \<exists>p'. acquire p = Some (Inr (Some c, p')) \<and> good p' \<and> free p' = cs"
    and release_null: "good p \<Longrightarrow> release None p = Inr p"
    and release_last: "good p \<Longrightarrow> \<exists>p'. release (Some c) p = Inr p' \<and> good p' \<and> free p' = free p @ [c]"
begin

lemma acquire_never_blocks: "good p \<Longrightarrow> \<exists>c p'. acquire p = Some (Inr (c, p'))"
  using acquire_empty acquire_first by (cases "free p") blast+

lemma acquire_moves:
  assumes "good p" and "acquire p = Some (Inr (c, p'))"
  shows "good p'" and "mset (opt_list c) + mset (free p') = mset (free p)"
    and "c = None \<longleftrightarrow> free p = []"
proof -
  have "good p' \<and> mset (opt_list c) + mset (free p') = mset (free p) \<and> (c = None \<longleftrightarrow> free p = [])"
  proof (cases "free p")
    case Nil
    with assms acquire_empty [of p] show ?thesis by simp
  next
    case (Cons d ds)
    from acquire_first [OF assms(1) Cons] assms(2) Cons show ?thesis by auto
  qed
  then show "good p'" "mset (opt_list c) + mset (free p') = mset (free p)" "c = None \<longleftrightarrow> free p = []"
    by blast+
qed

lemma release_moves:
  assumes "good p" and "release c p = Inr p'"
  shows "good p'" and "mset (free p') = mset (opt_list c) + mset (free p)"
proof -
  have "good p' \<and> mset (free p') = mset (opt_list c) + mset (free p)"
  proof (cases c)
    case None
    with assms release_null [of p] show ?thesis by simp
  next
    case (Some d)
    from release_last [OF assms(1), of d] assms(2) Some show ?thesis by auto
  qed
  then show "good p'" "mset (free p') = mset (opt_list c) + mset (free p)" by blast+
qed

lemma release_never_faults: "good p \<Longrightarrow> \<exists>p'. release c p = Inr p'"
  using release_null release_last by (cases c) blast+

lemma session_roundtrip:
  assumes "good p" and "acquire p = Some (Inr (c, p'))" and "release c p' = Inr p''"
  shows "mset (free p'') = mset (free p)"
  using acquire_moves [OF assms(1,2)] release_moves [OF _ assms(3)] by simp

end

definition pool_good :: "'c connection_pool \<Rightarrow> bool" where
  "pool_good p \<longleftrightarrow> lock p = Free \<and> reserve p = length (connList p)"

interpretation sql: connection_source connectionRAII_new connectionRAII_delete connList pool_good
proof unfold_locales
  fix p :: "'c connection_pool" and c cs
  assume g: "pool_good p"
  show "connectionRAII_delete None p = Inr p"
    by (simp add: connectionRAII_delete_def ReleaseConnection_def)
  show "\<exists>p'. connectionRAII_delete (Some c) p = Inr p' \<and> pool_good p' \<and> connList p' = connList p @ [c]"
    using g by (simp add: connectionRAII_delete_def ReleaseConnection_def release_put_def
        release_post_def pool_good_def sem_post_def)
  {
    assume "connList p = []"
    then show "connectionRAII_new p = Some (Inr (None, p))"
      by (simp add: connectionRAII_new_def GetConnection_def get_check_def)
  next
    assume "connList p = c # cs"
    with g show "\<exists>p'. connectionRAII_new p = Some (Inr (Some c, p')) \<and> pool_good p' \<and> connList p' = cs"
      by (simp add: connectionRAII_new_def GetConnection_def get_check_def get_take_def pool_good_def)
  }
qed

section \<open>Threads\<close>

datatype ('r, 'c) worker_pc =
    Looping                     \<comment> \<open>about to test \<open>m_stop\<close>\<close>
  | Waiting                     \<comment> \<open>about to wait on the semaphore\<close>
  | Woken                       \<comment> \<open>past the wait, about to enter the critical section\<close>
  | Got "'r option"             \<comment> \<open>has taken a request\<close>
  | Connected 'r "'c option"    \<comment> \<open>holds its connection, about to process\<close>
  | Processed "'c option"       \<comment> \<open>about to give the connection back\<close>
  | Returned                    \<comment> \<open>\<open>run\<close> has returned\<close>

text \<open>
  The system: \<open>posting\<close> when the event loop is between the two halves of \<open>append\<close>. The last three
  fields record history: the requests \<open>append\<close> accepted, those the workers took, and the calls of
  \<open>process\<close> with the connection each had.
\<close>

record ('r, 'c) tp_sys =
  tpool :: "'r threadpool"
  sqlpool :: "'c connection_pool"
  workers :: "('r, 'c) worker_pc list"
  posting :: bool
  accepted :: "'r option list"
  taken :: "'r option list"
  processed :: "('r \<times> 'c option) list"

inductive tp_step :: "('r, 'c) tp_sys \<Rightarrow> ('r, 'c) tp_sys \<Rightarrow> bool" where
  append_ok: "\<lbrakk>\<not> posting s; append_put r (tpool s) = Inr (True, T)\<rbrakk> \<Longrightarrow>
     tp_step s (s\<lparr>tpool := T, posting := True, accepted := accepted s @ [r]\<rparr>)"
| append_full: "\<lbrakk>\<not> posting s; append_put r (tpool s) = Inr (False, T)\<rbrakk> \<Longrightarrow>
     tp_step s (s\<lparr>tpool := T\<rparr>)"
| append_done: "posting s \<Longrightarrow>
     tp_step s (s\<lparr>tpool := append_post (tpool s), posting := False\<rparr>)"
| loop: "\<lbrakk>i < length (workers s); workers s ! i = Looping\<rbrakk> \<Longrightarrow>
     tp_step s (s\<lparr>workers := (workers s)[i := if m_stop (tpool s) then Returned else Waiting]\<rparr>)"
| wait: "\<lbrakk>i < length (workers s); workers s ! i = Waiting; sem_wait (m_queuestat (tpool s)) = Some v\<rbrakk> \<Longrightarrow>
     tp_step s (s\<lparr>tpool := (tpool s)\<lparr>m_queuestat := v\<rparr>, workers := (workers s)[i := Woken]\<rparr>)"
| take_empty: "\<lbrakk>i < length (workers s); workers s ! i = Woken; run_take (tpool s) = Inr (None, T)\<rbrakk> \<Longrightarrow>
     tp_step s (s\<lparr>tpool := T, workers := (workers s)[i := Looping]\<rparr>)"
| take: "\<lbrakk>i < length (workers s); workers s ! i = Woken; run_take (tpool s) = Inr (Some r, T)\<rbrakk> \<Longrightarrow>
     tp_step s (s\<lparr>tpool := T, workers := (workers s)[i := Got r], taken := taken s @ [r]\<rparr>)"
| skip: "\<lbrakk>i < length (workers s); workers s ! i = Got None\<rbrakk> \<Longrightarrow>
     tp_step s (s\<lparr>workers := (workers s)[i := Looping]\<rparr>)"
| connect: "\<lbrakk>i < length (workers s); workers s ! i = Got (Some r);
     connectionRAII_new (sqlpool s) = Some (Inr (c, p))\<rbrakk> \<Longrightarrow>
     tp_step s (s\<lparr>sqlpool := p, workers := (workers s)[i := Connected r c]\<rparr>)"
| process: "\<lbrakk>i < length (workers s); workers s ! i = Connected r c\<rbrakk> \<Longrightarrow>
     tp_step s (s\<lparr>workers := (workers s)[i := Processed c], processed := processed s @ [(r, c)]\<rparr>)"
| disconnect: "\<lbrakk>i < length (workers s); workers s ! i = Processed c;
     connectionRAII_delete c (sqlpool s) = Inr p\<rbrakk> \<Longrightarrow>
     tp_step s (s\<lparr>sqlpool := p, workers := (workers s)[i := Looping]\<rparr>)"

inductive tp_reach :: "'r threadpool \<Rightarrow> 'c connection_pool \<Rightarrow> nat \<Rightarrow> ('r, 'c) tp_sys \<Rightarrow> bool"
  for T p n where
  start: "tp_reach T p n
     \<lparr>tpool = T, sqlpool = p, workers = replicate n Looping, posting = False,
      accepted = [], taken = [], processed = []\<rparr>"
| step: "tp_reach T p n s \<Longrightarrow> tp_step s t \<Longrightarrow> tp_reach T p n t"

inductive_simps tp_step_iff: "tp_step s t"

section \<open>Invariant\<close>

definition conn_of :: "('r, 'c) worker_pc \<Rightarrow> 'c list" where
  "conn_of pc = (case pc of Connected _ c \<Rightarrow> opt_list c | Processed c \<Rightarrow> opt_list c | _ \<Rightarrow> [])"

definition pending_of :: "('r, 'c) worker_pc \<Rightarrow> 'r list" where
  "pending_of pc = (case pc of Got r \<Rightarrow> opt_list r | Connected r _ \<Rightarrow> [r] | _ \<Rightarrow> [])"

abbreviation conns :: "('r, 'c) worker_pc list \<Rightarrow> 'c list" where
  "conns ps \<equiv> concat (map conn_of ps)"

abbreviation pending :: "('r, 'c) worker_pc list \<Rightarrow> 'r list" where
  "pending ps \<equiv> concat (map pending_of ps)"

abbreviation requests :: "'r option list \<Rightarrow> 'r list" where
  "requests rs \<equiv> concat (map opt_list rs)"

lemma conn_of_simps [simp]:
  "conn_of Looping = []" "conn_of Waiting = []" "conn_of Woken = []" "conn_of (Got r) = []"
  "conn_of (Connected q c) = opt_list c" "conn_of (Processed c) = opt_list c" "conn_of Returned = []"
  by (simp_all add: conn_of_def)

lemma pending_of_simps [simp]:
  "pending_of Looping = []" "pending_of Waiting = []" "pending_of Woken = []"
  "pending_of (Got r) = opt_list r" "pending_of (Connected q c) = [q]" "pending_of (Processed c) = []"
  "pending_of Returned = []"
  by (simp_all add: pending_of_def)

definition tp_inv :: "int \<Rightarrow> 'c multiset \<Rightarrow> ('r, 'c) tp_sys \<Rightarrow> bool" where
  "tp_inv mx cs s \<longleftrightarrow>
     m_queuelocker (tpool s) = Free \<and> m_max_requests (tpool s) = mx \<and>
     length (m_workqueue (tpool s)) =
       m_queuestat (tpool s) + count_list (workers s) Woken + (if posting s then 1 else 0) \<and>
     int (length (m_workqueue (tpool s))) \<le> mx + 1 \<and>
     accepted s = taken s @ m_workqueue (tpool s) \<and>
     mset (requests (taken s)) = mset (map fst (processed s)) + mset (pending (workers s)) \<and>
     pool_good (sqlpool s) \<and>
     mset (connList (sqlpool s)) + mset (conns (workers s)) = cs"

lemma worker_upd:
  assumes "i < length ps"
  shows "mset (conns (ps[i := pc])) + mset (conn_of (ps ! i)) = mset (conns ps) + mset (conn_of pc)"
    and "mset (pending (ps[i := pc])) + mset (pending_of (ps ! i)) = mset (pending ps) + mset (pending_of pc)"
    and "count_list (ps[i := pc]) Woken + (if ps ! i = Woken then 1 else 0) =
      count_list ps Woken + (if pc = Woken then 1 else 0)"
  using assms by (rule mset_concat_map_update mset_concat_map_update count_list_update)+

lemma append_put_cases:
  assumes "m_queuelocker T = Free" and "append_put r T = Inr (b, T')"
  shows "b \<longleftrightarrow> int (length (m_workqueue T)) \<le> m_max_requests T"
    and "T' = (if b then T\<lparr>m_workqueue := m_workqueue T @ [r], m_queuelocker := Free\<rparr> else T)"
  using assms by (auto simp: append_put_def split: if_splits)

lemma run_take_cases:
  assumes "m_queuelocker T = Free" and "run_take T = Inr (r, T')"
  shows "(r = None \<and> m_workqueue T = [] \<and> T' = T) \<or>
    (\<exists>q rest. r = Some q \<and> m_workqueue T = q # rest \<and> T' = T\<lparr>m_workqueue := rest, m_queuelocker := Free\<rparr>)"
  using assms by (cases "m_workqueue T") (auto simp: run_take_def)

lemma tp_step_inv:
  assumes "tp_step s t" and "tp_inv mx cs s"
  shows "tp_inv mx cs t"
  using assms(1)
proof cases
  case (append_ok r T)
  with assms(2) append_put_cases [OF _ append_ok(3)] show ?thesis by (simp add: tp_inv_def)
next
  case (append_full r T)
  with assms(2) append_put_cases [OF _ append_full(3)] show ?thesis by (simp add: tp_inv_def)
next
  case append_done
  with assms(2) show ?thesis by (simp add: tp_inv_def append_post_def sem_post_def)
next
  case (loop i)
  with assms(2) worker_upd [OF loop(2), of "if m_stop (tpool s) then Returned else Waiting"]
  show ?thesis by (simp add: tp_inv_def split: if_splits)
next
  case (wait i v)
  with assms(2) worker_upd [OF wait(2), of Woken] show ?thesis
    by (simp add: tp_inv_def sem_wait_Some_iff)
next
  case (take_empty i T)
  with assms(2) worker_upd [OF take_empty(2), of Looping] run_take_cases [OF _ take_empty(4)]
  show ?thesis by (auto simp: tp_inv_def)
next
  case (take i r T)
  with assms(2) worker_upd [OF take(2), of "Got r"] run_take_cases [OF _ take(4)]
  show ?thesis by (auto simp: tp_inv_def)
next
  case (skip i)
  with assms(2) worker_upd [OF skip(2), of Looping] show ?thesis by (simp add: tp_inv_def)
next
  case (connect i r c p)
  with assms(2) worker_upd [OF connect(2), of "Connected r c"] sql.acquire_moves [OF _ connect(4)]
  show ?thesis by (auto simp: tp_inv_def)
next
  case (process i r c)
  with assms(2) worker_upd [OF process(2), of "Processed c"] show ?thesis
    by (auto simp: tp_inv_def)
next
  case (disconnect i c p)
  with assms(2) worker_upd [OF disconnect(2), of Looping] sql.release_moves [OF _ disconnect(4)]
  show ?thesis by (auto simp: tp_inv_def ac_simps)
qed


section \<open>The system after start-up\<close>

lemma start_threads_result:
  "start_threads create detach n i T = (k, Inr T') \<Longrightarrow> k = i + n \<and> T' = T"
  by (induction n arbitrary: i) (fastforce split: if_splits)+

lemma threadpool_new_fields:
  assumes "threadpool_new create detach tn mr = (n, Inr T)"
  shows "n = nat tn" "m_max_requests T = mr" "0 < mr" "0 < tn" "m_workqueue T = []"
    "m_queuelocker T = Free" "m_queuestat T = 0" "\<not> m_stop T"
    "m_thread_number T = tn"
  using assms
  by (auto simp: threadpool_new_def locker_new_def sem_new_def dest!: start_threads_result split: if_splits)

lemma concat_map_replicate_Nil: "f x = [] \<Longrightarrow> concat (map f (replicate n x)) = []"
  by (induction n) simp_all

lemma tp_step_workers: "tp_step s t \<Longrightarrow> length (workers t) = length (workers s)"
  by (auto simp: tp_step_iff)

lemma tp_reach_workers: "tp_reach T p n s \<Longrightarrow> length (workers s) = n"
  by (induction rule: tp_reach.induct) (simp_all add: tp_step_workers)

lemma tp_reach_inv:
  assumes "tp_reach T p n s"
    and "threadpool_new create detach tn mr = (n, Inr T)"
    and "pool_init mysql_init mysql_real_connect u usr pw db port maxconn connection_pool_new = Inr p"
  shows "tp_inv mr (mset (connList p)) s"
  using assms(1)
proof (induction rule: tp_reach.induct)
  case start
  with threadpool_new_fields [OF assms(2)] pool_init_fields [OF assms(3)] show ?case
    by (simp add: tp_inv_def pool_good_def concat_map_replicate_Nil)
next
  case (step s t)
  then show ?case by (blast intro: tp_step_inv)
qed

lemma conns_bound:
  "i < length ps \<Longrightarrow> conn_of (ps ! i) = [] \<Longrightarrow> Suc (length (conns ps)) \<le> length ps"
proof (induction ps arbitrary: i)
  case (Cons a ps)
  have all: "length (conns ps) \<le> length ps" for ps :: "('a, 'b) worker_pc list"
    by (induction ps) (auto simp: conn_of_def opt_list_def split: worker_pc.splits option.splits)
  have one: "length (conn_of a) \<le> 1"
    by (auto simp: conn_of_def opt_list_def split: worker_pc.splits option.splits)
  show ?case
  proof (cases i)
    case 0
    with Cons.prems all [of ps] show ?thesis by simp
  next
    case (Suc j)
    with Cons.prems have "Suc (length (conns ps)) \<le> length ps" by (intro Cons.IH [of j]) auto
    with one show ?thesis by simp
  qed
qed simp

text \<open>A concrete run: two workers, one request allowed in the queue, the pool of two connections.\<close>

definition demo_tpool :: "nat threadpool" where
  "demo_tpool = \<lparr>m_thread_number = 2, m_max_requests = 1, m_threads = True, m_workqueue = [],
     m_queuelocker = Free, m_queuestat = 0, m_stop = False\<rparr>"

lemma demo_tpool_new: "threadpool_new (\<lambda>i. 0) (\<lambda>i. 0) 2 1 = (2, Inr demo_tpool)"
  by (simp add: threadpool_new_def demo_tpool_def locker_new_def sem_new_def numeral_2_eq_2)

definition demo_woken :: "(nat, nat) tp_sys" where
  "demo_woken = \<lparr>tpool = demo_tpool\<lparr>m_workqueue := [Some 7]\<rparr>, sqlpool = demo_pool,
     workers = [Woken, Looping], posting = False, accepted = [Some 7], taken = [], processed = []\<rparr>"

lemma demo_woken_reach: "tp_reach demo_tpool demo_pool 2 demo_woken"
proof -
  let ?s0 = "\<lparr>tpool = demo_tpool, sqlpool = demo_pool, workers = replicate 2 Looping, posting = False,
    accepted = [], taken = [], processed = []\<rparr>"
  let ?s1 = "?s0\<lparr>workers := [Waiting, Looping]\<rparr>"
  let ?s2 = "?s1\<lparr>tpool := demo_tpool\<lparr>m_workqueue := [Some 7]\<rparr>, posting := True, accepted := [Some 7]\<rparr>"
  let ?s3 = "?s2\<lparr>tpool := demo_tpool\<lparr>m_workqueue := [Some 7], m_queuestat := 1\<rparr>, posting := False\<rparr>"
  have "tp_step ?s0 ?s1"
    using tp_step.loop [of 0 ?s0] by (simp add: demo_tpool_def numeral_2_eq_2)
  moreover have "tp_step ?s1 ?s2"
    using tp_step.append_ok [of ?s1 "Some 7" "demo_tpool\<lparr>m_workqueue := [Some 7]\<rparr>"]
    by (simp add: demo_tpool_def append_put_def)
  moreover have "tp_step ?s2 ?s3"
    using tp_step.append_done [of ?s2] by (simp add: demo_tpool_def append_post_def sem_post_def)
  moreover have "tp_step ?s3 demo_woken"
    using tp_step.wait [of 0 ?s3 0] by (simp add: demo_tpool_def demo_woken_def)
  ultimately show ?thesis by (meson tp_reach.intros)
qed

definition demo_processed :: "(nat, nat) tp_sys" where
  "demo_processed = \<lparr>tpool = demo_tpool,
     sqlpool = demo_pool\<lparr>connList := [11], FreeConn := 1, CurConn := 1, reserve := 1\<rparr>,
     workers = [Processed (Some 10), Looping], posting = False, accepted = [Some 7], taken = [Some 7],
     processed = [(7, Some 10)]\<rparr>"

lemma demo_processed_reach: "tp_reach demo_tpool demo_pool 2 demo_processed"
proof -
  let ?s1 = "demo_woken\<lparr>tpool := demo_tpool, workers := [Got (Some 7), Looping], taken := [Some 7]\<rparr>"
  let ?s2 = "demo_processed\<lparr>workers := [Connected 7 (Some 10), Looping], processed := []\<rparr>"
  have "tp_step demo_woken ?s1"
    using tp_step.take [of 0 demo_woken "Some 7" demo_tpool]
    by (simp add: demo_woken_def demo_tpool_def run_take_def)
  moreover have "tp_step ?s1 ?s2"
    using tp_step.connect [of 0 ?s1 7 "Some 10"
        "demo_pool\<lparr>connList := [11], FreeConn := 1, CurConn := 1, reserve := 1\<rparr>"]
    by (simp add: demo_woken_def demo_processed_def demo_pool_def connection_pool_new_def locker_new_def
        connectionRAII_new_def GetConnection_def get_check_def get_take_def numeral_2_eq_2)
  moreover have "tp_step ?s2 demo_processed"
    using tp_step.process [of 0 ?s2 7 "Some 10"] by (simp add: demo_processed_def)
  ultimately show ?thesis using demo_woken_reach by (meson tp_reach.step)
qed

section \<open>Properties\<close>

text \<open>C11: every request \<open>append\<close> accepted is processed at most once, in no interleaving lost, and
  taken in the order of acceptance. In every reachable state the accepted requests are those the
  workers took followed by those in the queue, and each request taken is either processed or held
  by exactly one worker that is about to process it.\<close>

theorem threadpool_exactly_once:
  assumes "threadpool_new create detach tn mr = (n, Inr T)"
    and "pool_init mysql_init mysql_real_connect u usr pw db port maxconn connection_pool_new = Inr p"
    and "tp_reach T p n s"
  shows "accepted s = taken s @ m_workqueue (tpool s) \<and>
    mset (requests (taken s)) = mset (map fst (processed s)) + mset (pending (workers s))"
  using tp_reach_inv [OF assms(3,1,2)] by (simp add: tp_inv_def)

theorem threadpool_exactly_once_witness:
  "accepted demo_processed = [Some 7] @ [] \<and> mset (requests [Some 7]) = mset (map fst [(7 :: nat, Some (10 :: nat))])"
  using threadpool_exactly_once [OF demo_tpool_new demo_init demo_processed_reach]
  by (simp add: demo_processed_def demo_tpool_def)

text \<open>C12: no wake-up is spurious and none is lost. A worker past the semaphore always finds a request,
  so the \<open>continue\<close> on an empty queue is never taken; and while a request is queued, no append is
  half done and no worker is on its way to the queue, the semaphore lets the next worker through.\<close>

theorem threadpool_wakeups:
  assumes "threadpool_new create detach tn mr = (n, Inr T)"
    and "pool_init mysql_init mysql_real_connect u usr pw db port maxconn connection_pool_new = Inr p"
    and "tp_reach T p n s"
  shows "(\<forall>i < n. workers s ! i = Woken \<longrightarrow>
      (\<exists>r T'. run_take (tpool s) = Inr (Some r, T') \<and> m_workqueue (tpool s) = r # m_workqueue T')) \<and>
    (m_workqueue (tpool s) \<noteq> [] \<and> \<not> posting s \<and> Woken \<notin> set (workers s) \<longrightarrow>
      sem_wait (m_queuestat (tpool s)) \<noteq> None)"
proof (intro conjI allI impI)
  note inv = tp_reach_inv [OF assms(3,1,2)]
  fix i
  assume "i < n" "workers s ! i = Woken"
  with tp_reach_workers [OF assms(3)] have "0 < count_list (workers s) Woken"
    by (intro count_list_pos) auto
  with inv have "m_workqueue (tpool s) \<noteq> []" "m_queuelocker (tpool s) = Free"
    by (auto simp: tp_inv_def)
  then show "\<exists>r T'. run_take (tpool s) = Inr (Some r, T') \<and> m_workqueue (tpool s) = r # m_workqueue T'"
    by (cases "m_workqueue (tpool s)") (auto simp: run_take_def)
next
  assume "m_workqueue (tpool s) \<noteq> [] \<and> \<not> posting s \<and> Woken \<notin> set (workers s)"
  with tp_reach_inv [OF assms(3,1,2)] show "sem_wait (m_queuestat (tpool s)) \<noteq> None"
    by (cases "m_queuestat (tpool s)") (auto simp: tp_inv_def)
qed

theorem threadpool_wakeups_witness:
  "\<exists>T'. run_take (tpool demo_woken) = Inr (Some (Some 7), T')"
  using threadpool_wakeups [OF demo_tpool_new demo_init demo_woken_reach]
  by (auto simp: demo_woken_def demo_tpool_def dest!: spec [of _ 0])

text \<open>The queue is bounded, by one more than the configured number. \<open>append\<close> accepts a request
  exactly when at most \<open>m_max_requests\<close> are queued, so in every reachable state the queue holds at
  most \<open>m_max_requests + 1\<close>, and an append on a queue of exactly \<open>m_max_requests\<close> reaches that.\<close>

lemma threadpool_bound:
  assumes "threadpool_new create detach tn mr = (n, Inr T)"
    and "pool_init mysql_init mysql_real_connect u usr pw db port maxconn connection_pool_new = Inr p"
    and "tp_reach T p n s"
  shows "int (length (m_workqueue (tpool s))) \<le> mr + 1 \<and>
    append_request r (tpool s) =
      Inr (if int (length (m_workqueue (tpool s))) \<le> mr
           then (True, (tpool s)\<lparr>m_workqueue := m_workqueue (tpool s) @ [r],
                                 m_queuestat := Suc (m_queuestat (tpool s))\<rparr>)
           else (False, tpool s))"
  using tp_reach_inv [OF assms(3,1,2)]
  by (auto simp: tp_inv_def append_request_def append_put_def append_post_def sem_post_def)

lemma threadpool_bound_witness:
  "\<exists>T. append_request (Some 8) (tpool demo_woken) = Inr (True, T) \<and>
     m_workqueue T = [Some 7, Some 8] \<and> m_max_requests T = 1"
  using threadpool_bound [OF demo_tpool_new demo_init demo_woken_reach, of "Some 8"]
  by (simp add: demo_woken_def demo_tpool_def)

text \<open>C13: every request is processed with a database connection of its own, when there are at least as
  many connections as workers (\<open>main\<close> has 8 of each). Then \<open>process\<close> is never run with a null
  \<open>mysql\<close>, and two workers never hold the same connection.\<close>

theorem worker_has_connection:
  assumes "threadpool_new create detach tn mr = (n, Inr T)"
    and "pool_init mysql_init mysql_real_connect u usr pw db port maxconn connection_pool_new = Inr p"
    and "tp_reach T p n s"
    and "n \<le> unat maxconn" and "distinct (connList p)"
  shows "(\<forall>(r, c) \<in> set (processed s). c \<noteq> None) \<and> distinct (conns (workers s))"
proof
  have total: "length (connList (sqlpool t)) + length (conns (workers t)) = unat maxconn"
    if "tp_reach T p n t" for t
  proof -
    from tp_reach_inv [OF that assms(1,2)]
    have "mset (connList (sqlpool t) @ conns (workers t)) = mset (connList p)"
      by (simp add: tp_inv_def)
    from arg_cong [OF this, of size] pool_init_fields(2) [OF assms(2)] show ?thesis
      by (simp del: mset_append)
  qed
  have "(\<forall>r c. Connected r c \<in> set (workers s) \<longrightarrow> c \<noteq> None) \<and> (\<forall>(r, c) \<in> set (processed s). c \<noteq> None)"
    using assms(3)
  proof (induction rule: tp_reach.induct)
    case (step s t)
    have "c \<noteq> None" if "i < length (workers s)" "workers s ! i = Got (Some r)"
      "connectionRAII_new (sqlpool s) = Some (Inr (c, q))" for i r c q
    proof -
      from conns_bound [of i "workers s"] that have "Suc (length (conns (workers s))) \<le> n"
        using tp_reach_workers [OF step(1)] by simp
      with total [OF step(1)] assms(4) have "connList (sqlpool s) \<noteq> []" by auto
      with sql.acquire_moves(3) [OF _ that(3)] tp_reach_inv [OF step(1) assms(1,2)] show ?thesis
        by (auto simp: tp_inv_def)
    qed
    note got = this
    have IH: "Connected r c \<in> set (workers s) \<Longrightarrow> c \<noteq> None" "rc \<in> set (processed s) \<Longrightarrow> snd rc \<noteq> None"
      for r c rc using step.IH by auto
    have upd: "Connected r c \<in> set ((workers s)[i := pc]) \<Longrightarrow> Connected r c \<noteq> pc \<Longrightarrow> c \<noteq> None" for i pc r c
      using IH(1) set_update_subset_insert [of "workers s" i pc] by blast
    from step(2) show ?case
    proof cases
      case (connect i r c p)
      with got [OF connect(2-4)] IH(2) upd [of _ _ i "Connected r c"] show ?thesis by fastforce
    next
      case (process i r c)
      with IH(1) nth_mem [OF process(2)] have "c \<noteq> None" by metis
      with process IH(2) upd [of _ _ i "Processed c"] show ?thesis by fastforce
    qed (use IH upd in \<open>fastforce split: if_splits\<close>)+
  qed simp
  then show "\<forall>(r, c) \<in> set (processed s). c \<noteq> None" ..
  from tp_reach_inv [OF assms(3,1,2)]
  have "mset (connList (sqlpool s) @ conns (workers s)) = mset (connList p)"
    by (simp add: tp_inv_def)
  with assms(5) show "distinct (conns (workers s))"
    by (metis mset_eq_imp_distinct_iff distinct_append)
qed

theorem worker_has_connection_witness:
  "processed demo_processed = [(7, Some 10)] \<and> distinct (conns (workers demo_processed))"
  using worker_has_connection [OF demo_tpool_new demo_init demo_processed_reach]
  by (simp add: demo_processed_def demo_pool_def)

end
