(* ===== verification/EventLoop.thy ===== *)
theory EventLoop
  imports HttpResponse HeapTimer ThreadPool
begin

text \<open>
  The event loop of \<open>src/main.cpp\<close>: the callback of the timers, the handlers of the epoll events, a round
  of the loop, and the step of a worker. An element of the arrays \<open>users\<close> and \<open>users_timer\<close> is
  found by its descriptor; a timer is an address in the store of \<open>timer_lst\<close>.
\<close>

section \<open>State\<close>

definition MAX_FD :: nat where "MAX_FD = 65536"
definition TIMESLOT :: int where "TIMESLOT = 5"

text \<open>\<open>new client_data[MAX_FD]\<close> initialises nothing.\<close>

record client_data =
  cd_address :: nat
  cd_sockfd :: "int cell"
  cd_timer :: "nat option cell"

text \<open>What the timers' callback reads and writes: the system and \<open>users_timer\<close>.\<close>

record 'd loop_ctx =
  sys :: "'d world"
  users_timer :: "nat \<Rightarrow> client_data"

record ('m, 'd) server =
  ctx :: "'d loop_ctx"
  user_conns :: "nat \<Rightarrow> 'm http_conn"   \<comment> \<open>the array \<open>users\<close>\<close>
  timer_lst :: "'d loop_ctx HeapTimer"
  pool :: "nat threadpool"               \<comment> \<open>a request is the index of its connection\<close>
  listenfd :: int
  pipe_read :: int                       \<comment> \<open>\<open>pipefd[0]\<close>\<close>
  timeout :: bool
  stop_server :: bool

definition on_sys :: "('d world \<Rightarrow> 'd world) \<Rightarrow> ('m, 'd) server \<Rightarrow> ('m, 'd) server" where
  "on_sys f S = S\<lparr>ctx := (ctx S)\<lparr>sys := f (sys (ctx S))\<rparr>\<rparr>"

text \<open>The two arrays have \<open>MAX_FD\<close> elements.\<close>

definition slot :: "int \<Rightarrow> nat res" where
  "slot fd = (if 0 \<le> fd \<and> fd < int MAX_FD then Inr (nat fd) else Inl OutOfBounds)"

text \<open>\<open>inet_ntoa\<close> of the address, whose bytes are in network order.\<close>

definition inet_ntoa :: "nat \<Rightarrow> string" where
  "inet_ntoa a =
     show_nat (a mod 256) @ ''.'' @ show_nat (a div 256 mod 256) @ ''.'' @
     show_nat (a div 65536 mod 256) @ ''.'' @ show_nat (a div 16777216 mod 256)"

section \<open>Timers\<close>

definition cb_close :: "nat \<Rightarrow> 'd loop_ctx \<Rightarrow> 'd loop_ctx res" where
  "cb_close u c =
     andThen (fetch (cd_sockfd (users_timer c u))) (\<lambda>fd.
       let w = sys c;
           w = epoll_ctl_del (m_epollfd w) fd w;
           w = emit (CloseFd fd) w;
           w = w\<lparr>m_user_count := m_user_count w - 1\<rparr>;
           w = emit (LogInfo (''close fd '' @ show_int fd)) w
       in Inr (c\<lparr>sys := w\<rparr>))"

text \<open>\<open>alarm\<close> makes the next \<open>SIGALRM\<close>, which comes back through the signal pipe.\<close>

definition alarmed :: "'d loop_ctx \<Rightarrow> 'd loop_ctx" where
  "alarmed c = c\<lparr>sys := emit (Alarm TIMESLOT) (sys c)\<rparr>"

definition timer_handler :: "int \<Rightarrow> ('m, 'd) server \<Rightarrow> ('m, 'd) server res" where
  "timer_handler now S =
     andThen (tick (\<lambda>s c. c\<lparr>sys := emit (LogInfo s) (sys c)\<rparr>) now (timer_lst S) (ctx S)) (\<lambda>(H, c).
       Inr (S\<lparr>timer_lst := H, ctx := alarmed c\<rparr>))"

text \<open>\<open>timer->cb_func(&users_timer[sockfd])\<close>, and then \<open>del_timer\<close> of a timer that is not null.\<close>

definition call_back :: "nat option \<Rightarrow> nat \<Rightarrow> ('m, 'd) server \<Rightarrow> ('m, 'd) server res" where
  "call_back timer i S =
     (case timer of
        None \<Rightarrow> Inl NullPointer
      | Some a \<Rightarrow>
          (case store (timer_lst S) a of
             None \<Rightarrow> Inl UseAfterFree
           | Some t \<Rightarrow> andThen (cb_func t i (ctx S)) (\<lambda>c. Inr (S\<lparr>ctx := c\<rparr>))))"

definition drop_connection :: "nat option \<Rightarrow> nat \<Rightarrow> ('m, 'd) server \<Rightarrow> ('m, 'd) server res" where
  "drop_connection timer i S =
     andThen (call_back timer i S) (\<lambda>S.
       case timer of
         None \<Rightarrow> Inr S
       | Some a \<Rightarrow> andThen (del_timer a (timer_lst S)) (\<lambda>H. Inr (S\<lparr>timer_lst := H\<rparr>)))"

text \<open>The connection has been active: three more units.\<close>

definition postpone :: "int \<Rightarrow> nat option \<Rightarrow> ('m, 'd) server \<Rightarrow> ('m, 'd) server res" where
  "postpone now timer S =
     (case timer of
        None \<Rightarrow> Inr S
      | Some a \<Rightarrow>
          (case store (timer_lst S) a of
             None \<Rightarrow> Inl UseAfterFree
           | Some t \<Rightarrow>
               let H = timer_lst S;
                   H = H\<lparr>store := (store H)(a \<mapsto> t\<lparr>expire := now + 3 * TIMESLOT\<rparr>)\<rparr>;
                   S = on_sys (emit (LogInfo ''adjust timer once'')) S
               in andThen (adjust_timer a H) (\<lambda>H. Inr (S\<lparr>timer_lst := H\<rparr>))))"

section \<open>New connections\<close>

text \<open>What \<open>accept\<close> returns: a descriptor with the client's address, the time, and the address \<open>new\<close> then
  finds for the timer; or an error number. When nothing is left it is \<open>EAGAIN\<close>.\<close>

datatype accept_result = Accepted int nat int nat | AcceptFails int

definition show_error :: "int \<Rightarrow> string \<Rightarrow> 'd world \<Rightarrow> 'd world" where
  "show_error connfd info w =
     emit (CloseFd connfd) (emit (SentBytes connfd info)
       (emit (LogError (''accept numbers are too big!, '' @ info)) w))"

definition new_connection :: "int \<Rightarrow> nat \<Rightarrow> int \<Rightarrow> nat \<Rightarrow> ('m, 'd) server \<Rightarrow> ('m, 'd) server res" where
  "new_connection connfd addr cur timer S =
     andThen (slot connfd) (\<lambda>i.
       let (h, w) = init_conn connfd addr (user_conns S i) (sys (ctx S));
           u = \<lparr>cd_address = addr, cd_sockfd = Set connfd, cd_timer = Set (Some timer)\<rparr>;
           t = \<lparr>expire = cur + 3 * TIMESLOT, cb_func = cb_close, user_data = i\<rparr>;
           H = timer_lst S;
           H = H\<lparr>store := (store H)(timer \<mapsto> t)\<rparr>
       in andThen (add_timer timer H) (\<lambda>H.
            Inr (S\<lparr>user_conns := (user_conns S)(i := h),
                   ctx := \<lparr>sys = w, users_timer = (users_timer (ctx S))(i := u)\<rparr>,
                   timer_lst := H\<rparr>)))"

definition accept_failed :: "int \<Rightarrow> ('m, 'd) server \<Rightarrow> ('m, 'd) server" where
  "accept_failed errno S = on_sys (emit (LogError (''accept error:errno is:'' @ show_int errno))) S"

fun accept_loop :: "accept_result list \<Rightarrow> ('m, 'd) server \<Rightarrow> ('m, 'd) server res" where
  "accept_loop [] S = Inr (accept_failed 11 S)"
| "accept_loop (AcceptFails errno # rest) S = Inr (accept_failed errno S)"
| "accept_loop (Accepted connfd addr cur timer # rest) S =
     (if m_user_count (sys (ctx S)) \<ge> int MAX_FD
      then Inr (on_sys (show_error connfd ''Internal server is busy'') S)
      else andThen (new_connection connfd addr cur timer S) (accept_loop rest))"

section \<open>Signals\<close>

fun read_signals :: "int list \<Rightarrow> ('m, 'd) server \<Rightarrow> ('m, 'd) server" where
  "read_signals [] S = S"
| "read_signals (sig # sigs) S =
     read_signals sigs
       (if sig = 14 then S\<lparr>timeout := True\<rparr>
        else if sig = 15 then on_sys (emit (LogInfo ''program exit!'')) (S\<lparr>stop_server := True\<rparr>)
        else S)"

section \<open>Data\<close>

definition client_log :: "string \<Rightarrow> 'm http_conn \<Rightarrow> 'd world \<Rightarrow> 'd world" where
  "client_log what h = emit (LogInfo (what @ '' the client('' @ inet_ntoa (m_address h) @ '')''))"

definition on_readable :: "int \<Rightarrow> recv_result list \<Rightarrow> int \<Rightarrow> ('m, 'd) server \<Rightarrow> ('m, 'd) server res" where
  "on_readable sockfd sock now S =
     andThen (slot sockfd) (\<lambda>i.
     andThen (fetch (cd_timer (users_timer (ctx S) i))) (\<lambda>timer.
     andThen (read_once sock (user_conns S i)) (\<lambda>(r, h, _).
       let S = S\<lparr>user_conns := (user_conns S)(i := h)\<rparr> in
       if r then
         let S = on_sys (client_log ''deal with'' h) S in
         andThen (append_request (Some i) (pool S)) (\<lambda>(_, T).
           postpone now timer (S\<lparr>pool := T\<rparr>))
       else drop_connection timer i S)))"

definition on_writable :: "int \<Rightarrow> writev_result list \<Rightarrow> int \<Rightarrow> ('m, 'd) server \<Rightarrow> ('m, 'd) server res" where
  "on_writable sockfd sock now S =
     andThen (slot sockfd) (\<lambda>i.
     andThen (fetch (cd_timer (users_timer (ctx S) i))) (\<lambda>timer.
     andThen (conn_write sock (user_conns S i) (sys (ctx S))) (\<lambda>(r, h, w).
       let S = S\<lparr>user_conns := (user_conns S)(i := h), ctx := (ctx S)\<lparr>sys := w\<rparr>\<rparr> in
       if r then
         let S = on_sys (client_log ''send data to'' h) S in
         postpone now timer S
       else drop_connection timer i S)))"

definition on_hangup :: "int \<Rightarrow> ('m, 'd) server \<Rightarrow> ('m, 'd) server res" where
  "on_hangup sockfd S =
     andThen (slot sockfd) (\<lambda>i.
     andThen (fetch (cd_timer (users_timer (ctx S) i))) (\<lambda>timer. drop_connection timer i S))"

section \<open>The loop\<close>

text \<open>An event, with what the calls of its handler meet: the queue of \<open>accept\<close>, the bytes of the pipe (\<open>None\<close>
  when \<open>recv\<close> fails or returns 0), the socket for reading and for writing, and the time.\<close>

record io_event =
  ev_fd :: int
  ev_mask :: "32 word"
  ev_accept :: "accept_result list"
  ev_signals :: "int list option"
  ev_recv :: "recv_result list"
  ev_send :: "writev_result list"
  ev_time :: int

definition handle_event :: "io_event \<Rightarrow> ('m, 'd) server \<Rightarrow> ('m, 'd) server res" where
  "handle_event e S =
     (if ev_fd e = listenfd S then accept_loop (ev_accept e) S
      else if ev_mask e AND (EPOLLRDHUP OR EPOLLHUP OR EPOLLERR) \<noteq> 0 then on_hangup (ev_fd e) S
      else if ev_fd e = pipe_read S \<and> ev_mask e AND EPOLLIN \<noteq> 0 then
        Inr (case ev_signals e of None \<Rightarrow> S | Some sigs \<Rightarrow> read_signals sigs S)
      else if ev_mask e AND EPOLLIN \<noteq> 0 then on_readable (ev_fd e) (ev_recv e) (ev_time e) S
      else if ev_mask e AND EPOLLOUT \<noteq> 0 then on_writable (ev_fd e) (ev_send e) (ev_time e) S
      else Inr S)"

fun handle_events :: "io_event list \<Rightarrow> ('m, 'd) server \<Rightarrow> ('m, 'd) server res" where
  "handle_events [] S = Inr S"
| "handle_events (e # es) S = andThen (handle_event e S) (handle_events es)"

definition after_events :: "int \<Rightarrow> ('m, 'd) server \<Rightarrow> ('m, 'd) server res" where
  "after_events now S =
     (if timeout S
      then andThen (timer_handler now S) (\<lambda>S. Inr (S\<lparr>timeout := False\<rparr>))
      else Inr S)"

text \<open>What \<open>epoll_wait\<close> returns: events with the time at the end of the round (none for \<open>EINTR\<close>), or an
  error.\<close>

datatype wait_result = Events "io_event list" int | EpollFails

text \<open>The server runs until a signal stops it or \<open>epoll_wait\<close> fails; it waits when no more results are given.\<close>

fun main_loop :: "wait_result list \<Rightarrow> ('m, 'd) server \<Rightarrow> ('m, 'd) server res" where
  "main_loop [] S = Inr S"
| "main_loop (r # rs) S =
     (if stop_server S then Inr S
      else case r of
             EpollFails \<Rightarrow> Inr (on_sys (emit (LogError ''epoll failure'')) S)
           | Events es now \<Rightarrow>
               andThen (handle_events es S) (\<lambda>S. andThen (after_events now S) (main_loop rs)))"

section \<open>Workers\<close>

text \<open>A worker that has taken request \<open>i\<close> and holds connection \<open>c\<close>: the rest of the body of
  \<open>threadpool::run\<close>.\<close>

definition serve_request :: "('m, 'd) os \<Rightarrow> 'm option \<Rightarrow> nat \<Rightarrow> ('m, 'd) server \<Rightarrow> ('m, 'd) server res" where
  "serve_request os c i S =
     andThen (process os ((user_conns S i)\<lparr>mysql := c\<rparr>) (sys (ctx S))) (\<lambda>(h, w).
       Inr (S\<lparr>user_conns := (user_conns S)(i := h), ctx := (ctx S)\<lparr>sys := w\<rparr>\<rparr>))"

end
