(* ===== verification/EventLoopInv.thy ===== *)
theory EventLoopInv
  imports EventLoop
begin

text \<open>
  The invariant of the event loop: connections, their registration with epoll, their timers and the
  count of users agree.
\<close>

section \<open>The invariant\<close>

definition registered :: "'d world \<Rightarrow> int set" where
  "registered w = dom (epoll w (m_epollfd w))"

text \<open>The descriptor a queued timer watches, and those of all queued timers.\<close>

definition watches :: "'s HeapTimer \<Rightarrow> nat \<Rightarrow> nat" where
  "watches H a = user_data (the (store H a))"

definition open_fds :: "'s HeapTimer \<Rightarrow> int set" where
  "open_fds H = (\<lambda>a. int (watches H a)) ` set (m_pq H)"

definition timer_of :: "(nat \<Rightarrow> client_data) \<Rightarrow> 'd loop_ctx HeapTimer \<Rightarrow> nat \<Rightarrow> bool" where
  "timer_of ut H a \<longleftrightarrow>
     (\<exists>t. store H a = Some t \<and> cb_func t = cb_close \<and> user_data t < MAX_FD \<and>
        cd_sockfd (ut (user_data t)) = Set (int (user_data t)) \<and>
        cd_timer (ut (user_data t)) = Set (Some a))"

definition loop_ok :: "int set \<Rightarrow> 'd loop_ctx HeapTimer \<Rightarrow> 'd loop_ctx \<Rightarrow> bool" where
  "loop_ok fixed H c \<longleftrightarrow>
     timers_ok H \<and> (\<forall>a \<in> set (m_pq H). timer_of (users_timer c) H a) \<and>
     fixed \<inter> open_fds H = {} \<and> registered (sys c) = open_fds H \<union> fixed \<and>
     m_user_count (sys c) = int (card (open_fds H))"

definition server_ok :: "('m, 'd) server \<Rightarrow> bool" where
  "server_ok S \<longleftrightarrow> loop_ok {listenfd S, pipe_read S} (timer_lst S) (ctx S)"

lemma timer_of_watches:
  assumes "timer_of ut H a"
  shows "cd_sockfd (ut (watches H a)) = Set (int (watches H a))" "cd_timer (ut (watches H a)) = Set (Some a)"
    "watches H a < MAX_FD"
  using assms by (auto simp: timer_of_def watches_def)

lemma watches_inj: "loop_ok F H c \<Longrightarrow> inj_on (\<lambda>a. int (watches H a)) (set (m_pq H))"
proof (rule inj_onI)
  fix a b
  assume l: "loop_ok F H c" and a: "a \<in> set (m_pq H)" "b \<in> set (m_pq H)" "int (watches H a) = int (watches H b)"
  have t: "timer_of (users_timer c) H x" if "x \<in> set (m_pq H)" for x
    using l that by (simp add: loop_ok_def)
  have "Set (Some a) = Set (Some b)"
    using timer_of_watches(2) [OF t [OF a(1)]] timer_of_watches(2) [OF t [OF a(2)]] a(3) by (metis of_nat_eq_iff)
  then show "a = b" by simp
qed

lemma card_open_fds: "loop_ok F H c \<Longrightarrow> card (open_fds H) = card (set (m_pq H))"
  unfolding open_fds_def by (rule card_image [OF watches_inj])

lemma finite_open_fds [simp]: "finite (open_fds H)"
  by (simp add: open_fds_def)

text \<open>An open descriptor has a timer, and \<open>users_timer\<close> points to it.\<close>

lemma open_fd_timer:
  assumes "loop_ok F H c" and "fd \<in> open_fds H"
  obtains i a t where "fd = int i" "i < MAX_FD" "a \<in> set (m_pq H)" "store H a = Some t" "user_data t = i"
    "cb_func t = cb_close" "watches H a = i" "cd_sockfd (users_timer c i) = Set (int i)"
    "cd_timer (users_timer c i) = Set (Some a)"
  using assms by (fastforce simp: loop_ok_def open_fds_def timer_of_def watches_def)

section \<open>Closing\<close>

lemma registered_simps [simp]:
  "registered (emit e w) = registered w"
  "registered (w\<lparr>m_user_count := n\<rparr>) = registered w"
  "registered (epoll_ctl_del (m_epollfd w) fd w) = registered w - {fd}"
  "registered (modfd k fd ev w) = registered w"
  "m_user_count (emit e w) = m_user_count w"
  "m_user_count (modfd k fd ev w) = m_user_count w"
  "m_user_count (epoll_ctl_del k fd w) = m_user_count w"
  "m_epollfd (epoll_ctl_del k fd w) = m_epollfd w"
  "m_epollfd (modfd k fd ev w) = m_epollfd w"
  by (auto simp: registered_def emit_def epoll_ctl_del_def modfd_def epoll_ctl_mod_def)

text \<open>The effect of the callback on descriptor \<open>i\<close>.\<close>

definition closed :: "nat \<Rightarrow> 'd loop_ctx \<Rightarrow> 'd loop_ctx" where
  "closed i c =
     (let w = sys c; w = emit (CloseFd (int i)) (epoll_ctl_del (m_epollfd w) (int i) w);
          w = w\<lparr>m_user_count := m_user_count w - 1\<rparr>
      in c\<lparr>sys := emit (LogInfo (''close fd '' @ show_int (int i))) w\<rparr>)"

lemma closed_simps [simp]:
  "registered (sys (closed i c)) = registered (sys c) - {int i}"
  "m_user_count (sys (closed i c)) = m_user_count (sys c) - 1"
  "users_timer (closed i c) = users_timer c"
  by (simp_all add: closed_def Let_def)

lemma cb_close_closed: "cd_sockfd (users_timer c i) = Set (int i) \<Longrightarrow> cb_close i c = Inr (closed i c)"
  by (simp add: cb_close_def closed_def Let_def)

lemma call_back_closed:
  assumes "server_ok S" and "a \<in> set (m_pq (timer_lst S))" and "watches (timer_lst S) a = i"
  shows "call_back (Some a) i S = Inr (S\<lparr>ctx := closed i (ctx S)\<rparr>)"
  using assms by (auto simp: server_ok_def loop_ok_def timer_of_def watches_def call_back_def cb_close_closed)

text \<open>Taking timers out of the queue together with their descriptors keeps the invariant.\<close>

lemma loop_ok_remove:
  assumes "loop_ok F H c" and "timers_ok H'" and "set (m_pq H') = set (m_pq H) - A" and "A \<subseteq> set (m_pq H)"
    and "\<And>a. a \<in> set (m_pq H') \<Longrightarrow> store H' a = store H a"
    and "users_timer c' = users_timer c" and "registered (sys c') = registered (sys c) - (\<lambda>a. int (watches H a)) ` A"
    and "m_user_count (sys c') = m_user_count (sys c) - int (card A)"
  shows "loop_ok F H' c'" and "open_fds H' = open_fds H - (\<lambda>a. int (watches H a)) ` A"
proof -
  let ?w = "\<lambda>a. int (watches H a)"
  note inj = watches_inj [OF assms(1)]
  have "open_fds H' = ?w ` (set (m_pq H) - A)"
    unfolding open_fds_def assms(3) [symmetric] by (intro image_cong) (simp_all add: watches_def assms(5))
  also have "\<dots> = open_fds H - ?w ` A"
    unfolding open_fds_def using inj_on_image_set_diff [OF inj _ assms(4)] by blast
  finally show o: "open_fds H' = open_fds H - ?w ` A" .
  have sub: "?w ` A \<subseteq> open_fds H" using assms(4) by (auto simp: open_fds_def)
  have "card (?w ` A) = card A" using inj assms(4) by (intro card_image) (rule inj_on_subset)
  then have "int (card (open_fds H')) = int (card (open_fds H)) - int (card A)"
    using card_Diff_subset [OF finite_subset [OF sub] sub] card_mono [OF _ sub] by (simp add: o)
  moreover have "timer_of (users_timer c') H' a" if "a \<in> set (m_pq H')" for a
  proof -
    have "timer_of (users_timer c) H a" using that assms(1,3) by (auto simp: loop_ok_def)
    then show ?thesis using assms(5) [OF that] assms(6) by (auto simp: timer_of_def)
  qed
  ultimately show "loop_ok F H' c'"
    using assms(1,2,7,8) sub unfolding loop_ok_def o by auto
qed

lemma drop_connection_ok:
  assumes "server_ok S" and "a \<in> set (m_pq (timer_lst S))" and "watches (timer_lst S) a = i"
  shows "\<exists>H'. drop_connection (Some a) i S = Inr (S\<lparr>ctx := closed i (ctx S), timer_lst := H'\<rparr>) \<and>
    server_ok (S\<lparr>ctx := closed i (ctx S), timer_lst := H'\<rparr>) \<and>
    open_fds H' = open_fds (timer_lst S) - {int i} \<and> store H' = store (timer_lst S)"
proof -
  let ?H = "timer_lst S"
  have ok: "timers_ok ?H" using assms(1) by (simp add: server_ok_def loop_ok_def)
  have "m_pq ?H \<noteq> []" using assms(2) by auto
  then obtain H' where H': "del_timer a ?H = Inr H'" "timers_ok H'" "store H' = store ?H"
    "set (m_pq H') = set (m_pq ?H) - {a}"
    using del_timer_ok [of ?H a] ok by (auto simp: timers_ok_def)
  have "loop_ok {listenfd S, pipe_read S} H' (closed i (ctx S))"
    "open_fds H' = open_fds ?H - {int i}"
    using loop_ok_remove [OF assms(1) [unfolded server_ok_def] H'(2,4), of "closed i (ctx S)"] assms(2,3) H'(3)
    by simp_all
  then show ?thesis
    using H' call_back_closed [OF assms] by (auto simp: drop_connection_def server_ok_def)
qed

section \<open>Opening\<close>

definition accept_ok :: "accept_result list \<Rightarrow> int set \<Rightarrow> nat set \<Rightarrow> bool" where
  "accept_ok rs R D \<longleftrightarrow>
     (let fds = concat (map (\<lambda>r. case r of Accepted fd _ _ _ \<Rightarrow> [fd] | _ \<Rightarrow> []) rs);
          ps = concat (map (\<lambda>r. case r of Accepted _ _ _ p \<Rightarrow> [p] | _ \<Rightarrow> []) rs)
      in distinct fds \<and> set fds \<inter> R = {} \<and> distinct ps \<and> set ps \<inter> D = {})"

lemma accept_ok_Cons:
  "accept_ok (Accepted fd addr cur p # rs) R D \<longleftrightarrow> fd \<notin> R \<and> p \<notin> D \<and> accept_ok rs (insert fd R) (insert p D)"
  by (auto simp: accept_ok_def Let_def)

lemma init_conn_world:
  assumes "fd \<notin> registered w"
  shows "registered (snd (init_conn fd addr h w)) = insert fd (registered w)"
    "m_user_count (snd (init_conn fd addr h w)) = m_user_count w + 1"
  using assms by (auto simp: init_conn_def addfd_def setnonblocking_def epoll_ctl_add_def registered_def Let_def dom_def)

lemma timers_ok_store:
  assumes "timers_ok H" and "p \<notin> dom (store H)"
  shows "timers_ok (H\<lparr>store := (store H)(p \<mapsto> t)\<rparr>)" and "p \<notin> set (m_pq H)"
proof -
  show p: "p \<notin> set (m_pq H)" using assms by (auto simp: timers_ok_def live_iff)
  have "is_heap (timer_key ((store H)(p \<mapsto> t))) (m_pq H) = is_heap (timer_key (store H)) (m_pq H)"
    using p by (intro is_heap_key_cong) (auto simp: timer_key_def)
  with assms(1) show "timers_ok (H\<lparr>store := (store H)(p \<mapsto> t)\<rparr>)"
    by (auto simp: timers_ok_def live_iff)
qed

lemma loop_ok_add:
  assumes "loop_ok F H c" and "timers_ok H'" and "set (m_pq H') = insert p (set (m_pq H))"
    and "store H' = (store H)(p \<mapsto> \<lparr>expire = e, cb_func = cb_close, user_data = i\<rparr>)" and "p \<notin> dom (store H)"
    and "i < MAX_FD" and "int i \<notin> registered (sys c)"
    and "users_timer c' = (users_timer c)(i := \<lparr>cd_address = addr, cd_sockfd = Set (int i), cd_timer = Set (Some p)\<rparr>)"
    and "registered (sys c') = insert (int i) (registered (sys c))"
    and "m_user_count (sys c') = m_user_count (sys c) + 1"
  shows "loop_ok F H' c'" and "open_fds H' = insert (int i) (open_fds H)"
proof -
  have p: "p \<notin> set (m_pq H)"
    using assms(1,5) by (auto simp: loop_ok_def timers_ok_def live_iff)
  have w: "watches H' a = (if a = p then i else watches H a)" for a by (simp add: watches_def assms(4))
  show o: "open_fds H' = insert (int i) (open_fds H)"
    using p by (auto simp: open_fds_def assms(3) w)
  have n: "int i \<notin> open_fds H" "int i \<notin> F" using assms(1,7) by (auto simp: loop_ok_def)
  have "timer_of (users_timer c') H' a" if "a \<in> set (m_pq H')" for a
  proof (cases "a = p")
    case True
    then show ?thesis by (simp add: timer_of_def assms(4,6,8))
  next
    case False
    with that assms(3) have a: "a \<in> set (m_pq H)" by simp
    then have ne: "watches H a \<noteq> i" using n(1) unfolding open_fds_def by blast
    have "timer_of (users_timer c) H a" using a assms(1) by (simp add: loop_ok_def)
    then obtain t where t: "store H a = Some t" "cb_func t = cb_close" "user_data t < MAX_FD"
      "cd_sockfd (users_timer c (user_data t)) = Set (int (user_data t))"
      "cd_timer (users_timer c (user_data t)) = Set (Some a)" by (auto simp: timer_of_def)
    with ne have "user_data t \<noteq> i" by (simp add: watches_def)
    with t False show ?thesis unfolding timer_of_def assms(4,8) by simp
  qed
  moreover have "m_user_count (sys c') = int (card (open_fds H'))"
    using n(1) assms(1,10) by (simp add: o loop_ok_def)
  ultimately show "loop_ok F H' c'"
    using assms(1,2,9) n unfolding loop_ok_def o by auto
qed

lemma new_connection_ok:
  assumes "server_ok S" and "fd \<notin> registered (sys (ctx S))" and "p \<notin> dom (store (timer_lst S))"
    and "new_connection fd addr cur p S = Inr S'"
  shows "server_ok S'" and "registered (sys (ctx S')) = insert fd (registered (sys (ctx S)))"
    and "dom (store (timer_lst S')) = insert p (dom (store (timer_lst S)))"
    and "open_fds (timer_lst S') = insert fd (open_fds (timer_lst S))"
proof -
  let ?H = "timer_lst S" and ?w = "sys (ctx S)"
  from assms(4) obtain i where i: "slot fd = Inr i" by (auto simp: new_connection_def)
  then have fd: "fd = int i" "i < MAX_FD" by (auto simp: slot_def split: if_splits)
  let ?t = "\<lparr>expire = cur + 3 * TIMESLOT, cb_func = cb_close, user_data = i\<rparr>"
  let ?H1 = "?H\<lparr>store := (store ?H)(p \<mapsto> ?t)\<rparr>"
  have t: "timers_ok ?H" using assms(1) by (simp add: server_ok_def loop_ok_def)
  obtain H' where H': "add_timer p ?H1 = Inr H'" "timers_ok H'" "store H' = store ?H1"
    "set (m_pq H') = insert p (set (m_pq ?H1))"
    using add_timer_ok [of ?H1 p ?t] timers_ok_store [OF t assms(3)] by auto
  obtain h w where hw: "init_conn fd addr (user_conns S i) ?w = (h, w)" by fastforce
  let ?c = "\<lparr>sys = w, users_timer = (users_timer (ctx S))
      (i := \<lparr>cd_address = addr, cd_sockfd = Set fd, cd_timer = Set (Some p)\<rparr>)\<rparr>"
  have S': "S' = S\<lparr>user_conns := (user_conns S)(i := h), ctx := ?c, timer_lst := H'\<rparr>"
    using assms(4) i hw H'(1) by (simp add: new_connection_def Let_def)
  have w: "registered w = insert fd (registered ?w)" "m_user_count w = m_user_count ?w + 1"
    using init_conn_world [OF assms(2), of addr "user_conns S i"] hw by simp_all
  have "loop_ok {listenfd S, pipe_read S} H' ?c" "open_fds H' = insert (int i) (open_fds ?H)"
    using loop_ok_add [OF assms(1) [unfolded server_ok_def] H'(2), of p "cur + 3 * TIMESLOT" i ?c addr]
      H'(3,4) assms(2,3) fd w by simp_all
  then show "server_ok S'" "registered (sys (ctx S')) = insert fd (registered (sys (ctx S)))"
    "dom (store (timer_lst S')) = insert p (dom (store (timer_lst S)))"
    "open_fds (timer_lst S') = insert fd (open_fds (timer_lst S))"
    using S' w H'(3) fd by (simp_all add: server_ok_def)
qed

lemma server_ok_on_sys:
  assumes "server_ok S" and "registered (f (sys (ctx S))) = registered (sys (ctx S))"
    and "m_user_count (f (sys (ctx S))) = m_user_count (sys (ctx S))"
  shows "server_ok (on_sys f S)"
  using assms by (simp add: server_ok_def loop_ok_def on_sys_def)

lemma on_sys_simps [simp]:
  "timer_lst (on_sys f S) = timer_lst S" "listenfd (on_sys f S) = listenfd S" "pipe_read (on_sys f S) = pipe_read S"
  "sys (ctx (on_sys f S)) = f (sys (ctx S))" "users_timer (ctx (on_sys f S)) = users_timer (ctx S)"
  "user_conns (on_sys f S) = user_conns S" "pool (on_sys f S) = pool S"
  by (simp_all add: on_sys_def)

lemma accept_loop_ok:
  "\<lbrakk>server_ok S; accept_ok rs (registered (sys (ctx S))) (dom (store (timer_lst S))); accept_loop rs S = Inr S'\<rbrakk>
   \<Longrightarrow> server_ok S' \<and> open_fds (timer_lst S) \<subseteq> open_fds (timer_lst S')"
proof (induction rs S rule: accept_loop.induct)
  case (1 S)
  then show ?case by (auto simp: accept_failed_def intro!: server_ok_on_sys)
next
  case (2 errno rest S)
  then show ?case by (auto simp: accept_failed_def intro!: server_ok_on_sys)
next
  case (3 fd addr cur p rest S)
  show ?case
  proof (cases "m_user_count (sys (ctx S)) \<ge> int MAX_FD")
    case True
    with 3(2,4) show ?thesis by (auto simp: show_error_def intro!: server_ok_on_sys)
  next
    case False
    with 3(4) obtain S1 where S1: "new_connection fd addr cur p S = Inr S1" "accept_loop rest S1 = Inr S'" by auto
    from 3(3) have f: "fd \<notin> registered (sys (ctx S))" "p \<notin> dom (store (timer_lst S))"
      "accept_ok rest (insert fd (registered (sys (ctx S)))) (insert p (dom (store (timer_lst S))))"
      by (simp_all add: accept_ok_Cons)
    note n = new_connection_ok [OF 3(2) f(1,2) S1(1)]
    from 3(1) [OF False S1(1) n(1) _ S1(2)] f(3) n(2,3,4) show ?thesis by auto
  qed
qed

section \<open>Activity\<close>

lemma open_fds_cong:
  "set (m_pq H') = set (m_pq H) \<Longrightarrow> (\<And>a. a \<in> set (m_pq H) \<Longrightarrow> watches H' a = watches H a) \<Longrightarrow> open_fds H' = open_fds H"
  unfolding open_fds_def by (simp cong: image_cong)

lemma postpone_ok:
  assumes "server_ok S" and "a \<in> set (m_pq (timer_lst S))"
  shows "\<exists>S'. postpone now (Some a) S = Inr S' \<and> server_ok S' \<and> open_fds (timer_lst S') = open_fds (timer_lst S) \<and>
    timer_key (store (timer_lst S')) a = now + 3 * TIMESLOT"
proof -
  let ?H = "timer_lst S"
  from assms have ok: "loop_ok {listenfd S, pipe_read S} ?H (ctx S)" and tok: "timers_ok ?H"
    by (auto simp: server_ok_def loop_ok_def)
  then have "timer_of (users_timer (ctx S)) ?H a" using assms(2) by (simp add: loop_ok_def)
  then obtain t where t: "store ?H a = Some t" by (auto simp: timer_of_def)
  let ?H1 = "?H\<lparr>store := (store ?H)(a \<mapsto> t\<lparr>expire := now + 3 * TIMESLOT\<rparr>)\<rparr>"
  have "live ?H1" "distinct (m_pq ?H1)" "a \<in> set (m_pq ?H1)"
    using tok assms(2) by (auto simp: timers_ok_def live_iff)
  then obtain H' where H': "adjust_timer a ?H1 = Inr H'" "timers_ok H'" "store H' = store ?H1"
    "set (m_pq H') = set (m_pq ?H)" using adjust_timer_ok by fastforce
  have w: "watches H' b = watches ?H b" for b using t by (simp add: watches_def H'(3))
  have o: "open_fds H' = open_fds ?H" using open_fds_cong H'(4) w by metis
  have "timer_of (users_timer (ctx S)) H' b" if "timer_of (users_timer (ctx S)) ?H b" for b
    using that t unfolding timer_of_def by (auto simp: H'(3))
  then have "loop_ok {listenfd S, pipe_read S} H' (ctx S)"
    using ok H'(2,4) by (simp add: loop_ok_def o)
  then show ?thesis using t H'
    by (auto simp: postpone_def Let_def server_ok_def loop_ok_def on_sys_def o timer_key_def)
qed

text \<open>The entries an event's handler finds.\<close>

lemma event_timer:
  assumes "server_ok S" and "fd \<in> open_fds (timer_lst S)"
  obtains i a where "slot fd = Inr i" "fd = int i" "a \<in> set (m_pq (timer_lst S))" "watches (timer_lst S) a = i"
    "cd_timer (users_timer (ctx S) i) = Set (Some a)"
proof -
  from open_fd_timer [OF assms(1) [unfolded server_ok_def] assms(2)] obtain i a where
    "fd = int i" "i < MAX_FD" "a \<in> set (m_pq (timer_lst S))" "watches (timer_lst S) a = i"
    "cd_timer (users_timer (ctx S) i) = Set (Some a)" by metis
  moreover from this have "slot fd = Inr i" by (simp add: slot_def)
  ultimately show thesis using that by blast
qed

lemma on_hangup_ok:
  assumes "server_ok S" and "fd \<in> open_fds (timer_lst S)"
  shows "\<exists>H'. on_hangup fd S = Inr (S\<lparr>ctx := closed (nat fd) (ctx S), timer_lst := H'\<rparr>) \<and>
    server_ok (S\<lparr>ctx := closed (nat fd) (ctx S), timer_lst := H'\<rparr>) \<and> open_fds H' = open_fds (timer_lst S) - {fd}"
proof -
  obtain i a where i: "slot fd = Inr i" "fd = int i" "a \<in> set (m_pq (timer_lst S))" "watches (timer_lst S) a = i"
    "cd_timer (users_timer (ctx S) i) = Set (Some a)" using event_timer [OF assms] .
  then show ?thesis using drop_connection_ok [OF assms(1) i(3,4)] by (auto simp: on_hangup_def)
qed

lemma unmap_world: "unmap h w = Inr (h', w') \<Longrightarrow> registered w' = registered w \<and> m_user_count w' = m_user_count w \<and> m_epollfd w' = m_epollfd w"
  by (auto simp: unmap_def split: option.splits)

lemma write_loop_world:
  "write_loop sock h w = Inr (r, h', w') \<Longrightarrow>
     registered w' = registered w \<and> m_user_count w' = m_user_count w \<and> m_epollfd w' = m_epollfd w"
proof (induction sock h w rule: write_loop.induct)
  case (4 n sock h w)
  from "4.prems" obtain s h1 where s: "iov_all h = Inr s" "after_write (int (length (take n s))) h = Inr h1"
    and e: "(if bytes_to_send h1 \<le> 0 then
         andThen (unmap h1 (emit (SentBytes (m_sockfd h) (take n s)) w)) (\<lambda>(h, w).
         let w = modfd (m_epollfd w) (m_sockfd h) EPOLLIN w in
           if m_linger h then Inr (True, init h, w) else Inr (False, h, w))
       else write_loop sock h1 (emit (SentBytes (m_sockfd h) (take n s)) w)) = Inr (r, h', w')"
    by (auto simp: Let_def)
  show ?case
  proof (cases "bytes_to_send h1 \<le> 0")
    case True
    with e show ?thesis by (auto simp: Let_def dest!: unmap_world split: if_splits)
  next
    case False
    with e "4.IH" [OF s(1) refl s(2)] show ?thesis by auto
  qed
qed (auto dest: unmap_world)

lemma conn_write_world:
  "conn_write sock h w = Inr (r, h', w') \<Longrightarrow>
     registered w' = registered w \<and> m_user_count w' = m_user_count w \<and> m_epollfd w' = m_epollfd w"
  by (auto simp: conn_write_def dest: write_loop_world split: if_splits)

text \<open>A handler closes its own connection or keeps all.\<close>

definition closes_at_most :: "int \<Rightarrow> ('m, 'd) server \<Rightarrow> ('m, 'd) server \<Rightarrow> bool" where
  "closes_at_most fd S S' \<longleftrightarrow>
     open_fds (timer_lst S') = open_fds (timer_lst S) \<or> open_fds (timer_lst S') = open_fds (timer_lst S) - {fd}"

lemma drop_event:
  assumes "server_ok S" and "a \<in> set (m_pq (timer_lst S))" and "watches (timer_lst S) a = i"
    and "drop_connection (Some a) i S = Inr S'"
  shows "server_ok S' \<and> open_fds (timer_lst S') = open_fds (timer_lst S) - {int i}"
proof -
  from drop_connection_ok [OF assms(1,2,3)] obtain H' where
    H': "drop_connection (Some a) i S = Inr (S\<lparr>ctx := closed i (ctx S), timer_lst := H'\<rparr>)"
      "server_ok (S\<lparr>ctx := closed i (ctx S), timer_lst := H'\<rparr>)" "open_fds H' = open_fds (timer_lst S) - {int i}"
    by blast
  then have "S' = S\<lparr>ctx := closed i (ctx S), timer_lst := H'\<rparr>" using assms(4) by simp
  with H' show ?thesis by simp
qed

lemma postpone_event:
  assumes "server_ok S" and "a \<in> set (m_pq (timer_lst S))" and "postpone now (Some a) S = Inr S'"
  shows "server_ok S' \<and> open_fds (timer_lst S') = open_fds (timer_lst S)"
  using postpone_ok [OF assms(1,2), of now] assms(3) by auto

lemma on_readable_ok:
  assumes "server_ok S" and "fd \<in> open_fds (timer_lst S)" and "on_readable fd sock now S = Inr S'"
  shows "server_ok S' \<and> closes_at_most fd S S'"
proof -
  obtain i a where i: "slot fd = Inr i" "fd = int i" "a \<in> set (m_pq (timer_lst S))" "watches (timer_lst S) a = i"
    "cd_timer (users_timer (ctx S) i) = Set (Some a)" using event_timer [OF assms(1,2)] .
  from assms(3) i obtain r h rest where r: "read_once sock (user_conns S i) = Inr (r, h, rest)"
    by (auto simp: on_readable_def)
  let ?S = "S\<lparr>user_conns := (user_conns S)(i := h)\<rparr>"
  let ?L = "on_sys (client_log ''deal with'' h) ?S"
  have ok: "server_ok ?S" using assms(1) by (simp add: server_ok_def)
  then have okL: "server_ok ?L" by (intro server_ok_on_sys) (simp_all add: client_log_def)
  show ?thesis
  proof (cases r)
    case True
    with assms(3) i r obtain T where T: "postpone now (Some a) (?L\<lparr>pool := T\<rparr>) = Inr S'"
      by (auto simp: on_readable_def Let_def)
    have "server_ok (?L\<lparr>pool := T\<rparr>)" using okL by (simp add: server_ok_def)
    from postpone_event [OF this _ T] i show ?thesis by (simp add: closes_at_most_def)
  next
    case False
    with assms(3) i r have "drop_connection (Some a) i ?S = Inr S'" by (auto simp: on_readable_def Let_def)
    from drop_event [OF ok _ _ this] i show ?thesis by (simp add: closes_at_most_def)
  qed
qed

lemma on_writable_ok:
  assumes "server_ok S" and "fd \<in> open_fds (timer_lst S)" and "on_writable fd sock now S = Inr S'"
  shows "server_ok S' \<and> closes_at_most fd S S'"
proof -
  obtain i a where i: "slot fd = Inr i" "fd = int i" "a \<in> set (m_pq (timer_lst S))" "watches (timer_lst S) a = i"
    "cd_timer (users_timer (ctx S) i) = Set (Some a)" using event_timer [OF assms(1,2)] .
  from assms(3) i obtain r h w where r: "conn_write sock (user_conns S i) (sys (ctx S)) = Inr (r, h, w)"
    by (auto simp: on_writable_def)
  let ?S = "S\<lparr>user_conns := (user_conns S)(i := h), ctx := (ctx S)\<lparr>sys := w\<rparr>\<rparr>"
  let ?L = "on_sys (client_log ''send data to'' h) ?S"
  have ok: "server_ok ?S" using assms(1) conn_write_world [OF r] by (simp add: server_ok_def loop_ok_def)
  then have okL: "server_ok ?L" by (intro server_ok_on_sys) (simp_all add: client_log_def)
  show ?thesis
  proof (cases r)
    case True
    with assms(3) i r have "postpone now (Some a) ?L = Inr S'" by (auto simp: on_writable_def Let_def)
    from postpone_event [OF okL _ this] i show ?thesis by (simp add: closes_at_most_def)
  next
    case False
    with assms(3) i r have "drop_connection (Some a) i ?S = Inr S'" by (auto simp: on_writable_def Let_def)
    from drop_event [OF ok _ _ this] i show ?thesis by (simp add: closes_at_most_def)
  qed
qed

section \<open>Expiry\<close>

text \<open>The callbacks of a list of timers close their descriptors in that order.\<close>

definition closed_all :: "nat list \<Rightarrow> 'd loop_ctx \<Rightarrow> 'd loop_ctx" where
  "closed_all is c = fold closed is c"

lemma closed_all_simps [simp]:
  "closed_all [] c = c"
  "closed_all (i # is) c = closed_all is (closed i c)"
  by (simp_all add: closed_all_def)

lemma closed_all_effect:
  "users_timer (closed_all is c) = users_timer c \<and>
   registered (sys (closed_all is c)) = registered (sys c) - int ` set is \<and>
   m_user_count (sys (closed_all is c)) = m_user_count (sys c) - int (length is)"
  by (induction "is" arbitrary: c) auto

lemma run_callbacks_closed:
  "(\<And>a. a \<in> set as \<Longrightarrow> \<exists>t. store H a = Some t \<and> cb_func t = cb_close \<and>
        cd_sockfd (users_timer c (user_data t)) = Set (int (user_data t))) \<Longrightarrow>
     run_callbacks (store H) as c = Inr (closed_all (map (watches H) as) c)"
proof (induction as arbitrary: c)
  case (Cons a as)
  from Cons.prems [of a] obtain t where t: "store H a = Some t" "cb_func t = cb_close"
    "cd_sockfd (users_timer c (user_data t)) = Set (int (user_data t))" by auto
  then have "cb_func t (user_data t) c = Inr (closed (watches H a) c)"
    by (simp add: cb_close_closed watches_def)
  moreover have "run_callbacks (store H) as (closed (watches H a) c) =
      Inr (closed_all (map (watches H) as) (closed (watches H a) c))"
    using Cons.prems by (intro Cons.IH) simp
  ultimately show ?case using t(1) by simp
qed simp

text \<open>A tick over timers that close sockets, under the assumptions a callback needs.\<close>

definition closing_timers :: "'d loop_ctx HeapTimer \<Rightarrow> 'd loop_ctx \<Rightarrow> bool" where
  "closing_timers H c \<longleftrightarrow>
     (\<forall>a \<in> set (m_pq H). \<exists>t. store H a = Some t \<and> cb_func t = cb_close \<and>
        cd_sockfd (users_timer c (user_data t)) = Set (int (user_data t)))"

lemma tick_closes:
  assumes "timers_ok H" and "closing_timers H c"
  shows "\<exists>H' fired. tick_loop (length (m_pq H)) now H c = Inr (H', closed_all (map (watches H) fired) c) \<and>
    distinct fired \<and> sorted (map (timer_key (store H)) fired) \<and>
    set fired = {a \<in> set (m_pq H). timer_key (store H) a \<le> now} \<and> timers_ok H' \<and>
    set (m_pq H') = set (m_pq H) - set fired \<and> store H' = store H |` (- set fired)"
proof -
  let ?I = "\<lambda>d. users_timer d = users_timer c"
  have "\<exists>d'. cb_func t (user_data t) d = Inr d' \<and> ?I d'"
    if a: "a \<in> set (m_pq H)" "store H a = Some t" "?I d" for a t d
  proof -
    from assms(2) a have "cb_func t = cb_close" "cd_sockfd (users_timer d (user_data t)) = Set (int (user_data t))"
      by (auto simp: closing_timers_def)
    with a(3) show ?thesis by (simp add: cb_close_closed)
  qed
  then have "ok (tick_loop (length (m_pq H)) now H c)"
    using assms(1) by (intro tick_loop_total_inv [where I = ?I]) simp_all
  then obtain H' c' where r: "tick_loop (length (m_pq H)) now H c = Inr (H', c')" by (auto simp: ok_iff)
  from tick_loop_spec [OF assms(1) order_refl r] obtain fired where
    f: "sorted (map (timer_key (store H)) fired)" "distinct fired"
     "set fired = {a \<in> set (m_pq H). timer_key (store H) a \<le> now}"
     "run_callbacks (store H) fired c = Inr c'" "timers_ok H'" "set (m_pq H') = set (m_pq H) - set fired"
     "store H' = store H |` (- set fired)" by blast
  have "set fired \<subseteq> set (m_pq H)" using f(3) by blast
  then have "run_callbacks (store H) fired c = Inr (closed_all (map (watches H) fired) c)"
    using assms(2) by (intro run_callbacks_closed) (auto simp: closing_timers_def)
  with r f show ?thesis by auto
qed

lemma alarmed_simps [simp]:
  "registered (sys (alarmed c)) = registered (sys c)" "m_user_count (sys (alarmed c)) = m_user_count (sys c)"
  "users_timer (alarmed c) = users_timer c" "trace (sys (alarmed c)) = trace (sys c) @ [Alarm TIMESLOT]"
  by (simp_all add: alarmed_def) (simp add: emit_def)

lemma timer_handler_ok:
  assumes "server_ok S"
  shows "\<exists>S' fired. timer_handler now S = Inr S' \<and> server_ok S' \<and>
    distinct fired \<and> sorted (map (timer_key (store (timer_lst S))) fired) \<and>
    set fired = {a \<in> set (m_pq (timer_lst S)). timer_key (store (timer_lst S)) a \<le> now} \<and>
    ctx S' = alarmed (closed_all (map (watches (timer_lst S)) fired)
      ((ctx S)\<lparr>sys := emit (LogInfo ''timer tick'') (sys (ctx S))\<rparr>)) \<and>
    open_fds (timer_lst S') = open_fds (timer_lst S) - (\<lambda>a. int (watches (timer_lst S) a)) ` set fired"
proof -
  let ?H = "timer_lst S" and ?c = "(ctx S)\<lparr>sys := emit (LogInfo ''timer tick'') (sys (ctx S))\<rparr>"
  let ?F = "{listenfd S, pipe_read S}"
  have ok: "loop_ok ?F ?H ?c" and t: "timers_ok ?H"
    using assms by (simp_all add: server_ok_def loop_ok_def)
  have "closing_timers ?H ?c"
    using ok unfolding loop_ok_def closing_timers_def timer_of_def by blast
  from tick_closes [OF t this, of now] obtain H' fired where
    f: "tick_loop (length (m_pq ?H)) now ?H ?c = Inr (H', closed_all (map (watches ?H) fired) ?c)"
    "distinct fired" "sorted (map (timer_key (store ?H)) fired)"
    "set fired = {a \<in> set (m_pq ?H). timer_key (store ?H) a \<le> now}" "timers_ok H'"
    "set (m_pq H') = set (m_pq ?H) - set fired" "store H' = store ?H |` (- set fired)" by blast
  let ?c' = "closed_all (map (watches ?H) fired) ?c"
  have r: "timer_handler now S = Inr (S\<lparr>timer_lst := H', ctx := alarmed ?c'\<rparr>)"
    using f(1) t by (simp add: timer_handler_def tick_def timers_ok_def)
  have sub: "set fired \<subseteq> set (m_pq ?H)" using f(4) by blast
  have same: "store H' a = store ?H a" if "a \<in> set (m_pq H')" for a using that f(6,7) by auto
  have e: "users_timer ?c' = users_timer ?c"
    "registered (sys ?c') = registered (sys ?c) - (\<lambda>a. int (watches ?H a)) ` set fired"
    "m_user_count (sys ?c') = m_user_count (sys ?c) - int (card (set fired))"
    using closed_all_effect [of "map (watches ?H) fired" ?c] f(2) by (simp_all add: image_image distinct_card)
  then have "loop_ok ?F H' (alarmed ?c')" "open_fds H' = open_fds ?H - (\<lambda>a. int (watches ?H a)) ` set fired"
    using loop_ok_remove [OF ok f(5,6) sub same, of "alarmed ?c'"] by simp_all
  with r f(2,3,4) show ?thesis by (intro exI [of _ "S\<lparr>timer_lst := H', ctx := alarmed ?c'\<rparr>"] exI [of _ fired]) (simp add: server_ok_def)
qed

end
