(* ===== verification/HttpReply.thy ===== *)
theory HttpReply
  imports HttpResponse
begin

text \<open>
  The properties of the response side: which text a response is, that \<open>write\<close> delivers exactly that text
  whatever the socket accepts, and the states in which it does not.
\<close>

section \<open>From \<open>process_write\<close> to \<open>write\<close>\<close>

text \<open>A connection just reset by \<open>init\<close>.\<close>

definition ready :: "'m http_conn \<Rightarrow> bool" where
  "ready h \<longleftrightarrow> holds h [] \<and> bytes_have_send h = 0"

lemma ready_init: "ready (init h)"
  unfolding ready_def using holds_init by (simp add: init_def)

definition error_page :: "HTTP_CODE \<Rightarrow> (int \<times> string \<times> string) option" where
  "error_page ret =
     (case ret of
        INTERNAL_ERROR \<Rightarrow> Some (500, error_500_title, error_500_form)
      | BAD_REQUEST \<Rightarrow> Some (404, error_404_title, error_404_form)
      | FORBIDDEN_REQUEST \<Rightarrow> Some (403, error_403_title, error_403_form)
      | _ \<Rightarrow> None)"

definition reply_text :: "int \<Rightarrow> string \<Rightarrow> bool \<Rightarrow> string \<Rightarrow> string" where
  "reply_text status title linger content =
     status_text status title @ header_text (int (length content)) linger @ content"

lemma error_page_fits:
  assumes "error_page ret = Some (status, title, form)"
  shows "NUL \<notin> set title" "NUL \<notin> set form" "length (reply_text status title linger form) < 1023"
proof -
  have "length (show_int (int n)) \<le> 3" if "n < 1000" for n
    using that by (intro length_show_int) simp_all
  from this [of 500] this [of 404] this [of 403] this [of "length error_500_form"]
    this [of "length error_404_form"] this [of "length error_403_form"] assms
  show "NUL \<notin> set title" "NUL \<notin> set form" "length (reply_text status title linger form) < 1023"
    by (cases ret; auto simp: error_page_def reply_text_def status_text_def header_text_def crlf_def
        error_500_title_def error_500_form_def error_404_title_def error_404_form_def
        error_403_title_def error_403_form_def)+
qed

lemma process_write_error:
  "error_page ret = Some (status, title, form) \<Longrightarrow> process_write ret h w = error_response status title form h w"
  by (cases ret) (auto simp: process_write_def error_page_def)

lemma holds_fields:
  assumes "holds h hdr"
  shows "m_write_idx h = length hdr" "take (length hdr) (m_write_buf h) = hdr"
  using assms by (simp_all add: holds_def)

lemma reply_text_pos: "0 < length (reply_text status title linger content)"
  by (simp add: reply_text_def status_text_def)

lemma sending_start:
  assumes "holds h hdr" and "hdr \<noteq> []" and "bytes_have_send h = 0" and "m_file_stat h = Set st"
    and "m_file_address h = Set (Some (Mapping i s))" and "s \<noteq> []" and "int (length s) < 2000000000"
  shows "sending (h\<lparr>m_iv0 := \<lparr>iov_base = WriteBuf 0, iov_len = int (length hdr)\<rparr>,
         m_iv1 := \<lparr>iov_base = FileAt (Some (Mapping i s)) 0, iov_len = int (length s)\<rparr>, m_iv_count := 2,
         bytes_to_send := int (length hdr) + int (length s)\<rparr>) hdr s"
proof -
  have "length hdr < 1024" using assms(1) by (simp add: holds_def WRITE_BUFFER_SIZE_def)
  moreover have "0 < length hdr" using assms(2) by simp
  ultimately show ?thesis using assms(2-7) holds_fields [OF assms(1)]
    by (simp add: sending_def Let_def del: length_greater_0_conv)
qed

section \<open>The demonstration connection\<close>

definition demo_reply :: "unit http_conn" where
  "demo_reply = (init (demo_conn 0 []))\<lparr>m_file_address := Set (Some (Mapping 1 ''abc'')),
     m_file_stat := Set \<lparr>st_mode = 0x81A4, st_size = 3\<rparr>\<rparr>"

text \<open>A response of eight bytes of header and three of file.\<close>

definition demo_sending :: "unit http_conn" where
  "demo_sending = demo_reply\<lparr>m_write_buf := ''12345678'', m_write_idx := 8, bytes_to_send := 11,
     m_iv0 := \<lparr>iov_base = WriteBuf 0, iov_len = 8\<rparr>,
     m_iv1 := \<lparr>iov_base = FileAt (Some (Mapping 1 ''abc'')) 0, iov_len = 3\<rparr>, m_iv_count := 2\<rparr>"

lemma demo_sending: "sending demo_sending ''12345678'' ''abc''"
  by (simp add: sending_def demo_sending_def demo_reply_def init_def)

text \<open>An error page made ready.\<close>

lemma error_reply_ready:
  assumes "ready h" and "m_file_address h = Set None" and "error_page ret = Some (status, title, form)"
  shows "\<exists>h' w'. process_write ret h w = Inr (True, h', w') \<and>
    sending h' (reply_text status title (m_linger h) form) [] \<and> bytes_have_send h' = 0 \<and>
    m_linger h' = m_linger h \<and> m_sockfd h' = m_sockfd h \<and> logged w w'"
proof -
  note fits = error_page_fits(1,2) [OF assms(3)] error_page_fits(3) [OF assms(3), of "m_linger h"]
  from error_response_fits [of h title form status w] assms(1) fits obtain h1 w1 where
    1: "error_response status title form h w = Inr (True, send_buffer h1, w1)"
      "holds h1 (reply_text status title (m_linger h) form)" "same_but_buf h h1" "logged w w1"
    by (auto simp: ready_def reply_text_def)
  note f = same_but_buf_fields [OF 1(3)] and b = holds_fields [OF 1(2)]
  have "sending (send_buffer h1) (reply_text status title (m_linger h) form) []"
    using f b assms(1,2) fits(3) reply_text_pos [of status title "m_linger h" form]
    by (simp add: sending_def send_buffer_def ready_def)
  with 1 f assms(1) show ?thesis
    by (simp add: process_write_error [OF assms(3)] send_buffer_def ready_def)
qed

section \<open>Properties\<close>

text \<open>C5: what \<open>process_write\<close> makes of each result of the parser but a file, on a connection ready for a new request whose
  \<open>m_file_address\<close> has been set to null (no constructor does that). An internal error, a malformed request and a forbidden file are answered with a complete page: status line, \<open>Content-Length\<close> of the page,
  \<open>Connection\<close>, a blank line and the page. The text fits the buffer whatever the request was, and the connection is
  then in the state from which \<open>write\<close> sends it. A malformed request is answered with status 404. Every other code, among
  them \<open>NO_RESOURCE\<close>, a file that does not exist, has no case: nothing is written and the result is false, so
  the connection gets no response.\<close>

theorem error_reply:
  assumes "ready h" and "m_file_address h = Set None" and "ret \<noteq> FILE_REQUEST"
  shows "case error_page ret of
      Some (status, title, form) \<Rightarrow>
        \<exists>h' w'. process_write ret h w = Inr (True, h', w') \<and>
          sending h' (reply_text status title (m_linger h) form) [] \<and> bytes_have_send h' = 0 \<and>
          m_linger h' = m_linger h \<and> m_sockfd h' = m_sockfd h \<and> logged w w'
    | None \<Rightarrow>
        ret \<notin> {INTERNAL_ERROR, BAD_REQUEST, FORBIDDEN_REQUEST} \<and> process_write ret h w = Inr (False, h, w)"
proof (cases "error_page ret")
  case None
  with assms(3) show ?thesis by (cases ret) (simp_all add: error_page_def process_write_def)
next
  case (Some p)
  obtain status title form where p: "p = (status, title, form)" by (cases p)
  from error_reply_ready [OF assms(1,2) Some [unfolded p], of w] Some p show ?thesis by simp
qed

theorem error_reply_witness:
  "(\<exists>h' w'. process_write BAD_REQUEST (demo_reply\<lparr>m_file_address := Set None\<rparr>) demo_world = Inr (True, h', w') \<and>
     sending h' (reply_text 404 ''Not Found'' False error_404_form) []) \<and>
   process_write NO_RESOURCE (demo_reply\<lparr>m_file_address := Set None\<rparr>) demo_world =
     Inr (False, demo_reply\<lparr>m_file_address := Set None\<rparr>, demo_world)"
proof -
  have "ready (demo_reply\<lparr>m_file_address := Set None\<rparr>)"
    by (simp add: ready_def holds_def demo_reply_def init_def WRITE_BUFFER_SIZE_def)
  from error_reply [OF this, of BAD_REQUEST demo_world] error_reply [OF this, of NO_RESOURCE demo_world]
  show ?thesis by (auto simp: error_page_def error_404_title_def demo_reply_def init_def)
qed

text \<open>A file that is not empty (and smaller than 2 GB) is answered with status 200, its size as
  \<open>Content-Length\<close>, and the vectors of \<open>write\<close> stand for the header followed by the mapped file.\<close>

lemma file_reply_ready:
  assumes "ready h" and "m_file_stat h = Set st" and "m_file_address h = Set (Some (Mapping i s))"
    and "st_size st = length s" and "s \<noteq> []" and "int (length s) < 2000000000"
  shows "\<exists>h' w'. process_write FILE_REQUEST h w = Inr (True, h', w') \<and>
    sending h' (status_text 200 ''OK'' @ header_text (int (length s)) (m_linger h)) s \<and>
    bytes_have_send h' = 0 \<and> m_linger h' = m_linger h \<and> m_sockfd h' = m_sockfd h \<and> logged w w'"
proof -
  let ?hdr = "status_text 200 ''OK'' @ header_text (int (length s)) (m_linger h)"
  from file_response_fits [of h st "Some (Mapping i s)" w] assms obtain h1 w1 where
    1: "file_response h w = Inr (True,
      h1\<lparr>m_iv0 := \<lparr>iov_base = WriteBuf 0, iov_len = int (length ?hdr)\<rparr>,
         m_iv1 := \<lparr>iov_base = FileAt (Some (Mapping i s)) 0, iov_len = int (length s)\<rparr>, m_iv_count := 2,
         bytes_to_send := int (length ?hdr) + int (length s)\<rparr>, w1)"
      "holds h1 ?hdr" "same_but_buf h h1" "logged w w1"
    by (auto simp: ready_def ok_200_title_def)
  note f = same_but_buf_fields [OF 1(3)] and b = holds_fields [OF 1(2)]
  have "?hdr \<noteq> []" by (simp add: status_text_def)
  note sending_start [OF 1(2) this _ _ _ assms(5,6), of st i]
  with f assms(1,2,3) 1(4) show ?thesis
    unfolding process_write_def HTTP_CODE.case 1(1)
    by (simp add: ready_def del: length_append append_assoc)
qed

lemma conn_write_sends:
  assumes "sending h hdr file" and "header_ok (length hdr) (nat (bytes_have_send h)) sock"
  shows "\<exists>alive h' w'. conn_write sock h w = Inr (alive, h', w') \<and> delivered hdr file sock h w alive h' w'"
proof -
  have "bytes_to_send h \<noteq> 0" using assms(1) by (auto simp: sending_def Let_def)
  then show ?thesis using write_loop_sends [OF assms, of w] by (simp add: conn_write_def)
qed

text \<open>C4: \<open>write\<close> sends exactly the rest of the response: as many of its bytes, in order, as the socket has
  room for. When everything is sent the file is unmapped, the socket is armed for reading and the result
  says whether to keep the connection, which is then reset by \<open>init\<close>; when the socket fills up, the connection is still sending, from
  the right offset, and is armed for writing; on an error the file is unmapped and the result is false.
  The socket may accept the bytes in any pieces, with at most one of them ending inside the header.\<close>

theorem response_delivered:
  assumes "sending h hdr file" and "header_ok (length hdr) (nat (bytes_have_send h)) sock"
  shows "\<exists>alive h' w'. conn_write sock h w = Inr (alive, h', w') \<and> delivered hdr file sock h w alive h' w'"
  by (rule conn_write_sends [OF assms])

theorem response_delivered_witness:
  "\<exists>alive h' w'. conn_write [Room 5, Room 4, Room 9] demo_sending demo_world = Inr (alive, h', w') \<and>
     delivered ''12345678'' ''abc'' [Room 5, Room 4, Room 9] demo_sending demo_world alive h' w'"
  by (rule response_delivered [OF demo_sending]) (simp add: demo_sending_def demo_reply_def init_def)

text \<open>Some results of \<open>process_read\<close> have no response. For a file that does not exist
  (\<open>NO_RESOURCE\<close>) \<open>process\<close> closes the connection without a byte: the descriptor leaves the epoll
  instance, the count of users falls by one and the socket becomes -1, which the last \<open>modfd\<close> of the
  function, a call on descriptor -1, does not change.\<close>

lemma missing_file_closes:
  assumes "process_read os h w = Inr (NO_RESOURCE, h1, w1)" and "m_sockfd h1 \<noteq> -1"
    and "epoll w1 (m_epollfd w1) (-1) = None"
  shows "process os h w = Inr (h1\<lparr>m_sockfd := -1\<rparr>,
    w1\<lparr>epoll := (epoll w1)(m_epollfd w1 := (epoll w1 (m_epollfd w1))(m_sockfd h1 := None)),
       trace := trace w1 @ [CloseFd (m_sockfd h1)], m_user_count := m_user_count w1 - 1\<rparr>)"
  using assms
  by (simp add: process_def process_write_def close_conn_def removefd_def epoll_ctl_del_def emit_def
      modfd_def epoll_ctl_mod_def)

text \<open>A GET request, just received, at the header that ends it; nothing is there under its name.\<close>

definition demo_missing :: "unit http_conn" where
  "demo_missing = (demo_conn 9 [CHR ''/'', CHR ''x'', NUL, CR, LF])\<lparr>m_check_state := CHECK_STATE_HEADER,
     m_checked_idx := 3, m_start_line := 3, m_url := Some 0\<rparr>"

lemma demo_missing_read:
  "case process_read demo_os demo_missing demo_world of
     Inr (c, h, w) \<Rightarrow> c = NO_RESOURCE \<and> m_sockfd h = 5 \<and> m_epollfd w = 3 \<and> epoll w 3 (-1) = None
   | Inl _ \<Rightarrow> False"
  by code_simp

lemma missing_file_closes_witness:
  "\<exists>h w. process demo_os demo_missing demo_world = Inr (h, w) \<and> m_sockfd h = -1 \<and> CloseFd 5 \<in> set (trace w)"
proof -
  obtain h1 w1 where "process_read demo_os demo_missing demo_world = Inr (NO_RESOURCE, h1, w1)"
    "m_sockfd h1 = 5" "m_epollfd w1 = 3" "epoll w1 3 (-1) = None"
    using demo_missing_read by (auto split: sum.splits)
  with missing_file_closes [of demo_os demo_missing demo_world h1 w1] show ?thesis by auto
qed

text \<open>\<open>write\<close> does not survive two short writes inside the header. The second shortens the length of the
  first vector by all the bytes sent so far and not by the bytes just sent; so once the bytes sent reach
  half of what is left, the header counts as sent and the file vector starts before the file.\<close>

lemma two_short_writes_fault:
  assumes "sending h hdr s" and "s \<noteq> []" and "bytes_have_send h = 0" and "0 < a" and "a + b < length hdr"
    and "length hdr \<le> a + a + b"
  shows "conn_write (Room a # Room b # Room c # sock) h w = Inl OutOfBounds"
proof -
  from assms(1-3) obtain i where s: "bytes_to_send h = int (length (hdr @ s))"
    "int (length (hdr @ s)) < 18446744073709551616" "m_write_idx h = length hdr"
    "take (length hdr) (m_write_buf h) = hdr" "m_iv_count h = 2" "m_file_address h = Set (Some (Mapping i s))"
    "m_iv0 h = \<lparr>iov_base = WriteBuf 0, iov_len = int (length hdr)\<rparr>"
    using assms(5) by (auto simp: sending_def Let_def split: if_splits)
  let ?n = "int (length hdr)" and ?t = "int (length (hdr @ s))"
  define h1 where "h1 = h\<lparr>bytes_have_send := int a, bytes_to_send := ?t - int a,
      m_iv0 := \<lparr>iov_base = WriteBuf (int a), iov_len = ?n - int a\<rparr>\<rparr>"
  define h2 where "h2 = h1\<lparr>bytes_have_send := int a + int b, bytes_to_send := ?t - int a - int b,
      m_iv0 := \<lparr>iov_base = WriteBuf (int a), iov_len = 0\<rparr>,
      m_iv1 := \<lparr>iov_base = FileAt (Some (Mapping i s)) (int a + int b - ?n), iov_len = ?t - int a - int b\<rparr>\<rparr>"
  obtain t0 where 0: "iov_all h = Inr t0" "a \<le> length t0"
    using iov_all_sending [OF assms(1)] assms(3,5) by auto
  have r1: "after_write (int a) h = Inr h1"
    using s(1,2,3,7) assms(3,4,5) by (simp add: after_write_def to_size_t_def h1_def)
  have "sending h1 hdr s"
    using after_write_sending [OF assms(1), of a a] assms(3,5) r1 by (auto simp: h1_def)
  from iov_all_sending [OF this] obtain t1 where 1: "iov_all h1 = Inr t1" "b \<le> length t1"
    using assms(5) by (auto simp: h1_def)
  have r2: "after_write (int b) h1 = Inr h2"
    using s assms(4,5,6) by (simp add: after_write_def to_size_t_def h1_def h2_def)
  have "iov_all h2 = Inl OutOfBounds"
    using s(5) assms(2,5) by (simp add: iov_all_def iov_bytes_def slice_def h1_def h2_def)
  then show ?thesis
    using 0 1 r1 r2 s(1) assms(2,5) by (simp add: conn_write_def h1_def h2_def)
qed

lemma two_short_writes_fault_witness:
  "conn_write [Room 4, Room 3, Room 100] demo_sending demo_world = Inl OutOfBounds"
  by (rule two_short_writes_fault [OF demo_sending]) (simp_all add: demo_sending_def demo_reply_def init_def)

text \<open>The first response of a connection object must be a file. \<open>m_file_address\<close> is set by no
  constructor and not by \<open>init\<close>; when an error page is the first response, \<open>write\<close> computes with the
  indeterminate pointer as soon as the header buffer is sent.\<close>

lemma first_error_reply_indeterminate:
  assumes "ready h" and "m_file_address h = Unset" and "error_page ret = Some (status, title, form)"
    and "length (reply_text status title (m_linger h) form) \<le> n"
  shows "\<exists>h' w'. process_write ret h w = Inr (True, h', w') \<and>
    conn_write (Room n # sock) h' w' = Inl Indeterminate"
proof -
  let ?t = "reply_text status title (m_linger h) form"
  note fits = error_page_fits(1,2) [OF assms(3)] error_page_fits(3) [OF assms(3), of "m_linger h"]
  from error_response_fits [of h title form status w] assms(1) fits obtain h1 w1 where
    1: "error_response status title form h w = Inr (True, send_buffer h1, w1)"
      "holds h1 ?t" "same_but_buf h h1"
    by (auto simp: ready_def reply_text_def)
  note f = same_but_buf_fields [OF 1(3)] and b = holds_fields [OF 1(2)]
  have "iov_all (send_buffer h1) = Inr ?t"
    using b reply_text_pos [of status title "m_linger h" form] 1(2)
    by (simp add: iov_all_def send_buffer_def iov_bytes_def slice_def holds_def)
  moreover have "after_write (int (length ?t)) (send_buffer h1) = Inl Indeterminate"
    using f b assms(1,2) fits(3) by (simp add: after_write_def send_buffer_def ready_def to_size_t_def)
  ultimately show ?thesis
    using 1(1) b reply_text_pos [of status title "m_linger h" form] assms(4)
    by (simp add: process_write_error [OF assms(3)] conn_write_def) (simp add: send_buffer_def)
qed

lemma first_error_reply_indeterminate_witness:
  "\<exists>h' w'. process_write FORBIDDEN_REQUEST (init (demo_conn 0 [])) demo_world = Inr (True, h', w') \<and>
     conn_write [Room 1023] h' w' = Inl Indeterminate"
  using first_error_reply_indeterminate [OF ready_init, of "demo_conn 0 []" FORBIDDEN_REQUEST 403
      error_403_title error_403_form 1023 demo_world "[]"]
    error_page_fits(3) [of FORBIDDEN_REQUEST 403 error_403_title error_403_form False]
  by (simp add: error_page_def init_def demo_conn_def)

section \<open>The write buffer\<close>

definition buf_ok :: "'m http_conn \<Rightarrow> bool" where
  "buf_ok h \<longleftrightarrow> length (m_write_buf h) = WRITE_BUFFER_SIZE \<and> m_write_idx h < WRITE_BUFFER_SIZE"

lemma add_response_ok:
  assumes "buf_ok h"
  shows "\<exists>r h' w'. add_response s h w = Inr (r, h', w') \<and> buf_ok h' \<and> same_but_buf h h' \<and> logged w w'"
proof (cases "length s < 1023 - m_write_idx h")
  case True
  let ?b = "take (m_write_idx h) (m_write_buf h) @ s @ NUL # drop (m_write_idx h + Suc (length s)) (m_write_buf h)"
  have "snprintf (m_write_buf h) (m_write_idx h) (1023 - m_write_idx h) s = Inr (length s, ?b)"
    using snprintf_fits [OF True, of "m_write_idx h" "m_write_buf h"] assms
    by (simp add: buf_ok_def WRITE_BUFFER_SIZE_def)
  moreover obtain l where "cstr ?b 0 = Inr l" using cstr_ok [of 0 ?b] by auto
  moreover have "length ?b = 1024" using assms True by (simp add: buf_ok_def WRITE_BUFFER_SIZE_def)
  ultimately show ?thesis using assms True
    by (auto simp: add_response_def buf_ok_def same_but_buf_def WRITE_BUFFER_SIZE_def intro: logged_emit)
next
  case False
  have "\<exists>b. snprintf (m_write_buf h) (m_write_idx h) (1023 - m_write_idx h) s = Inr (length s, b) \<and> length b = 1024"
  proof (cases "1023 - m_write_idx h")
    case 0
    with assms show ?thesis by (simp add: snprintf_def buf_ok_def WRITE_BUFFER_SIZE_def)
  next
    case (Suc n)
    then have "m_write_idx h + length (take n s @ [NUL]) \<le> length (m_write_buf h)"
      using assms False by (simp add: buf_ok_def WRITE_BUFFER_SIZE_def)
    with Suc assms show ?thesis by (simp add: snprintf_def buf_ok_def WRITE_BUFFER_SIZE_def put_ok)
  qed
  with assms False show ?thesis
    by (auto simp: add_response_def buf_ok_def same_but_buf_def WRITE_BUFFER_SIZE_def)
qed

lemma add_headers_ok:
  assumes "buf_ok h"
  shows "\<exists>h' w'. add_headers n h w = Inr (h', w') \<and> buf_ok h' \<and> same_but_buf h h' \<and> logged w w'"
proof -
  from add_response_ok [OF assms, of "''Content-Length:'' @ show_int n @ crlf" w] obtain r1 h1 w1 where
    1: "add_content_length n h w = Inr (r1, h1, w1)" "buf_ok h1" "same_but_buf h h1" "logged w w1"
    by (auto simp: add_content_length_def)
  from add_response_ok [OF 1(2), of "''Connection:'' @ (if m_linger h1 then ''keep-alive'' else ''close'') @ crlf" w1]
  obtain r2 h2 w2 where 2: "add_linger h1 w1 = Inr (r2, h2, w2)" "buf_ok h2" "same_but_buf h1 h2" "logged w1 w2"
    by (auto simp: add_linger_def)
  from add_response_ok [OF 2(2), of crlf w2] obtain r3 h3 w3 where
    3: "add_blank_line h2 w2 = Inr (r3, h3, w3)" "buf_ok h3" "same_but_buf h2 h3" "logged w2 w3"
    by (auto simp: add_blank_line_def)
  have "same_but_buf h h3" "logged w w3"
    using 1(3,4) 2(3,4) 3(3,4) same_but_buf_trans logged_trans by metis+
  with 1(1) 2(1) 3(1,2) show ?thesis by (simp add: add_headers_def)
qed

lemma error_response_ok:
  assumes "buf_ok h"
  shows "\<exists>r h' w'. error_response status title form h w = Inr (r, h', w') \<and> buf_ok h' \<and> logged w w'"
proof -
  from add_response_ok [OF assms, of "status_text status title" w] obtain r1 h1 w1 where
    1: "add_status_line status title h w = Inr (r1, h1, w1)" "buf_ok h1" "logged w w1"
    by (auto simp: add_status_line_text)
  from add_headers_ok [OF 1(2), of "int (length form)" w1] obtain h2 w2 where
    2: "add_headers (int (length form)) h1 w1 = Inr (h2, w2)" "buf_ok h2" "logged w1 w2" by blast
  from add_response_ok [OF 2(2), of form w2] obtain r3 h3 w3 where
    3: "add_content form h2 w2 = Inr (r3, h3, w3)" "buf_ok h3" "logged w2 w3"
    by (auto simp: add_content_def)
  have "logged w w3" using 1(3) 2(3) 3(3) logged_trans by metis
  with 1(1) 2(1) 3(1,2) show ?thesis by (cases r3) (auto simp: error_response_def send_buffer_def buf_ok_def)
qed

lemma file_response_ok:
  assumes "buf_ok h" and "m_file_stat h = Set st" and "m_file_address h = Set p"
  shows "\<exists>r h' w'. file_response h w = Inr (r, h', w') \<and> buf_ok h' \<and> logged w w'"
proof -
  from add_response_ok [OF assms(1), of "status_text 200 ok_200_title" w] obtain r1 h1 w1 where
    1: "add_status_line 200 ok_200_title h w = Inr (r1, h1, w1)" "buf_ok h1" "same_but_buf h h1" "logged w w1"
    by (auto simp: add_status_line_text)
  note f1 = same_but_buf_fields [OF 1(3)]
  let ?n = "if st_size st \<noteq> 0 then to_int (int (st_size st)) else 26"
  from add_headers_ok [OF 1(2), of ?n w1] obtain h2 w2 where
    2: "add_headers ?n h1 w1 = Inr (h2, w2)" "buf_ok h2" "same_but_buf h1 h2" "logged w1 w2" by blast
  note f2 = same_but_buf_fields [OF 2(3)]
  from add_response_ok [OF 2(2), of "''<html><body></body></html>''" w2] obtain r3 h3 w3 where
    3: "add_content ''<html><body></body></html>'' h2 w2 = Inr (r3, h3, w3)" "buf_ok h3" "logged w2 w3"
    by (auto simp: add_content_def)
  have "logged w w2" "logged w w3" using 1(4) 2(4) 3(3) logged_trans by metis+
  with 1(1) 2(1,2) 3(1,2) f1 f2 assms(2,3) show ?thesis
    by (auto simp: file_response_def buf_ok_def)
qed

text \<open>C34: the formatting of a response stays inside the buffer and never faults. From any state with the
  index inside the 1024 bytes, and with the file of the request looked up, \<open>process_write\<close> returns for
  every result code, the index is still inside, and all it did to the world is to log.\<close>

theorem process_write_in_bounds:
  assumes "buf_ok h" and "m_file_stat h = Set st" and "m_file_address h = Set p"
  shows "\<exists>r h' w'. process_write ret h w = Inr (r, h', w') \<and> buf_ok h' \<and> logged w w'"
proof (cases "error_page ret")
  case None
  then show ?thesis using file_response_ok [OF assms, of w] assms(1)
    by (cases ret) (auto simp: process_write_def error_page_def)
next
  case (Some page)
  obtain status title form where "page = (status, title, form)" by (cases page)
  with Some show ?thesis using error_response_ok [OF assms(1)] by (simp add: process_write_error)
qed

theorem process_write_in_bounds_witness:
  "\<exists>r h' w'. process_write FILE_REQUEST (demo_reply\<lparr>m_write_idx := 1023\<rparr>) demo_world = Inr (r, h', w') \<and> buf_ok h'"
proof -
  have "buf_ok (demo_reply\<lparr>m_write_idx := 1023\<rparr>)"
    by (simp add: buf_ok_def demo_reply_def init_def WRITE_BUFFER_SIZE_def)
  moreover have "m_file_stat (demo_reply\<lparr>m_write_idx := 1023\<rparr>) = Set \<lparr>st_mode = 0x81A4, st_size = 3\<rparr>"
    "m_file_address (demo_reply\<lparr>m_write_idx := 1023\<rparr>) = Set (Some (Mapping 1 ''abc''))"
    by (simp_all add: demo_reply_def)
  ultimately show ?thesis using process_write_in_bounds by blast
qed

end
