(* ===== verification/HttpFrame.thy ===== *)
theory HttpFrame
  imports HttpReply
begin

text \<open>
  What processing a request leaves alone: the socket of the connection, the interest lists of epoll and the
  count of users change only where \<open>process\<close> closes the connection.
\<close>

definition table_kept :: "'d world \<Rightarrow> 'd world \<Rightarrow> bool" where
  "table_kept w w' \<longleftrightarrow> epoll w' = epoll w \<and> m_epollfd w' = m_epollfd w \<and> m_user_count w' = m_user_count w"

lemma table_kept_refl [simp]: "table_kept w w" "table_kept w (emit e w)"
  by (simp_all add: table_kept_def emit_def)

lemma table_kept_trans: "table_kept a b \<Longrightarrow> table_kept b c \<Longrightarrow> table_kept a c"
  by (simp add: table_kept_def)

lemma table_kept_emit [simp]: "table_kept (emit e w) w' = table_kept w w'"
  by (simp add: table_kept_def emit_def)

lemma logged_kept: "logged w w' \<Longrightarrow> table_kept w w'"
  by (auto simp: logged_def table_kept_def)

section \<open>Parsing\<close>

lemma parse_line_fd: "parse_line h = Inr (st, h') \<Longrightarrow> m_sockfd h' = m_sockfd h"
proof (induction h rule: parse_line.induct)
  case (1 h)
  show ?case
  proof (cases "m_checked_idx h < m_read_idx h \<and> m_checked_idx h < length (m_read_buf h) \<and>
      m_read_buf h ! m_checked_idx h \<noteq> CR \<and> m_read_buf h ! m_checked_idx h \<noteq> LF")
    case True
    with "1.prems" have "parse_line (h\<lparr>m_checked_idx := m_checked_idx h + 1\<rparr>) = Inr (st, h')"
      by (subst (asm) parse_line.simps) (simp add: Let_def rd_ok)
    with "1.IH" [OF refl, of "m_read_buf h ! m_checked_idx h"] True show ?thesis
      by (auto simp: rd_ok)
  next
    case False
    with "1.prems" show ?thesis
      by (subst (asm) parse_line.simps) (auto simp: Let_def split: if_splits)
  qed
qed

lemma skip_scheme_fd: "skip_scheme lit h = Inr h' \<Longrightarrow> m_sockfd h' = m_sockfd h"
  by (auto simp: skip_scheme_def split: if_splits)

lemma check_path_fd: "check_path h = Inr (c, h') \<Longrightarrow> m_sockfd h' = m_sockfd h"
  by (auto simp: check_path_def split: if_splits option.splits)

lemma parse_method_fd: "parse_method p h = Inr (b, h') \<Longrightarrow> m_sockfd h' = m_sockfd h"
  by (auto simp: parse_method_def split: if_splits)

lemma parse_path_fd: "parse_path h = Inr (c, h') \<Longrightarrow> m_sockfd h' = m_sockfd h"
  by (auto simp: parse_path_def dest!: skip_scheme_fd check_path_fd)

lemma parse_request_line_fd: "parse_request_line p h = Inr (c, h') \<Longrightarrow> m_sockfd h' = m_sockfd h"
  by (clarsimp simp: parse_request_line_def Let_def simp del: rd_Inr wr_Inr split: if_splits option.splits)
    (fastforce dest: parse_method_fd parse_path_fd)+

lemma parse_headers_post: "post (\<lambda>(c, h', w'). m_sockfd h' = m_sockfd h \<and> table_kept w w') (parse_headers p h w)"
  unfolding parse_headers_def by (intro post_andThen post_if) simp_all

lemma parse_headers_fd: "parse_headers p h w = Inr (c, h', w') \<Longrightarrow> m_sockfd h' = m_sockfd h \<and> table_kept w w'"
  using postD [OF parse_headers_post] by fastforce

lemma parse_content_fd: "parse_content p h = Inr (c, h') \<Longrightarrow> m_sockfd h' = m_sockfd h"
  by (auto simp: parse_content_def split: if_splits)

section \<open>The request\<close>

lemma register_kept: "register os con name password w = Inr (page, w') \<Longrightarrow> table_kept w w'"
  by (auto simp: register_def Let_def table_kept_def emit_def case_prod_beta split: if_splits)

lemma append_path_fd: "append_path s h = Inr h' \<Longrightarrow> m_sockfd h' = m_sockfd h"
  by (auto simp: append_path_def)

lemma append_url_fd: "append_url h = Inr h' \<Longrightarrow> m_sockfd h' = m_sockfd h"
  by (auto simp: append_url_def dest: append_path_fd)

lemma request_path_fd: "request_path os h w = Inr (h', w') \<Longrightarrow> m_sockfd h' = m_sockfd h \<and> table_kept w w'"
  by (auto simp: request_path_def Let_def dest!: append_path_fd append_url_fd register_kept
      split: if_splits option.splits)

lemma open_file_fd: "open_file os h = Inr (c, h') \<Longrightarrow> m_sockfd h' = m_sockfd h"
  by (auto simp: open_file_def Let_def split: option.splits if_splits)

lemma do_request_fd: "do_request os h w = Inr (c, h', w') \<Longrightarrow> m_sockfd h' = m_sockfd h \<and> table_kept w w'"
  by (auto simp: do_request_def dest!: request_path_fd open_file_fd)

lemma loop_body_fd:
  "loop_body os st h w = Inr (r, st', h', w') \<Longrightarrow> m_sockfd h' = m_sockfd h \<and> table_kept w w'"
  by (cases "m_check_state h")
    (auto simp: loop_body_def Let_def split: if_splits
      dest!: parse_request_line_fd parse_headers_fd parse_content_fd do_request_fd intro: table_kept_trans)

lemma loop_cond_fd: "loop_cond st h = Inr (go, st', h') \<Longrightarrow> m_sockfd h' = m_sockfd h"
  by (auto simp: loop_cond_def dest!: parse_line_fd split: if_splits)

lemma process_read_loop_fd:
  "process_read_loop os st h w = Inr (c, h', w') \<Longrightarrow> m_sockfd h' = m_sockfd h \<and> table_kept w w'"
proof (induction os st h w rule: process_read_loop.induct)
  case (1 os st h w)
  from "1.prems" obtain go st1 h1 where c: "loop_cond st h = Inr (go, st1, h1)"
    by (subst (asm) process_read_loop.simps) auto
  note fd1 = loop_cond_fd [OF c]
  show ?case
  proof (cases go)
    case False
    with "1.prems" c fd1 show ?thesis by (subst (asm) process_read_loop.simps) simp
  next
    case True
    with "1.prems" c obtain r st2 h2 w2 where b: "loop_body os st1 h1 w = Inr (r, st2, h2, w2)"
      by (subst (asm) process_read_loop.simps) auto
    note fd2 = loop_body_fd [OF b]
    show ?thesis
    proof (cases r)
      case None
      with "1.prems" c True b have "process_read_loop os st2 h2 w2 = Inr (c, h', w')"
        by (subst (asm) process_read_loop.simps) simp
      from "1.IH" [OF c refl refl _ b refl refl refl None this] True fd1 fd2 show ?thesis
        by (auto intro: table_kept_trans)
    next
      case (Some d)
      with "1.prems" c True b have "h' = h2" "w' = w2"
        by (subst (asm) process_read_loop.simps, simp)+
      with fd1 fd2 show ?thesis by simp
    qed
  qed
qed

lemma process_read_fd: "process_read os h w = Inr (c, h', w') \<Longrightarrow> m_sockfd h' = m_sockfd h \<and> table_kept w w'"
  by (auto simp: process_read_def dest: process_read_loop_fd)

section \<open>The response\<close>

abbreviation fd_kept :: "'m http_conn \<Rightarrow> 'd world \<Rightarrow> 'm http_conn \<times> 'd world \<Rightarrow> bool" where
  "fd_kept h w \<equiv> (\<lambda>(h', w'). m_sockfd h' = m_sockfd h \<and> table_kept w w')"

lemma add_response_post: "post (\<lambda>(b, r). fd_kept h w r) (add_response s h w)"
  unfolding add_response_def Let_def by (intro post_if post_andThen) (simp_all add: split_beta post_andThen post_if)

lemma fd_kept_trans: "fd_kept h w (h1, w1) \<Longrightarrow> fd_kept h1 w1 r \<Longrightarrow> fd_kept h w r"
  by (auto intro: table_kept_trans)

lemma add_response_fd: "add_response s h w = Inr (b, h', w') \<Longrightarrow> fd_kept h w (h', w')"
  using postD [OF add_response_post, of s h w] by auto

lemma add_headers_fd: "add_headers n h w = Inr (h', w') \<Longrightarrow> fd_kept h w (h', w')"
  by (auto simp: add_headers_def add_content_length_def add_linger_def add_blank_line_def
      dest!: add_response_fd intro: table_kept_trans)

lemma error_response_fd: "error_response status title form h w = Inr (b, h', w') \<Longrightarrow> fd_kept h w (h', w')"
  by (auto simp: error_response_def add_status_line_def add_content_def send_buffer_def
      dest!: add_response_fd add_headers_fd intro: table_kept_trans split: if_splits)

lemma file_response_fd: "file_response h w = Inr (b, h', w') \<Longrightarrow> fd_kept h w (h', w')"
  by (auto simp: file_response_def add_status_line_def add_content_def Let_def
      dest!: add_response_fd add_headers_fd intro: table_kept_trans split: if_splits)

lemma process_write_fd: "process_write ret h w = Inr (b, h', w') \<Longrightarrow> fd_kept h w (h', w')"
  by (cases ret) (auto simp: process_write_def dest!: error_response_fd file_response_fd)

text \<open>\<open>process\<close> re-arms its socket, or closes it.\<close>

lemma process_outcome:
  assumes "process os h w = Inr (h', w')"
  obtains (armed) w1 ev where "table_kept w w1" "m_sockfd h' = m_sockfd h"
      "w' = modfd (m_epollfd w) (m_sockfd h) ev w1"
    | (closed) h1 w1 w1' where "table_kept w w1" "m_sockfd h1 = m_sockfd h" "m_sockfd h \<noteq> -1" "m_sockfd h' = -1"
      "close_conn True h1 w1 = (h', w1')" "w' = modfd (m_epollfd w) (-1) EPOLLOUT w1'"
proof -
  from assms obtain c h2 w2 where r: "process_read os h w = Inr (c, h2, w2)" by (auto simp: process_def)
  note k2 = process_read_fd [OF r]
  then have e2: "m_epollfd w2 = m_epollfd w" by (simp add: table_kept_def)
  show thesis
  proof (cases "c = NO_REQUEST")
    case True
    with assms r k2 e2 show ?thesis by (intro armed [of w2 EPOLLIN]) (simp_all add: process_def)
  next
    case False
    with assms r obtain b h3 w3 where p: "process_write c h2 w2 = Inr (b, h3, w3)" by (auto simp: process_def)
    from process_write_fd [OF p] k2 have k3: "m_sockfd h3 = m_sockfd h" "table_kept w w3"
      by (auto intro: table_kept_trans)
    then have e3: "m_epollfd w3 = m_epollfd w" by (simp add: table_kept_def)
    show ?thesis
    proof (cases "\<not> b \<and> m_sockfd h \<noteq> -1")
      case True
      obtain h4 w4 where cl: "close_conn True h3 w3 = (h4, w4)" by fastforce
      with True k3 e3 have "m_sockfd h4 = -1" "m_epollfd w4 = m_epollfd w"
        by (auto simp: close_conn_def removefd_def epoll_ctl_del_def emit_def)
      with assms r False p True cl k3 show ?thesis
        by (intro closed [of w3 h3 w4]) (simp_all add: process_def)
    next
      case kept: False
      have "close_conn True h3 w3 = (h3, w3)" if "\<not> b" using kept that k3 by (simp add: close_conn_def)
      with assms r False p kept k3 e3 show ?thesis
        by (intro armed [of w3 EPOLLOUT]) (auto simp: process_def Let_def split: if_splits)
    qed
  qed
qed

end
