(* ===== verification/EventLoopRun.thy ===== *)
theory EventLoopRun
  imports EventLoopInv HttpFrame
begin

text \<open>
  The running event loop: its start, its steps, and what holds in every state it reaches; the expiry of
  idle connections; and what a worker that closes a connection does to the loop's books.
\<close>

section \<open>Steps\<close>

text \<open>The part of \<open>main\<close> before the loop that concerns the event table.\<close>

definition server_start :: "int \<Rightarrow> int \<Rightarrow> int \<Rightarrow> int \<Rightarrow> (nat \<Rightarrow> 'm http_conn) \<Rightarrow> (nat \<Rightarrow> client_data) \<Rightarrow>
    nat threadpool \<Rightarrow> 'd world \<Rightarrow> ('m, 'd) server" where
  "server_start epollfd lfd pipe0 pipe1 conn_array timer_array T w =
     (let w = snd (setnonblocking lfd w);
          w = addfd epollfd lfd False w;
          w = w\<lparr>m_epollfd := epollfd\<rparr>;
          w = snd (setnonblocking pipe1 w);
          w = addfd epollfd pipe0 False w;
          w = emit (Alarm TIMESLOT) w
      in \<lparr>ctx = \<lparr>sys = w, users_timer = timer_array\<rparr>, user_conns = conn_array, timer_lst = heap_timer_new,
          pool = T, listenfd = lfd, pipe_read = pipe0, timeout = False, stop_server = False\<rparr>)"

text \<open>A step of the loop, or a worker that serves a request without closing its connection. What the kernel and
  the allocator promise: events come for registered descriptors, the signal pipe
  only becomes readable, \<open>accept\<close> returns descriptors that are not open and \<open>new\<close> fresh addresses.\<close>

definition event_ok :: "io_event \<Rightarrow> ('m, 'd) server \<Rightarrow> bool" where
  "event_ok e S \<longleftrightarrow>
     ev_fd e \<in> registered (sys (ctx S)) \<and> (ev_fd e = pipe_read S \<longrightarrow> ev_mask e = EPOLLIN) \<and>
     accept_ok (ev_accept e) (registered (sys (ctx S))) (dom (store (timer_lst S)))"

inductive loop_step :: "('m, 'd) server \<Rightarrow> ('m, 'd) server \<Rightarrow> bool" where
  event: "\<lbrakk>event_ok e S; handle_event e S = Inr S'\<rbrakk> \<Longrightarrow> loop_step S S'"
| timers: "after_events now S = Inr S' \<Longrightarrow> loop_step S S'"
| worker: "\<lbrakk>serve_request os c i S = Inr S'; m_sockfd (user_conns S' i) = m_sockfd (user_conns S i)\<rbrakk> \<Longrightarrow>
     loop_step S S'"

inductive loop_reach :: "('m, 'd) server \<Rightarrow> ('m, 'd) server \<Rightarrow> bool" for S0 where
  start: "loop_reach S0 S0"
| step: "loop_reach S0 S \<Longrightarrow> loop_step S S' \<Longrightarrow> loop_reach S0 S'"

inductive_cases loop_stepE: "loop_step S S'"

lemma read_signals_ok:
  "server_ok S \<Longrightarrow> server_ok (read_signals sigs S) \<and> timer_lst (read_signals sigs S) = timer_lst S"
proof (induction sigs arbitrary: S)
  case (Cons sig sigs)
  let ?S = "if sig = 14 then S\<lparr>timeout := True\<rparr>
        else if sig = 15 then on_sys (emit (LogInfo ''program exit!'')) (S\<lparr>stop_server := True\<rparr>)
        else S"
  have "server_ok (S\<lparr>timeout := True\<rparr>)" "server_ok (S\<lparr>stop_server := True\<rparr>)"
    using Cons.prems by (simp_all add: server_ok_def)
  then have "server_ok ?S" using Cons.prems by (auto intro!: server_ok_on_sys)
  from Cons.IH [OF this] show ?case by auto
qed simp

lemma handle_event_ok:
  assumes "server_ok S" and "event_ok e S" and "handle_event e S = Inr S'"
  shows "server_ok S'"
proof -
  from assms(1,2) have fd: "ev_fd e = listenfd S \<or> ev_fd e = pipe_read S \<and> ev_mask e = EPOLLIN \<or>
      ev_fd e \<in> open_fds (timer_lst S)"
    by (auto simp: event_ok_def server_ok_def loop_ok_def)
  have m: "EPOLLIN AND (EPOLLRDHUP OR EPOLLHUP OR EPOLLERR) = 0"
    by (simp add: EPOLLIN_def EPOLLRDHUP_def EPOLLHUP_def EPOLLERR_def)
  have m2: "EPOLLIN AND EPOLLIN \<noteq> 0" by (simp add: EPOLLIN_def)
  show ?thesis
  proof (cases "ev_fd e = listenfd S")
    case True
    with assms accept_loop_ok [of S "ev_accept e" S'] show ?thesis by (simp add: handle_event_def event_ok_def)
  next
    case nl: False
    show ?thesis
    proof (cases "ev_fd e = pipe_read S")
      case True
      then have "ev_mask e = EPOLLIN" using assms(2) by (simp add: event_ok_def)
      with True nl m m2 assms(1,3) read_signals_ok [OF assms(1)] show ?thesis
        by (auto simp: handle_event_def split: option.splits)
    next
      case False
      with fd nl have o: "ev_fd e \<in> open_fds (timer_lst S)" by blast
      show ?thesis
        using assms(3) nl False on_hangup_ok [OF assms(1) o] on_readable_ok [OF assms(1) o, of "ev_recv e" "ev_time e" S']
          on_writable_ok [OF assms(1) o, of "ev_send e" "ev_time e" S'] assms(1)
        by (auto simp: handle_event_def split: if_splits)
    qed
  qed
qed

lemma after_events_ok:
  assumes "server_ok S" and "after_events now S = Inr S'"
  shows "server_ok S'"
proof (cases "timeout S")
  case True
  with assms timer_handler_ok [OF assms(1), of now] show ?thesis
    by (auto simp: after_events_def server_ok_def)
next
  case False
  with assms show ?thesis by (simp add: after_events_def)
qed

lemma modfd_trace [simp]: "trace (modfd k fd ev w) = trace w"
  by (simp add: modfd_def epoll_ctl_mod_def)

lemma table_kept_registered: "table_kept w w' \<Longrightarrow> registered w' = registered w \<and> m_user_count w' = m_user_count w"
  by (simp add: table_kept_def registered_def)

lemma serve_request_ok:
  assumes "server_ok S" and "serve_request os c i S = Inr S'"
    and "m_sockfd (user_conns S' i) = m_sockfd (user_conns S i)"
  shows "server_ok S'"
proof -
  from assms(2) obtain h w where p: "process os ((user_conns S i)\<lparr>mysql := c\<rparr>) (sys (ctx S)) = Inr (h, w)"
    and S': "S' = S\<lparr>user_conns := (user_conns S)(i := h), ctx := (ctx S)\<lparr>sys := w\<rparr>\<rparr>"
    by (auto simp: serve_request_def)
  from p have "registered w = registered (sys (ctx S)) \<and> m_user_count w = m_user_count (sys (ctx S))"
  proof (cases rule: process_outcome)
    case (armed w1 ev)
    then show ?thesis by (simp add: table_kept_registered)
  next
    case (closed h1 w1 w1')
    then show ?thesis using assms(3) S' by simp
  qed
  with assms(1) show ?thesis by (simp add: S' server_ok_def loop_ok_def)
qed

text \<open>A worker that closes the connection takes it from the event table and the count, not from the timers.\<close>

lemma serve_request_closes:
  assumes "serve_request os c i S = Inr S1" and "m_sockfd (user_conns S i) = int i"
    and "m_sockfd (user_conns S1 i) = -1"
  shows "registered (sys (ctx S1)) = registered (sys (ctx S)) - {int i}"
    "m_user_count (sys (ctx S1)) = m_user_count (sys (ctx S)) - 1"
    "timer_lst S1 = timer_lst S" "users_timer (ctx S1) = users_timer (ctx S)"
    "listenfd S1 = listenfd S" "pipe_read S1 = pipe_read S" "CloseFd (int i) \<in> set (trace (sys (ctx S1)))"
proof -
  from assms(1) obtain h w where p: "process os ((user_conns S i)\<lparr>mysql := c\<rparr>) (sys (ctx S)) = Inr (h, w)"
    and S1: "S1 = S\<lparr>user_conns := (user_conns S)(i := h), ctx := (ctx S)\<lparr>sys := w\<rparr>\<rparr>"
    by (auto simp: serve_request_def)
  have "registered w = registered (sys (ctx S)) - {int i} \<and> m_user_count w = m_user_count (sys (ctx S)) - 1 \<and>
      CloseFd (int i) \<in> set (trace w)"
    using p
  proof (cases rule: process_outcome)
    case (armed w1 ev)
    then show ?thesis using assms(2,3) S1 by simp
  next
    case (closed h1 w1 w1')
    from closed(2,3,5) assms(2) have "w1' = (removefd (m_epollfd w1) (int i) w1)\<lparr>m_user_count := m_user_count w1 - 1\<rparr>"
      by (auto simp: close_conn_def removefd_def emit_def epoll_ctl_del_def)
    then have "registered w1' = registered w1 - {int i}" "m_user_count w1' = m_user_count w1 - 1"
      "CloseFd (int i) \<in> set (trace w1')"
      by (simp_all add: removefd_def) (simp add: emit_def)
    with closed(1,6) table_kept_registered [OF closed(1)] show ?thesis by (simp add: modfd_trace)
  qed
  then show "registered (sys (ctx S1)) = registered (sys (ctx S)) - {int i}"
    "m_user_count (sys (ctx S1)) = m_user_count (sys (ctx S)) - 1"
    "timer_lst S1 = timer_lst S" "users_timer (ctx S1) = users_timer (ctx S)"
    "listenfd S1 = listenfd S" "pipe_read S1 = pipe_read S" "CloseFd (int i) \<in> set (trace (sys (ctx S1)))"
    by (simp_all add: S1)
qed

lemma server_start_ok:
  assumes "epoll w epollfd = Map.empty" and "m_user_count w = 0"
  shows "server_ok (server_start epollfd lfd pipe0 pipe1 hs us T w)"
proof -
  have "timers_ok heap_timer_new" by (simp add: timers_ok_def live_def heap_timer_new_def is_heap_def)
  moreover have "open_fds heap_timer_new = {}" by (simp add: open_fds_def heap_timer_new_def)
  ultimately show ?thesis using assms
    by (auto simp: server_ok_def loop_ok_def server_start_def Let_def registered_def addfd_def setnonblocking_def
        epoll_ctl_add_def dom_def heap_timer_new_def)
qed

lemma loop_reach_ok: "loop_reach S0 S \<Longrightarrow> server_ok S0 \<Longrightarrow> server_ok S"
  by (induction rule: loop_reach.induct) (auto elim!: loop_stepE intro: handle_event_ok after_events_ok serve_request_ok)

text \<open>The loop of \<open>main\<close> takes such steps, as long as the kernel keeps its promises.\<close>

fun events_ok :: "io_event list \<Rightarrow> ('m, 'd) server \<Rightarrow> bool" where
  "events_ok [] S = True"
| "events_ok (e # es) S =
     (event_ok e S \<and> (case handle_event e S of Inl _ \<Rightarrow> True | Inr S' \<Rightarrow> events_ok es S'))"

fun rounds_ok :: "wait_result list \<Rightarrow> ('m, 'd) server \<Rightarrow> bool" where
  "rounds_ok [] S = True"
| "rounds_ok (EpollFails # rs) S = True"
| "rounds_ok (Events es now # rs) S =
     (events_ok es S \<and>
      (case andThen (handle_events es S) (after_events now) of Inl _ \<Rightarrow> True | Inr S' \<Rightarrow> rounds_ok rs S'))"

lemma handle_events_ok:
  "\<lbrakk>server_ok S; events_ok es S; handle_events es S = Inr S'\<rbrakk> \<Longrightarrow> server_ok S'"
proof (induction es arbitrary: S)
  case (Cons e es)
  then obtain S1 where "handle_event e S = Inr S1" "handle_events es S1 = Inr S'" by auto
  with Cons handle_event_ok [of S e S1] show ?case by auto
qed simp

lemma main_loop_ok:
  "\<lbrakk>server_ok S; rounds_ok rs S; main_loop rs S = Inr S'\<rbrakk> \<Longrightarrow> server_ok S'"
proof (induction rs S rule: main_loop.induct)
  case (2 r rs S)
  show ?case
  proof (cases "stop_server S")
    case True
    with 2(2,4) show ?thesis by simp
  next
    case False
    show ?thesis
    proof (cases r)
      case EpollFails
      with 2(2,4) False show ?thesis by (auto intro!: server_ok_on_sys)
    next
      case (Events es now)
      with 2(4) False obtain S1 S2 where s: "handle_events es S = Inr S1" "after_events now S1 = Inr S2"
        "main_loop rs S2 = Inr S'" by auto
      have "server_ok S2"
        using handle_events_ok [OF 2(2) _ s(1)] after_events_ok [OF _ s(2)] 2(3) Events by simp
      with 2(1) [OF False Events s(1,2) _ _ s(3)] 2(3) Events s(1,2) show ?thesis by simp
    qed
  qed
qed simp

lemma length_closed_trace:
  "count_list (trace (sys (closed i c))) (CloseFd fd) = count_list (trace (sys c)) (CloseFd fd) + (if fd = int i then 1 else 0)"
  by (simp add: closed_def Let_def emit_def epoll_ctl_del_def)

lemma closed_all_trace:
  "count_list (trace (sys (closed_all is c))) (CloseFd (int i)) =
     count_list (trace (sys c)) (CloseFd (int i)) + count_list is i"
  by (induction "is" arbitrary: c) (auto simp: length_closed_trace)

section \<open>The demonstration server\<close>

definition demo_server :: "(unit, unit) server" where
  "demo_server = server_start 3 4 5 6 (\<lambda>_. demo_conn 0 []) (\<lambda>_. \<lparr>cd_address = 0, cd_sockfd = Unset, cd_timer = Unset\<rparr>)
     \<lparr>m_thread_number = 8, m_max_requests = 100, m_threads = True, m_workqueue = [], m_queuelocker = Free,
      m_queuestat = 0, m_stop = False\<rparr> (demo_world\<lparr>m_user_count := 0\<rparr>)"

text \<open>After one connection was accepted, on descriptor 7 at time 100.\<close>

definition demo_accept :: io_event where
  "demo_accept = \<lparr>ev_fd = 4, ev_mask = EPOLLIN, ev_accept = [Accepted 7 0 100 50], ev_signals = None,
     ev_recv = [], ev_send = [], ev_time = 100\<rparr>"

lemma demo_server_ok: "server_ok demo_server"
  unfolding demo_server_def by (rule server_start_ok) (simp_all add: demo_world_def)

lemma demo_registered: "registered (sys (ctx demo_server)) = {4, 5}" "timer_lst demo_server = heap_timer_new"
  by (auto simp: demo_server_def server_start_def Let_def registered_def addfd_def setnonblocking_def
      epoll_ctl_add_def demo_world_def dom_def split: if_splits)

lemma demo_accepted:
  obtains S where "handle_event demo_accept demo_server = Inr S" "server_ok S" "event_ok demo_accept demo_server"
    "open_fds (timer_lst S) = {7}" "timer_key (store (timer_lst S)) 50 = 115" "m_pq (timer_lst S) = [50]"
    "watches (timer_lst S) 50 = 7" "registered (sys (ctx S)) = {4, 5, 7}" "m_sockfd (user_conns S 7) = 7"
proof -
  have e: "event_ok demo_accept demo_server"
    using demo_registered
    by (simp add: event_ok_def demo_accept_def accept_ok_def heap_timer_new_def)
  have n: "\<exists>S1. new_connection 7 0 100 50 demo_server = Inr S1 \<and> timer_key (store (timer_lst S1)) 50 = 115 \<and>
      m_pq (timer_lst S1) = [50] \<and> watches (timer_lst S1) 50 = 7 \<and> m_sockfd (user_conns S1 7) = 7"
    using demo_registered(2)
    by (simp add: new_connection_def slot_def MAX_FD_def Let_def init_conn_def init_def heap_timer_new_def
        add_timer_def live_def pq_push_def sift_up.simps timer_key_def watches_def TIMESLOT_def)
  then obtain S1 where S1: "new_connection 7 0 100 50 demo_server = Inr S1" "timer_key (store (timer_lst S1)) 50 = 115"
    "m_pq (timer_lst S1) = [50]" "watches (timer_lst S1) 50 = 7" "m_sockfd (user_conns S1 7) = 7" by blast
  have ok1: "server_ok S1" "registered (sys (ctx S1)) = {7, 4, 5}"
    using new_connection_ok [OF demo_server_ok _ _ S1(1)] demo_registered by (auto simp: heap_timer_new_def)
  have "m_user_count (sys (ctx demo_server)) = 0" "listenfd demo_server = 4"
    by (simp_all add: demo_server_def server_start_def Let_def addfd_def setnonblocking_def epoll_ctl_add_def demo_world_def)
  then have h: "handle_event demo_accept demo_server = Inr (accept_failed 11 S1)"
    using S1(1) by (simp add: handle_event_def demo_accept_def MAX_FD_def)
  have "open_fds (timer_lst S1) = {7}" by (simp add: open_fds_def S1)
  then show thesis
    using that [OF h handle_event_ok [OF demo_server_ok e h] e] S1 ok1 by (auto simp: accept_failed_def)
qed

section \<open>Properties\<close>

text \<open>C2: in every state the server reaches, through any sequence of events, ticks and workers that
  serve without closing, the books agree: the open connections are exactly the registered descriptors
  beside the listening socket and the signal pipe, \<open>m_user_count\<close> is their number, and each has exactly
  one queued timer, which \<open>users_timer\<close> points to and whose callback closes that descriptor.\<close>

theorem event_loop_books:
  assumes "epoll w epollfd = Map.empty" and "m_user_count w = 0"
    and "loop_reach (server_start epollfd lfd pipe0 pipe1 hs us T w) S"
  shows "server_ok S \<and> m_user_count (sys (ctx S)) = int (card (registered (sys (ctx S)) - {listenfd S, pipe_read S}))"
proof -
  have s: "server_ok S" using loop_reach_ok [OF assms(3) server_start_ok [OF assms(1,2)]] .
  then have "registered (sys (ctx S)) - {listenfd S, pipe_read S} = open_fds (timer_lst S)"
    by (auto simp: server_ok_def loop_ok_def)
  with s show ?thesis by (simp add: server_ok_def loop_ok_def)
qed

theorem event_loop_books_witness:
  "\<exists>S. loop_reach demo_server S \<and> server_ok S \<and> m_user_count (sys (ctx S)) = 1"
proof -
  obtain S where S: "handle_event demo_accept demo_server = Inr S" "event_ok demo_accept demo_server"
    "registered (sys (ctx S)) = {4, 5, 7}" "server_ok S" "open_fds (timer_lst S) = {7}" using demo_accepted by metis
  then have r: "loop_reach demo_server S" by (blast intro: loop_reach.intros loop_step.event)
  have "{4, 5, 7} = {7} \<union> {listenfd S, pipe_read S}" "listenfd S \<noteq> 7" "pipe_read S \<noteq> 7"
    using S(3,4,5) by (auto simp: server_ok_def loop_ok_def)
  then have "{4, 5, 7} - {listenfd S, pipe_read S} = {7}" by blast
  with event_loop_books [OF _ _ r [unfolded demo_server_def]] S(3) r show ?thesis
    by (intro exI [of _ S]) (simp add: demo_world_def)
qed

text \<open>C3: a tick closes exactly the connections that have been idle: those whose timer has expired, each
  once, in the order of expiry. It cannot fault, the others stay open with their timers, and the books
  agree again. A connection active at time \<open>t\<close> expires at \<open>t + 15\<close>.\<close>

theorem idle_connections_closed:
  assumes "server_ok S"
  shows "\<exists>S' fired. timer_handler now S = Inr S' \<and> server_ok S' \<and>
    distinct fired \<and> sorted (map (timer_key (store (timer_lst S))) fired) \<and>
    set fired = {a \<in> set (m_pq (timer_lst S)). timer_key (store (timer_lst S)) a \<le> now} \<and>
    ctx S' = alarmed (closed_all (map (watches (timer_lst S)) fired)
      ((ctx S)\<lparr>sys := emit (LogInfo ''timer tick'') (sys (ctx S))\<rparr>)) \<and>
    registered (sys (ctx S')) = registered (sys (ctx S)) - (\<lambda>a. int (watches (timer_lst S) a)) ` set fired"
proof -
  from timer_handler_ok [OF assms, of now] obtain S' fired where
    r: "timer_handler now S = Inr S'" "server_ok S'" "distinct fired"
      "sorted (map (timer_key (store (timer_lst S))) fired)"
      "set fired = {a \<in> set (m_pq (timer_lst S)). timer_key (store (timer_lst S)) a \<le> now}"
      "ctx S' = alarmed (closed_all (map (watches (timer_lst S)) fired)
        ((ctx S)\<lparr>sys := emit (LogInfo ''timer tick'') (sys (ctx S))\<rparr>))" by blast
  moreover have "registered (sys (ctx S')) = registered (sys (ctx S)) - (\<lambda>a. int (watches (timer_lst S) a)) ` set fired"
    unfolding r(6) by (simp add: closed_all_effect image_image)
  ultimately show ?thesis by blast
qed

theorem idle_connections_closed_witness:
  "\<exists>S S'. handle_event demo_accept demo_server = Inr S \<and> timer_handler 115 S = Inr S' \<and>
     registered (sys (ctx S)) = {4, 5, 7} \<and> registered (sys (ctx S')) = {4, 5}"
proof -
  obtain S where S: "handle_event demo_accept demo_server = Inr S" "server_ok S" "m_pq (timer_lst S) = [50]"
    "timer_key (store (timer_lst S)) 50 = 115" "watches (timer_lst S) 50 = 7" "registered (sys (ctx S)) = {4, 5, 7}"
    using demo_accepted by metis
  from idle_connections_closed [OF S(2), of 115] obtain S' fired where
    r: "timer_handler 115 S = Inr S'"
      "set fired = {a \<in> set (m_pq (timer_lst S)). timer_key (store (timer_lst S)) a \<le> 115}"
      "registered (sys (ctx S')) = registered (sys (ctx S)) - (\<lambda>a. int (watches (timer_lst S) a)) ` set fired" by blast
  from r(2) S have "set fired = {50}" by auto
  with r S show ?thesis by auto
qed

section \<open>A worker that closes\<close>

lemma server_ok_closing: "server_ok S \<Longrightarrow> timers_ok (timer_lst S) \<and> closing_timers (timer_lst S) (ctx S)"
  unfolding server_ok_def loop_ok_def closing_timers_def timer_of_def by blast

lemma timer_handler_fires:
  assumes "timers_ok (timer_lst S)" and "closing_timers (timer_lst S) (ctx S)"
  shows "\<exists>S' fired. timer_handler now S = Inr S' \<and> distinct fired \<and>
    set fired = {a \<in> set (m_pq (timer_lst S)). timer_key (store (timer_lst S)) a \<le> now} \<and>
    ctx S' = alarmed (closed_all (map (watches (timer_lst S)) fired)
      ((ctx S)\<lparr>sys := emit (LogInfo ''timer tick'') (sys (ctx S))\<rparr>)) \<and>
    set (m_pq (timer_lst S')) = set (m_pq (timer_lst S)) - set fired \<and>
    store (timer_lst S') = store (timer_lst S) |` (- set fired)"
proof -
  have "closing_timers (timer_lst S) ((ctx S)\<lparr>sys := emit (LogInfo ''timer tick'') (sys (ctx S))\<rparr>)"
    using assms(2) by (simp add: closing_timers_def)
  from tick_closes [OF assms(1) this, of now] assms(1) show ?thesis
    by (fastforce simp: timer_handler_def tick_def timers_ok_def)
qed

text \<open>A server with one connection, on descriptor 7, that has asked for a page that does not exist; its
  timer expires at 115.\<close>

definition demo_busy :: "(unit, unit) server" where
  "demo_busy = demo_server\<lparr>ctx :=
       \<lparr>sys = demo_world\<lparr>epoll := (\<lambda>_ _. None)(3 := [4 \<mapsto> 0, 5 \<mapsto> 0, 7 \<mapsto> 0])\<rparr>,
        users_timer = (\<lambda>_. \<lparr>cd_address = 0, cd_sockfd = Set 7, cd_timer = Set (Some 50)\<rparr>)\<rparr>,
     user_conns := (\<lambda>_. demo_missing\<lparr>m_sockfd := 7\<rparr>),
     timer_lst := \<lparr>m_pq = [50], store = [50 \<mapsto> \<lparr>expire = 115, cb_func = cb_close, user_data = 7\<rparr>]\<rparr>\<rparr>"

lemma demo_busy_ok: "server_ok demo_busy"
proof -
  have "listenfd demo_busy = 4" "pipe_read demo_busy = 5"
    by (simp_all add: demo_busy_def demo_server_def server_start_def Let_def)
  then show ?thesis
    by (auto simp: demo_busy_def server_ok_def loop_ok_def timers_ok_def live_def is_heap_def open_fds_def watches_def
        timer_of_def registered_def demo_world_def MAX_FD_def split: if_splits)
qed

lemma demo_busy_timer:
  "50 \<in> set (m_pq (timer_lst demo_busy))" "watches (timer_lst demo_busy) 50 = 7"
  "m_sockfd (user_conns demo_busy 7) = int 7" "timer_key (store (timer_lst demo_busy)) 50 = 115"
  "dom (store (timer_lst demo_busy)) = {50}"
  by (simp_all add: demo_busy_def watches_def timer_key_def)

lemma demo_busy_served:
  obtains S1 where "serve_request demo_os None 7 demo_busy = Inr S1" "m_sockfd (user_conns S1 7) = -1"
    "timer_lst S1 = timer_lst demo_busy"
proof -
  have "case process demo_os ((demo_missing\<lparr>m_sockfd := 7\<rparr>)\<lparr>mysql := None\<rparr>) (sys (ctx demo_busy)) of
      Inr (h, w) \<Rightarrow> m_sockfd h = -1 | Inl _ \<Rightarrow> False"
    by code_simp
  then obtain h w where "process demo_os ((demo_missing\<lparr>m_sockfd := 7\<rparr>)\<lparr>mysql := None\<rparr>) (sys (ctx demo_busy)) = Inr (h, w)"
    "m_sockfd h = -1" by (auto split: sum.splits)
  moreover have "user_conns demo_busy 7 = demo_missing\<lparr>m_sockfd := 7\<rparr>" by (simp add: demo_busy_def)
  ultimately show thesis using that by (auto simp: serve_request_def)
qed

text \<open>A connection that a worker closes is closed and counted a second time. \<open>close_conn\<close> leaves the timer
  in the queue; when it expires its callback closes the descriptor number again, whoever owns it by then,
  and the count of users falls again: it is then one less than the connections that are open.\<close>

lemma worker_close_counted_twice:
  assumes "server_ok S" and "a \<in> set (m_pq (timer_lst S))" and "watches (timer_lst S) a = i"
    and "m_sockfd (user_conns S i) = int i" and "serve_request os c i S = Inr S1"
    and "m_sockfd (user_conns S1 i) = -1" and "timer_key (store (timer_lst S)) a \<le> now"
  shows "\<exists>S2. timer_handler now S1 = Inr S2 \<and>
    2 \<le> count_list (trace (sys (ctx S2))) (CloseFd (int i)) \<and>
    m_user_count (sys (ctx S2)) = int (card (open_fds (timer_lst S2))) - 1"
proof -
  note c = serve_request_closes [OF assms(5,4,6)]
  let ?H = "timer_lst S"
  have ok: "timers_ok ?H" "closing_timers ?H (ctx S1)"
    using server_ok_closing [OF assms(1)] c(4) by (auto simp: closing_timers_def)
  from timer_handler_fires [of S1 now] ok c(3) obtain S2 fired where
    r: "timer_handler now S1 = Inr S2" "distinct fired"
      "set fired = {a \<in> set (m_pq ?H). timer_key (store ?H) a \<le> now}"
      "ctx S2 = alarmed (closed_all (map (watches ?H) fired) ((ctx S1)\<lparr>sys := emit (LogInfo ''timer tick'') (sys (ctx S1))\<rparr>))"
      "set (m_pq (timer_lst S2)) = set (m_pq ?H) - set fired" "store (timer_lst S2) = store ?H |` (- set fired)"
    by auto
  have l: "loop_ok {listenfd S, pipe_read S} ?H (ctx S)" using assms(1) by (simp add: server_ok_def)
  have a: "a \<in> set fired" using r(3) assms(2,7) by simp
  have "1 \<le> count_list (map (watches ?H) fired) i"
    using a assms(3) by (metis (no_types, lifting) Suc_leI One_nat_def count_list_0_iff gr0I image_eqI set_map)
  moreover have "1 \<le> count_list (trace (sys (ctx S1))) (CloseFd (int i))"
    using c(7) by (metis Suc_leI One_nat_def count_list_0_iff gr0I)
  ultimately have twice: "2 \<le> count_list (trace (sys (ctx S2))) (CloseFd (int i))"
    unfolding r(4) by (simp add: closed_all_trace emit_def)
  have sub: "set fired \<subseteq> set (m_pq ?H)" using r(3) by blast
  have w: "watches (timer_lst S2) b = watches ?H b" if "b \<in> set (m_pq (timer_lst S2))" for b
    using that r(5,6) by (simp add: watches_def)
  have "card (open_fds (timer_lst S2)) = card (set (m_pq ?H) - set fired)"
    unfolding open_fds_def r(5) [symmetric]
    using inj_on_subset [OF watches_inj [OF l], of "set (m_pq (timer_lst S2))"] r(5) w
    by (subst card_image) (auto simp: inj_on_def)
  then have n: "int (card (open_fds (timer_lst S2))) = int (card (set (m_pq ?H))) - int (length fired)"
    using r(2) card_mono [OF finite_set sub] by (simp add: card_Diff_subset [OF _ sub] distinct_card)
  have "m_user_count (sys (ctx S2)) = m_user_count (sys (ctx S)) - 1 - int (length fired)"
    unfolding r(4) by (simp add: closed_all_effect c(2))
  with n l card_open_fds [OF l] have "m_user_count (sys (ctx S2)) = int (card (open_fds (timer_lst S2))) - 1"
    by (simp add: loop_ok_def)
  with r(1) twice show ?thesis by blast
qed

lemma worker_close_counted_twice_witness:
  "\<exists>S1 S2. serve_request demo_os None 7 demo_busy = Inr S1 \<and> timer_handler 115 S1 = Inr S2 \<and>
     2 \<le> count_list (trace (sys (ctx S2))) (CloseFd 7)"
proof -
  obtain S1 where S1: "serve_request demo_os None 7 demo_busy = Inr S1" "m_sockfd (user_conns S1 7) = -1"
    using demo_busy_served by metis
  from worker_close_counted_twice [OF demo_busy_ok demo_busy_timer(1,2,3) S1, of 115] demo_busy_timer(4) S1(1)
  show ?thesis by auto
qed

lemma closing_timers_add:
  assumes "closing_timers H c" and "set (m_pq H') = insert p (set (m_pq H))"
    and "\<And>b. store H' b = (if b = p then Some t else store H b)" and "cb_func t = cb_close" and "user_data t = i"
    and "cd_sockfd (users_timer c' i) = Set (int i)" and "\<And>j. j \<noteq> i \<Longrightarrow> users_timer c' j = users_timer c j"
  shows "closing_timers H' c'"
  unfolding closing_timers_def
proof
  fix b
  assume b: "b \<in> set (m_pq H')"
  show "\<exists>t. store H' b = Some t \<and> cb_func t = cb_close \<and> cd_sockfd (users_timer c' (user_data t)) = Set (int (user_data t))"
  proof (cases "b = p")
    case True
    with assms(3-6) show ?thesis by simp
  next
    case False
    with b assms(2) obtain u where "store H b = Some u" "cb_func u = cb_close" "cd_sockfd (users_timer c (user_data u)) = Set (int (user_data u))"
      using assms(1) by (auto simp: closing_timers_def)
    with False assms(3,6,7) show ?thesis by (cases "user_data u = i") simp_all
  qed
qed

text \<open>C40: worse when the descriptor number was given to a new client in between. The new connection gets its
  own timer, but the old one is still queued: when it expires the server closes the new connection, whose
  own timer has not expired and stays in the queue.\<close>

theorem stale_timer_closes_successor:
  assumes "server_ok S" and "a \<in> set (m_pq (timer_lst S))" and "watches (timer_lst S) a = i"
    and "m_sockfd (user_conns S i) = int i" and "serve_request os c i S = Inr S1"
    and "m_sockfd (user_conns S1 i) = -1"
    and "new_connection (int i) addr cur p S1 = Inr S2" and "p \<notin> dom (store (timer_lst S))"
    and "timer_key (store (timer_lst S)) a \<le> now" and "now < cur + 3 * TIMESLOT"
  shows "int i \<in> registered (sys (ctx S2)) \<and>
    (\<exists>S3. timer_handler now S2 = Inr S3 \<and> int i \<notin> registered (sys (ctx S3)) \<and>
       p \<in> set (m_pq (timer_lst S3)) \<and> watches (timer_lst S3) p = i)"
proof -
  note c = serve_request_closes [OF assms(5,4,6)]
  let ?H = "timer_lst S"
  let ?t = "\<lparr>expire = cur + 3 * TIMESLOT, cb_func = cb_close, user_data = i\<rparr>"
  let ?H1 = "?H\<lparr>store := (store ?H)(p \<mapsto> ?t)\<rparr>"
  note ok = server_ok_closing [OF assms(1)]
  have slot: "slot (int i) = Inr i" using assms(7) by (auto simp: new_connection_def slot_def split: if_splits)
  obtain H' where H': "add_timer p ?H1 = Inr H'" "timers_ok H'" "store H' = store ?H1"
    "set (m_pq H') = insert p (set (m_pq ?H1))"
    using add_timer_ok [of ?H1 p ?t] timers_ok_store [OF conjunct1 [OF ok] assms(8)] by auto
  obtain h w where hw: "init_conn (int i) addr (user_conns S1 i) (sys (ctx S1)) = (h, w)" by fastforce
  let ?ut = "(users_timer (ctx S1))(i := \<lparr>cd_address = addr, cd_sockfd = Set (int i), cd_timer = Set (Some p)\<rparr>)"
  have S2: "S2 = S1\<lparr>user_conns := (user_conns S1)(i := h), ctx := \<lparr>sys = w, users_timer = ?ut\<rparr>, timer_lst := H'\<rparr>"
    using assms(7) slot hw H'(1) c(3) by (simp add: new_connection_def Let_def)
  have reg: "registered w = insert (int i) (registered (sys (ctx S1)))"
    using init_conn_world(1) [of "int i" "sys (ctx S1)" addr "user_conns S1 i"] c(1) hw by simp
  have ne: "a \<noteq> p" using assms(2,8) ok by (auto simp: timers_ok_def live_iff)
  have st: "store H' b = (if b = p then Some ?t else store ?H b)" for b by (simp add: H'(3))
  have "closing_timers H' (ctx S2)"
    using closing_timers_add [OF conjunct2 [OF ok], of H' p ?t i "ctx S2"] H'(4) st c(4) by (simp add: S2)
  with timer_handler_fires [of S2 now] H'(2) obtain S3 fired where
    r: "timer_handler now S2 = Inr S3" "set fired = {a \<in> set (m_pq H'). timer_key (store H') a \<le> now}"
      "ctx S3 = alarmed (closed_all (map (watches H') fired) ((ctx S2)\<lparr>sys := emit (LogInfo ''timer tick'') (sys (ctx S2))\<rparr>))"
      "set (m_pq (timer_lst S3)) = set (m_pq H') - set fired" "store (timer_lst S3) = store H' |` (- set fired)"
    by (auto simp: S2)
  have "a \<in> set fired" using r(2) assms(2,9) H'(4) ne by (simp add: timer_key_def st)
  moreover have "watches H' a = i" using assms(3) ne by (simp add: watches_def st)
  ultimately have "int i \<notin> registered (sys (ctx S3))" unfolding r(3) by (auto simp: closed_all_effect)
  moreover have "p \<notin> set fired" using r(2) assms(10) by (simp add: timer_key_def st)
  ultimately show ?thesis using r(1,4,5) H'(4) reg by (auto simp: S2 watches_def st)
qed

theorem stale_timer_closes_successor_witness:
  "\<exists>S1 S2 S3. serve_request demo_os None 7 demo_busy = Inr S1 \<and> new_connection 7 0 110 60 S1 = Inr S2 \<and>
     timer_handler 115 S2 = Inr S3 \<and> 7 \<in> registered (sys (ctx S2)) \<and> 7 \<notin> registered (sys (ctx S3))"
proof -
  obtain S1 where S1: "serve_request demo_os None 7 demo_busy = Inr S1" "m_sockfd (user_conns S1 7) = -1"
    "timer_lst S1 = timer_lst demo_busy" using demo_busy_served by metis
  obtain S2 where S2: "new_connection (int 7) 0 110 60 S1 = Inr S2"
    by (cases "init_conn 7 0 (user_conns S1 7) (sys (ctx S1))") (auto simp: new_connection_def slot_def MAX_FD_def Let_def add_timer_def live_def S1(3) demo_busy_def)
  from stale_timer_closes_successor [OF demo_busy_ok demo_busy_timer(1,2,3) S1(1,2) S2, of 115] demo_busy_timer(4,5)
    S1(1) S2 show ?thesis by (auto simp: TIMESLOT_def)
qed

end
