(* ===== verification/HttpStream.thy ===== *)
theory HttpStream
  imports HttpRoute
begin

text \<open>
  How \<open>process_read\<close> depends on the way a request arrives: while the request line and the headers are
  read, cutting the bytes into several \<open>recv\<close>s does not change what it does; a body that arrives in two
  pieces is never completed.
\<close>

section \<open>No carriage return is written\<close>

definition keeps_CR :: "buffer \<Rightarrow> buffer \<Rightarrow> bool" where
  "keeps_CR b b' \<longleftrightarrow> length b' = length b \<and> (\<forall>i < length b. b' ! i = CR \<longrightarrow> b ! i = CR)"

lemma keeps_CR_refl [simp]: "keeps_CR b b"
  by (simp add: keeps_CR_def)

lemma keeps_CR_trans: "keeps_CR a b \<Longrightarrow> keeps_CR b c \<Longrightarrow> keeps_CR a c"
  by (auto simp: keeps_CR_def)

lemma keeps_CR_wr: "wr b i NUL = Inr b' \<Longrightarrow> keeps_CR b b'"
  by (auto simp: keeps_CR_def nth_list_update split: if_splits)

lemma keeps_CR_put:
  assumes "put b p s = Inr b'" and "CR \<notin> set s"
  shows "keeps_CR b b'"
proof -
  have "b ! i = CR" if "i < length b" "b' ! i = CR" for i
  proof -
    from assms(1) have l: "p + length s \<le> length b" and b': "b' = take p b @ s @ drop (p + length s) b"
      by (auto simp: put_Inr_iff)
    show ?thesis
    proof (cases "i < p \<or> p + length s \<le> i")
      case True
      with that put_nth_before [OF assms(1)] put_nth_after [OF assms(1)] show ?thesis by metis
    next
      case False
      with that l b' have "s ! (i - p) = CR" by (auto simp: nth_append split: if_splits)
      with False assms(2) show ?thesis by (metis add_diff_inverse_nat nat_add_left_cancel_less not_le nth_mem)
    qed
  qed
  with put_length [OF assms(1)] show ?thesis by (simp add: keeps_CR_def)
qed

lemma skip_scheme_keeps: "skip_scheme lit h = Inr h' \<Longrightarrow> m_read_buf h' = m_read_buf h"
  by (auto simp: skip_scheme_def split: if_splits)

lemma parse_method_keeps: "parse_method p h = Inr (b, h') \<Longrightarrow> m_read_buf h' = m_read_buf h"
  by (auto simp: parse_method_def split: if_splits)

lemma check_path_keeps: "check_path h = Inr (c, h') \<Longrightarrow> keeps_CR (m_read_buf h) (m_read_buf h')"
  by (auto simp: check_path_def strcat_def split: if_splits option.splits dest!: keeps_CR_put)

lemma parse_path_keeps: "parse_path h = Inr (c, h') \<Longrightarrow> keeps_CR (m_read_buf h) (m_read_buf h')"
  by (auto simp: parse_path_def dest!: skip_scheme_keeps check_path_keeps)

lemma parse_request_line_keeps:
  assumes "parse_request_line p h = Inr (c, h')"
  shows "keeps_CR (m_read_buf h) (m_read_buf h')"
proof -
  have "post (\<lambda>(c, h'). keeps_CR (m_read_buf h) (m_read_buf h')) (parse_request_line p h)"
    unfolding parse_request_line_def Let_def
    by (intro post_andThen | simp del: rd_Inr wr_Inr split: option.split | intro conjI impI allI | clarify)+
      (auto simp del: wr_Inr simp: post_def dest!: parse_method_keeps parse_path_keeps keeps_CR_wr
        split: option.splits if_splits, (meson keeps_CR_trans)+)
  from postD [OF this assms] show ?thesis by simp
qed

section \<open>One round of the loop\<close>

lemma arrive_tl:
  assumes "length (m_read_buf a) \<le> r"
  shows "arrive s (tl_buf t r a) =
    res_map (\<lambda>t2. tl_buf t2 (r + length s) a) (put t (r - length (m_read_buf a)) s)"
  using assms by (auto simp: arrive_def put_def tl_buf_def)

lemma open_file_code: "open_file os h = Inr (c, h') \<Longrightarrow> c \<noteq> NO_REQUEST \<and> c \<noteq> GET_REQUEST"
  by (auto simp: open_file_def Let_def split: option.splits if_splits)

lemma do_request_code: "do_request os h w = Inr (c, h', w') \<Longrightarrow> c \<noteq> NO_REQUEST \<and> c \<noteq> GET_REQUEST"
  by (auto simp: do_request_def dest: open_file_code)

lemma loop_body_code: "loop_body os st h w = Inr (Some c, st', h', w') \<Longrightarrow> c \<noteq> NO_REQUEST"
  by (cases "m_check_state h")
    (auto simp: loop_body_def Let_def split: if_splits dest: do_request_code)

text \<open>A round on a complete line before the body: what it does is the same with anything behind the line.\<close>

lemma loop_body_local:
  assumes q: "nul_at (m_read_buf a) q" and l: "length (m_read_buf a) = q + 2" and p: "m_start_line a \<le> q"
    and c: "m_checked_idx a = q + 2" and s: "m_check_state a \<noteq> CHECK_STATE_CONTENT"
    and cr: "m_read_buf a ! (q + 1) \<noteq> CR"
    and run: "loop_body os st (tl_buf t r a) w = Inr (None, st', h', w')"
  shows "\<exists>a'. h' = tl_buf t r a' \<and> length (m_read_buf a') = q + 2 \<and> m_checked_idx a' = q + 2 \<and>
    m_start_line a' = q + 2 \<and> m_read_buf a' ! (q + 1) \<noteq> CR \<and>
    (\<forall>t2 r2. loop_body os st (tl_buf t2 r2 a) w = Inr (None, st', tl_buf t2 r2 a', w'))"
proof -
  let ?p = "m_start_line a"
  define b where "b = a\<lparr>m_start_line := q + 2\<rparr>"
  have b: "(tl_buf t r a)\<lparr>m_start_line := m_checked_idx a\<rparr> = tl_buf t r b" for t r
    using c by (cases a) (simp add: tl_buf_def b_def)
  have qb: "nul_at (m_read_buf b) q" "length (m_read_buf b) = q + 2" using q l by (simp_all add: b_def)
  obtain u where u: "cstr (m_read_buf b) ?p = Inr u" using cstr_at [OF qb(1) p] by blast
  have str: "cstr (m_read_buf b @ t) ?p = Inr u" for t
    using cstr_append [OF qb(1) p] u by simp
  let ?w = "emit (LogInfo u) w"
  have st: "m_check_state (tl_buf t r b) = m_check_state a" for t r by (simp add: b_def)
  have body: "loop_body os st (tl_buf t r a) w =
      (if m_check_state a = CHECK_STATE_REQUESTLINE then
        andThen (parse_request_line ?p (tl_buf t r b)) (\<lambda>(ret, h).
          Inr (if ret = BAD_REQUEST then Some BAD_REQUEST else None, st, h, ?w))
      else
          andThen (parse_headers ?p (tl_buf t r b) ?w) (\<lambda>(ret, h, w).
            if ret = BAD_REQUEST then Inr (Some BAD_REQUEST, st, h, w)
            else if ret = GET_REQUEST then
              andThen (do_request os h w) (\<lambda>(c, h, w). Inr (Some c, st, h, w))
            else Inr (None, st, h, w)))" for t r
    using s st [of t r] str [of t]
    by (cases "m_check_state a") (simp_all add: loop_body_def b Let_def)
  have frame: "length (m_read_buf a') = q + 2 \<and> m_checked_idx a' = q + 2 \<and> m_start_line a' = q + 2 \<and>
      m_read_buf a' ! (q + 1) \<noteq> CR"
    if "same_frame b a'" "keeps_CR (m_read_buf b) (m_read_buf a')" for a'
    using that l c cr by (auto simp: same_frame_def keeps_CR_def b_def)
  show ?thesis
  proof (cases "m_check_state a = CHECK_STATE_REQUESTLINE")
    case True
    note loc = parse_request_line_local [OF qb p]
    from run True loc(1) [of t r] obtain ret a' where
      a': "parse_request_line ?p b = Inr (ret, a')" "ret \<noteq> BAD_REQUEST" "h' = tl_buf t r a'" "st' = st" "w' = ?w"
      by (cases "parse_request_line ?p b") (auto simp: body split: if_splits)
    have "same_frame b a'" using loc(2) a'(1) by auto
    moreover have "parse_request_line ?p (tl_buf t2 r2 b) = Inr (ret, tl_buf t2 r2 a')" for t2 r2
      using loc(1) a'(1) by simp
    ultimately show ?thesis using a'(2-5) True frame [of a'] parse_request_line_keeps [OF a'(1)]
      by (intro exI [of _ a']) (simp add: body)
  next
    case False
    note loc = parse_headers_local [OF qb(1) p]
    from run False loc(1) [of t r ?w] obtain ret a' where
      a': "parse_headers ?p b ?w = Inr (ret, a', w')" "ret \<noteq> BAD_REQUEST" "ret \<noteq> GET_REQUEST"
        "h' = tl_buf t r a'" "st' = st"
      by (cases "parse_headers ?p b ?w") (auto simp: body split: if_splits)
    have "same_frame b a'" "m_read_buf a' = m_read_buf b" using loc(2) [of ?w] a'(1) by auto
    moreover have "parse_headers ?p (tl_buf t2 r2 b) ?w = Inr (ret, tl_buf t2 r2 a', w')" for t2 r2
      by (simp add: loc(1) a'(1))
    ultimately show ?thesis using a'(2-5) False frame [of a'] by (intro exI [of _ a']) (simp add: body)
  qed
qed

section \<open>The whole loop\<close>

lemma loop_cond_state: "loop_cond st h = Inr (go, st', h') \<Longrightarrow> m_check_state h' = m_check_state h"
  by (auto simp: loop_cond_def split: if_splits dest!: parse_line_progress)

lemma content_stays:
  "process_read_loop os st h w = Inr (NO_REQUEST, h', w') \<Longrightarrow> m_check_state h = CHECK_STATE_CONTENT \<Longrightarrow>
     m_check_state h' = CHECK_STATE_CONTENT"
proof (induction os st h w rule: process_read_loop.induct)
  case (1 os st h w)
  from "1.prems"(1) obtain go st1 h1 where c: "loop_cond st h = Inr (go, st1, h1)"
    by (subst (asm) process_read_loop.simps) auto
  with "1.prems"(2) loop_cond_state [OF c] have s1: "m_check_state h1 = CHECK_STATE_CONTENT" by simp
  show ?case
  proof (cases go)
    case False
    with "1.prems" c s1 show ?thesis by (subst (asm) process_read_loop.simps) auto
  next
    case True
    with "1.prems" c obtain ret st2 h2 w2 where b: "loop_body os st1 h1 w = Inr (ret, st2, h2, w2)"
      by (subst (asm) process_read_loop.simps) auto
    with "1.prems"(1) c True have none: "ret = None"
      by (subst (asm) process_read_loop.simps) (auto split: option.splits dest: loop_body_code)
    with b s1 have "m_check_state h2 = CHECK_STATE_CONTENT"
      by (auto simp: loop_body_def Let_def parse_content_def split: if_splits)
    moreover from "1.prems"(1) c True b none have "process_read_loop os st2 h2 w2 = Inr (NO_REQUEST, h', w')"
      by (subst (asm) process_read_loop.simps) auto
    ultimately show ?thesis using "1.IH" [OF c refl refl _ b] True none by simp
  qed
qed

lemma loop_status:
  "m_check_state h \<noteq> CHECK_STATE_CONTENT \<Longrightarrow> process_read_loop os st h w = process_read_loop os st' h w"
  by (subst (1 2) process_read_loop.simps) (simp add: loop_cond_def)

lemma process_read_later:
  "process_read_loop os st h w = Inr (NO_REQUEST, h', w') \<Longrightarrow> idx_ok h \<Longrightarrow>
   m_check_state h' \<noteq> CHECK_STATE_CONTENT \<Longrightarrow> arrive s h = Inr h2 \<Longrightarrow>
     idx_ok h' \<and> (\<exists>h2'. arrive s h' = Inr h2' \<and>
       (\<forall>st'. process_read_loop os st' h2' w' = process_read_loop os st h2 w))"
proof (induction os st h w arbitrary: h2 rule: process_read_loop.induct)
  case (1 os st h w)
  note ih = "1.IH" and run = "1.prems"(1) and idx = "1.prems"(2) and nc' = "1.prems"(3) and arr = "1.prems"(4)
  have nc: "m_check_state h \<noteq> CHECK_STATE_CONTENT" using content_stays [OF run] nc' by blast
  from arr nc have nc2: "m_check_state h2 \<noteq> CHECK_STATE_CONTENT" by (auto simp: arrive_Inr)
  from run nc obtain st1 h1 where pl: "parse_line h = Inr (st1, h1)"
    by (subst (asm) process_read_loop.simps) (auto simp: loop_cond_def)
  show ?case
  proof (cases "st1 = LINE_OK")
    case False
    with run nc pl have [simp]: "h' = h1" "w' = w"
      by (subst (asm) process_read_loop.simps, simp add: loop_cond_def)+
    obtain h2' where h2': "arrive s h1 = Inr h2'" "parse_line h2' = parse_line h2"
      using parse_line_continue [OF idx pl False arr] by blast
    then have "m_check_state h2' \<noteq> CHECK_STATE_CONTENT" using nc' by (auto simp: arrive_Inr)
    with h2' nc2 have "process_read_loop os st' h2' w = process_read_loop os st h2 w" for st'
      by (subst (1 2) process_read_loop.simps) (simp add: loop_cond_def)
    with h2' parse_line_idx_ok(1) [OF idx pl] show ?thesis by auto
  next
    case True
    note pl = pl [unfolded True]
    have cond: "loop_cond st h = Inr (True, LINE_OK, h1)" using nc pl by (simp add: loop_cond_def)
    obtain h12 where h12: "arrive s h1 = Inr h12" "parse_line h2 = Inr (LINE_OK, h12)"
      using parse_line_later [OF idx pl arr] by blast
    let ?q = "next_break h"
    note ok = parse_line_idx_ok(3) [OF idx pl refl]
    have read: "m_read_idx h \<le> length (m_read_buf h)" using idx by (simp add: idx_ok_def)
    have start: "m_start_line h \<le> ?q" using idx next_break_bounds(1) [of h] by (simp add: idx_ok_def)
    define a where "a = h1\<lparr>m_read_buf := take (?q + 2) (m_read_buf h1)\<rparr>"
    define t where "t = drop (?q + 2) (m_read_buf h1)"
    have h1: "h1 = tl_buf t (m_read_idx h) a"
      using ok tl_buf_split [of "?q + 2" h1] by (simp add: t_def a_def)
    have a: "nul_at (m_read_buf a) ?q" "length (m_read_buf a) = ?q + 2" "m_start_line a \<le> ?q"
      "m_checked_idx a = ?q + 2" "m_check_state a \<noteq> CHECK_STATE_CONTENT" "m_read_buf a ! (?q + 1) \<noteq> CR"
      using ok read start nc by (auto simp: a_def nul_at_def)
    obtain ret st2 h3 w3 where body: "loop_body os LINE_OK h1 w = Inr (ret, st2, h3, w3)"
      and rest: "(case ret of Some c \<Rightarrow> Inr (c, h3, w3) | None \<Rightarrow> process_read_loop os st2 h3 w3) = Inr (NO_REQUEST, h', w')"
      using run cond by (subst (asm) process_read_loop.simps) auto
    then have none: "ret = None" by (auto split: option.splits dest: loop_body_code)
    obtain a' where a': "h3 = tl_buf t (m_read_idx h) a'" "length (m_read_buf a') = ?q + 2"
      "m_checked_idx a' = ?q + 2" "m_start_line a' = ?q + 2" "m_read_buf a' ! (?q + 1) \<noteq> CR"
      "\<And>t2 r2. loop_body os LINE_OK (tl_buf t2 r2 a) w = Inr (None, st2, tl_buf t2 r2 a', w3)"
      using loop_body_local [OF a, of os LINE_OK t "m_read_idx h" w st2 h3 w3] body none h1 by auto
    have le: "?q + 2 \<le> m_read_idx h" using ok by blast
    obtain t2 where t2: "put t (m_read_idx h - (?q + 2)) s = Inr t2" "h12 = tl_buf t2 (m_read_idx h + length s) a"
      using h12(1) arrive_tl [of a "m_read_idx h" s t] a(2) le h1
      by (cases "put t (m_read_idx h - (?q + 2)) s") auto
    let ?h4 = "tl_buf t2 (m_read_idx h + length s) a'"
    have arr4: "arrive s h3 = Inr ?h4" using arrive_tl [of a' "m_read_idx h" s t] a' t2(1) le by simp
    have len: "length (m_read_buf h3) = length (m_read_buf h)"
    proof -
      have "length (m_read_buf h1) = length (m_read_buf h)" using ok by auto
      moreover have "length (m_read_buf h1) = ?q + 2 + length t" using a(2) by (simp add: h1)
      ultimately show ?thesis using a'(1,2) by simp
    qed
    have idx3: "idx_ok h3"
      using a' le read len by (auto simp: idx_ok_def nth_append)
    have "idx_ok h' \<and> (\<exists>h2'. arrive s h' = Inr h2' \<and>
       (\<forall>st'. process_read_loop os st' h2' w' = process_read_loop os st2 ?h4 w3))"
      using ih [OF cond refl refl _ body refl refl refl none _ idx3 nc' arr4] rest none by simp
    moreover have "process_read_loop os st h2 w = process_read_loop os st2 ?h4 w3"
      using nc2 h12(2) a'(6) t2(2) by (subst process_read_loop.simps) (simp add: loop_cond_def)
    ultimately show ?thesis by simp
  qed
qed

section \<open>Incomplete bodies and bad lines\<close>

lemma content_incomplete:
  assumes "idx_ok h" and "m_check_state h = CHECK_STATE_CONTENT" and "next_break h = m_read_idx h"
    and "cstr (m_read_buf h) (m_start_line h) = Inr l"
    and "in_int (m_content_length h + int (m_checked_idx h))"
    and "int (m_read_idx h) < m_content_length h + int (m_checked_idx h)"
  shows "process_read os h w =
    Inr (NO_REQUEST, h\<lparr>m_start_line := m_checked_idx h, m_checked_idx := m_read_idx h\<rparr>, emit (LogInfo l) w)"
proof -
  let ?h = "h\<lparr>m_start_line := m_checked_idx h\<rparr>"
  have b: "m_checked_idx ?h \<le> m_read_idx ?h" "m_read_idx ?h \<le> length (m_read_buf ?h)"
    using assms(1) by (simp_all add: idx_ok_def)
  have "next_break ?h = m_read_idx h" using assms(3) by (simp add: next_break_def unread_def)
  then have "parse_line ?h = Inr (LINE_OPEN, ?h\<lparr>m_checked_idx := m_read_idx h\<rparr>)"
    using parse_line_closed [OF b] by (simp add: line_result_def Let_def)
  then have "process_read_loop os LINE_OPEN ?h w' = Inr (NO_REQUEST, ?h\<lparr>m_checked_idx := m_read_idx h\<rparr>, w')" for w'
    by (subst process_read_loop.simps) (simp add: loop_cond_def)
  moreover have "loop_body os LINE_OK h w = Inr (None, LINE_OPEN, ?h, emit (LogInfo l) w)"
    using assms(2,4,5,6) by (simp add: loop_body_def parse_content_def add_int_def Let_def)
  ultimately show ?thesis
    using assms(2) unfolding process_read_def
    by (subst process_read_loop.simps) (simp add: loop_cond_def)
qed

lemma next_break_none:
  "CR \<notin> set (unread h) \<Longrightarrow> LF \<notin> set (unread h) \<Longrightarrow> m_checked_idx h \<le> m_read_idx h \<Longrightarrow>
     m_read_idx h \<le> length (m_read_buf h) \<Longrightarrow> next_break h = m_read_idx h"
proof -
  assume a: "CR \<notin> set (unread h)" "LF \<notin> set (unread h)" "m_checked_idx h \<le> m_read_idx h"
    "m_read_idx h \<le> length (m_read_buf h)"
  then have tw: "takeWhile (\<lambda>c. c \<noteq> CR \<and> c \<noteq> LF) (unread h) = unread h" by (auto simp: takeWhile_eq_all_conv)
  show ?thesis unfolding next_break_def tw using length_unread [OF a(3,4)] a(3) by simp
qed

lemma bad_line_stays:
  assumes "idx_ok h" and "parse_line h = Inr (LINE_BAD, h')" and "arrive s h' = Inr h2"
  shows "parse_line h2 = Inr (LINE_BAD, h2)"
proof -
  let ?k = "next_break h"
  from assms(1) have b: "m_checked_idx h \<le> m_read_idx h" "m_read_idx h \<le> length (m_read_buf h)"
    by (simp_all add: idx_ok_def)
  note h' = parse_line_idx_ok(1,2) [OF assms(1,2), simplified]
  from assms(2) have r: "line_result h = (LINE_BAD, h')" by (simp add: parse_line_closed [OF b])
  have k: "?k < m_read_idx h" "m_read_buf h ! ?k = CR \<and> ?k + 1 < m_read_idx h \<and> m_read_buf h ! (?k + 1) \<noteq> LF \<or>
      m_read_buf h ! ?k = LF \<and> (?k > 1 \<longrightarrow> m_read_buf h ! (?k - 1) \<noteq> CR)"
    using r next_break_bounds(2) [OF b] at_next_break [OF b]
    by (auto simp: line_result_def Let_def split: if_splits)
  from assms(3) obtain c where c: "put (m_read_buf h) (m_read_idx h) s = Inr c"
    and h2: "h2 = h'\<lparr>m_read_buf := c, m_read_idx := m_read_idx h + length s\<rparr>"
    unfolding h'(2) by (auto simp: arrive_Inr)
  have cb: "c ! j = m_read_buf h ! j" if "j < m_read_idx h" for j using c that by (rule put_nth_before)
  have "length c = length (m_read_buf h)" by (rule put_length [OF c])
  with k b h2 cb [of ?k] cb [of "?k + 1"] cb [of "?k - 1"] show ?thesis
    unfolding h'(2) by (subst parse_line.simps) (auto simp: rd_ok Let_def)
qed

section \<open>Properties\<close>

text \<open>C6: the way the request line and the headers are cut into segments does not matter. If \<open>process_read\<close>
  has asked for more on the bytes received so far, and has not yet come to the body, then receiving \<open>s\<close>
  and running it again has exactly the outcome, log included, of one run with everything received: the
  same code, the same state of the connection and of the server.\<close>

theorem header_segmentation:
  assumes "idx_ok h" and "process_read os h w = Inr (NO_REQUEST, h', w')"
    and "m_check_state h' \<noteq> CHECK_STATE_CONTENT" and "arrive s h = Inr h2"
  shows "\<exists>h2'. arrive s h' = Inr h2' \<and> process_read os h2' w' = process_read os h2 w"
  using process_read_later [OF assms(2) [unfolded process_read_def] assms(1,3,4)]
  by (auto simp: process_read_def)

theorem header_segmentation_witness:
  "\<exists>h' w' h2' h3 w3. process_read demo_os (demo_conn 40 (''GET / HTTP/1.1'' @ [CR, LF] @ ''Hos'')) demo_world =
       Inr (NO_REQUEST, h', w') \<and>
     arrive (''t: x'' @ [CR, LF, CR, LF]) h' = Inr h2' \<and> process_read demo_os h2' w' = Inr (FILE_REQUEST, h3, w3)"
proof -
  let ?h = "demo_conn 40 (''GET / HTTP/1.1'' @ [CR, LF] @ ''Hos'')" and ?s = "''t: x'' @ [CR, LF, CR, LF]"
  have "case process_read demo_os ?h demo_world of
      Inr (c, h, w) \<Rightarrow> c = NO_REQUEST \<and> m_check_state h \<noteq> CHECK_STATE_CONTENT | Inl _ \<Rightarrow> False" by code_simp
  then obtain h' w' where run: "process_read demo_os ?h demo_world = Inr (NO_REQUEST, h', w')"
    "m_check_state h' \<noteq> CHECK_STATE_CONTENT" by (auto split: sum.splits)
  have "case arrive ?s ?h of Inl _ \<Rightarrow> False | Inr h2 \<Rightarrow>
      (case process_read demo_os h2 demo_world of Inr (c, h, w) \<Rightarrow> c = FILE_REQUEST | Inl _ \<Rightarrow> False)" by code_simp
  then obtain h2 h3 w3 where all: "arrive ?s ?h = Inr h2" "process_read demo_os h2 demo_world = Inr (FILE_REQUEST, h3, w3)"
    by (auto split: sum.splits)
  from header_segmentation [OF demo_idx_ok run all(1)] run(1) all(2) show ?thesis by metis
qed

lemma whole_body_parsed:
  assumes "m_content_length h + int p = int (m_read_idx h)" and "m_checked_idx h = p"
    and "in_int (int (m_read_idx h))" and "m_read_idx h < length (m_read_buf h)"
  shows "\<exists>h'. parse_content p h = Inr (GET_REQUEST, h')"
proof -
  have "add_int (m_content_length h) (int (m_checked_idx h)) = Inr (int (m_read_idx h))"
    using assms(1-3) by (simp add: add_int_def)
  moreover have "int p + m_content_length h = int (m_read_idx h)" using assms(1) by simp
  ultimately show ?thesis using assms(4) by (simp add: parse_content_def wr_at_def wr_def)
qed

text \<open>C33: a body that arrives in two pieces is never completed. Once \<open>process_read\<close> has seen a first piece, not
  empty and without a line break, \<open>parse_line\<close> has moved \<open>m_checked_idx\<close> past it, so that the whole length is
  asked for again: when the rest has arrived, with exactly \<open>Content-length\<close> bytes of body in the
  buffer, the answer is still \<open>NO_REQUEST\<close>. The same body in one piece is accepted by \<open>parse_content\<close>.\<close>

theorem split_body_never_completes:
  assumes "idx_ok h" and "m_check_state h = CHECK_STATE_CONTENT"
    and "unread h \<noteq> []" and "s \<noteq> []" and "CR \<notin> set (unread h @ s)" and "LF \<notin> set (unread h @ s)"
    and "m_content_length h = int (length (unread h @ s))"
    and "nul_at (m_read_buf h) z" and "m_read_idx h + length s \<le> z"
    and "m_content_length h + int (m_read_idx h) \<le> INT_MAX"
  shows "(\<exists>h1 w1 h2 h3 w3. process_read os h w = Inr (NO_REQUEST, h1, w1) \<and> arrive s h1 = Inr h2 \<and>
       process_read os h2 w1 = Inr (NO_REQUEST, h3, w3)) \<and>
     (\<exists>h4 h5. arrive s h = Inr h4 \<and> parse_content (m_checked_idx h4) h4 = Inr (GET_REQUEST, h5))"
proof -
  from assms(1) have b: "m_checked_idx h \<le> m_read_idx h" "m_read_idx h \<le> length (m_read_buf h)"
    and st: "m_start_line h \<le> m_checked_idx h" by (simp_all add: idx_ok_def)
  have lu: "length (unread h) = m_read_idx h - m_checked_idx h" by (rule length_unread [OF b])
  have pos: "m_checked_idx h < m_read_idx h" using assms(3) lu by (cases "unread h") auto
  have z: "z < length (m_read_buf h)" using assms(8) by (simp add: nul_at_def)
  have nb: "next_break h = m_read_idx h" using assms(5,6) by (intro next_break_none b) auto
  obtain l1 where l1: "cstr (m_read_buf h) (m_start_line h) = Inr l1"
    using cstr_at [OF assms(8), of "m_start_line h"] assms(9) b st by auto
  let ?h1 = "h\<lparr>m_start_line := m_checked_idx h, m_checked_idx := m_read_idx h\<rparr>"
  have run1: "process_read os h w = Inr (NO_REQUEST, ?h1, emit (LogInfo l1) w)"
    using assms(4,7,10) lu b(1)
    by (intro content_incomplete [OF assms(1,2) nb l1]) (auto simp: in_int_def INT_MIN_def)
  define c where "c = take (m_read_idx h) (m_read_buf h) @ s @ drop (m_read_idx h + length s) (m_read_buf h)"
  have c: "put (m_read_buf h) (m_read_idx h) s = Inr c" "length c = length (m_read_buf h)"
    using z assms(9) by (simp_all add: put_def c_def)
  define h2 where "h2 = ?h1\<lparr>m_read_buf := c, m_read_idx := m_read_idx h + length s\<rparr>"
  have arr: "arrive s ?h1 = Inr h2" using c by (simp add: arrive_def h2_def)
  have last: "m_read_buf h ! (m_read_idx h - 1) \<noteq> CR"
    using assms(3) nb lu b before_next_break(1) [OF b, of "m_read_idx h - 1"] by (cases "unread h") auto
  have idx2: "idx_ok h2"
    using b st last z assms(9) c(2) put_nth_before [OF c(1), of "m_read_idx h - 1"]
    by (auto simp: idx_ok_def h2_def)
  have "unread h2 = s" using z assms(9) by (simp add: unread_def h2_def c_def)
  then have nb2: "next_break h2 = m_read_idx h2"
    using assms(5,6) idx2 by (intro next_break_none) (auto simp: idx_ok_def)
  have "nul_at c z"
    using put_nth_after [OF c(1) assms(9) z] assms(8) c(2) by (simp add: nul_at_def)
  then obtain l2 where l2: "cstr (m_read_buf h2) (m_start_line h2) = Inr l2"
    using cstr_at [of c z "m_checked_idx h"] assms(9) b by (auto simp: h2_def)
  have "process_read os h2 (emit (LogInfo l1) w) =
      Inr (NO_REQUEST, h2\<lparr>m_start_line := m_checked_idx h2, m_checked_idx := m_read_idx h2\<rparr>,
        emit (LogInfo l2) (emit (LogInfo l1) w))"
    using assms(2,7,10) lu b(1) pos
    by (intro content_incomplete [OF idx2 _ nb2 l2])
      (auto simp: h2_def in_int_def INT_MIN_def)
  moreover have "\<exists>h5. parse_content (m_checked_idx h)
      (h\<lparr>m_read_buf := c, m_read_idx := m_read_idx h + length s\<rparr>) = Inr (GET_REQUEST, h5)"
    using assms(7,10) lu b(1) z assms(9) c(2) by (intro whole_body_parsed) (simp_all add: in_int_def INT_MIN_def)
  moreover have "arrive s h = Inr (h\<lparr>m_read_buf := c, m_read_idx := m_read_idx h + length s\<rparr>)"
    using c by (simp add: arrive_def)
  ultimately show ?thesis using run1 arr by auto
qed

theorem split_body_never_completes_witness:
  "\<exists>h1 w1 h2 h3 w3. process_read demo_os
       ((demo_conn 9 ''user'')\<lparr>m_check_state := CHECK_STATE_CONTENT, m_content_length := 8\<rparr>) demo_world =
       Inr (NO_REQUEST, h1, w1) \<and> arrive ''=bob'' h1 = Inr h2 \<and>
     process_read demo_os h2 w1 = Inr (NO_REQUEST, h3, w3)"
  using split_body_never_completes [of "(demo_conn 9 ''user'')\<lparr>m_check_state := CHECK_STATE_CONTENT, m_content_length := 8\<rparr>"
      "''=bob''" 9 demo_os demo_world]
  by (simp add: demo_conn_def idx_ok_def unread_def nul_at_def INT_MAX_def)

text \<open>A malformed line end is treated as a line that is still incomplete. When \<open>parse_line\<close> finds a bad
  line, \<open>process_read\<close> answers \<open>NO_REQUEST\<close>, never \<open>BAD_REQUEST\<close>, and so does every later run, whatever
  arrives: the client gets no answer until the timer closes the connection.\<close>

lemma bad_line_never_answered:
  assumes "idx_ok h" and "m_check_state h \<noteq> CHECK_STATE_CONTENT" and "parse_line h = Inr (LINE_BAD, h')"
  shows "process_read os h w = Inr (NO_REQUEST, h', w) \<and>
    (\<forall>s h2. arrive s h' = Inr h2 \<longrightarrow> process_read os h2 w = Inr (NO_REQUEST, h2, w))"
proof (intro conjI allI impI)
  show "process_read os h w = Inr (NO_REQUEST, h', w)"
    using assms(2,3) unfolding process_read_def
    by (subst process_read_loop.simps) (simp add: loop_cond_def)
  fix s h2
  assume a: "arrive s h' = Inr h2"
  have "m_check_state h2 \<noteq> CHECK_STATE_CONTENT"
    using a assms(2) parse_line_idx_ok(2) [OF assms(1,3)] by (auto simp: arrive_Inr)
  then show "process_read os h2 w = Inr (NO_REQUEST, h2, w)"
    using bad_line_stays [OF assms(1,3) a] unfolding process_read_def
    by (subst process_read_loop.simps) (simp add: loop_cond_def)
qed

lemma bad_line_never_answered_witness:
  "\<exists>h'. process_read demo_os (demo_conn 9 (''GET / HTTP/1.1'' @ [LF])) demo_world = Inr (NO_REQUEST, h', demo_world)"
proof -
  have "case parse_line (demo_conn 9 (''GET / HTTP/1.1'' @ [LF])) of Inr (st, h) \<Rightarrow> st = LINE_BAD | Inl _ \<Rightarrow> False"
    by code_simp
  then obtain h' where "parse_line (demo_conn 9 (''GET / HTTP/1.1'' @ [LF])) = Inr (LINE_BAD, h')"
    by (auto split: sum.splits)
  from bad_line_never_answered [OF demo_idx_ok _ this] show ?thesis by (auto simp: demo_conn_def)
qed

end
