(* ===== verification/HttpServe.thy ===== *)
theory HttpServe
  imports HttpStream HttpReply
begin

text \<open>
  A whole request: from the bytes a browser sends for a file to the bytes it gets back. The theory joins the line reader,
  the parsers, the file lookup, the response and \<open>write\<close>.
\<close>

section \<open>The text of a request\<close>

definition get_request :: "string \<Rightarrow> string list \<Rightarrow> string" where
  "get_request url hs = (''GET '' @ url @ '' HTTP/1.1'') @ [CR, LF] @ concat (map (\<lambda>l. l @ [CR, LF]) hs) @ [CR, LF]"

text \<open>A header line of a request without a body, and the one that asks for the connection to be kept.\<close>

definition one_line :: "string \<Rightarrow> bool" where
  "one_line l \<longleftrightarrow> CR \<notin> set l \<and> LF \<notin> set l \<and> NUL \<notin> set l"

definition plain_header :: "string \<Rightarrow> bool" where
  "plain_header l \<longleftrightarrow> l \<noteq> [] \<and> one_line l \<and> \<not> same_nocase (take 15 l) ''Content-length:''"

definition keeps_alive :: "string \<Rightarrow> bool" where
  "keeps_alive l \<longleftrightarrow> same_nocase (take 11 l) ''Connection:'' \<and>
     same_nocase (dropWhile (\<lambda>c. c \<in> set blanks) (drop 11 l)) ''keep-alive''"

section \<open>Reading a line\<close>

text \<open>A connection that has dealt with everything in front of the unread bytes.\<close>

definition at_line :: "'m http_conn \<Rightarrow> bool" where
  "at_line a \<longleftrightarrow> m_checked_idx a = length (m_read_buf a) \<and> m_start_line a = length (m_read_buf a) \<and>
     (m_read_buf a = [] \<or> last (m_read_buf a) \<noteq> CR)"

definition with_line :: "string \<Rightarrow> 'm http_conn \<Rightarrow> 'm http_conn" where
  "with_line l a = a\<lparr>m_read_buf := m_read_buf a @ l @ [NUL, NUL],
     m_checked_idx := length (m_read_buf a) + length l + 2\<rparr>"

lemma take_break:
  "one_line l \<Longrightarrow> takeWhile (\<lambda>c. c \<noteq> CR \<and> c \<noteq> LF) (l @ CR # r) = l"
  by (induction l) (auto simp: one_line_def)

lemma parse_line_reads:
  assumes "at_line a" and "one_line l" and "n \<le> length t"
  shows "parse_line (tl_buf (l @ CR # LF # t) (length (m_read_buf a) + length l + 2 + n) a) =
    Inr (LINE_OK, tl_buf t (length (m_read_buf a) + length l + 2 + n) (with_line l a))"
proof -
  let ?c = "length (m_read_buf a)" and ?r = "length (m_read_buf a) + length l + 2 + n"
  let ?h = "tl_buf (l @ CR # LF # t) ?r a"
  have c: "m_checked_idx a = ?c" using assms(1) by (simp add: at_line_def)
  have b: "m_checked_idx ?h \<le> m_read_idx ?h" "m_read_idx ?h \<le> length (m_read_buf ?h)"
    using c assms(3) by (simp_all add: tl_buf_def)
  have "unread ?h = l @ CR # LF # take n t" using c by (simp add: unread_def tl_buf_def)
  then have k: "next_break ?h = ?c + length l"
    using c take_break [OF assms(2)] by (simp add: next_break_def)
  have u: "(m_read_buf a @ l @ CR # LF # t)[?c + length l := NUL, Suc (?c + length l) := NUL] =
      m_read_buf a @ l @ NUL # NUL # t"
    by (simp add: list_update_append)
  have "line_result ?h = (LINE_OK, tl_buf t ?r (with_line l a))"
    using k u by (simp add: line_result_def Let_def nth_append) (simp add: tl_buf_def with_line_def nth_append)
  then show ?thesis using parse_line_closed [OF b] by simp
qed

section \<open>Headers\<close>

lemma takeWhile_take: "takeWhile P (take n xs) = take n (takeWhile P xs)"
  by (induction xs arbitrary: n) (auto simp: take_Cons split: nat.split)

lemma cstrn_cstr:
  assumes "cstr b p = Inr l"
  shows "cstrn b p n = Inr (take n l)"
proof -
  have l: "NUL \<in> set (drop p b)" "l = takeWhile (\<lambda>c. c \<noteq> NUL) (drop p b)"
    using assms by (auto simp: cstr_def split: if_splits)
  then have "NUL \<in> set (take n (drop p b)) \<or> p + n \<le> length b"
    by (cases "p + n \<le> length b") simp_all
  with l(2) show ?thesis by (simp add: cstrn_def takeWhile_take)
qed

lemma strncasecmp_cstr:
  "cstr b p = Inr l \<Longrightarrow> length lit = n \<Longrightarrow> strncasecmp0 b p lit n = Inr (same_nocase (take n l) lit)"
  by (simp add: strncasecmp0_def cstrn_cstr)

lemma same_nocase_length: "same_nocase s t \<Longrightarrow> length s = length t"
  unfolding same_nocase_def by (rule map_eq_imp_length_eq)

lemma span_split: "drop (length (takeWhile P xs)) xs = dropWhile P xs"
  by (simp add: dropWhile_eq_drop)

lemma parse_headers_plain:
  assumes "cstr (m_read_buf h) p = Inr l" and "plain_header l"
  shows "\<exists>host w'. parse_headers p h w =
    Inr (NO_REQUEST, h\<lparr>m_linger := m_linger h \<or> keeps_alive l, m_host := host\<rparr>, w') \<and> logged w w'"
proof -
  let ?b = "m_read_buf h"
  have at: "cstr ?b (p + n) = Inr (drop n l)" if "n \<le> length l" for n using cstr_suffix [OF assms(1) that] .
  have c: "p < length ?b" "?b ! p \<noteq> NUL"
    using assms cstr_bound [OF assms(1)] cstr_nth [OF assms(1), of 0]
    by (auto simp: plain_header_def one_line_def neq_Nil_conv)
  show ?thesis
  proof (cases "same_nocase (take 11 l) ''Connection:''")
    case True
    then have n: "11 \<le> length l" using same_nocase_length [OF True] by simp
    let ?k = "length (takeWhile (\<lambda>c. c \<in> set blanks) (drop 11 l))"
    from cstr_suffix [OF at [OF n] length_takeWhile_le]
    have "cstr ?b (p + 11 + ?k) = Inr (dropWhile (\<lambda>c. c \<in> set blanks) (drop 11 l))"
      by (simp only: span_split)
    then show ?thesis using True c at [OF n]
      by (intro exI [of _ "m_host h"] exI [of _ w])
        (simp add: parse_headers_def rd_ok strncasecmp_cstr [OF assms(1)] strspn_def strcasecmp0_def keeps_alive_def)
  next
    case False
    show ?thesis
    proof (cases "same_nocase (take 5 l) ''Host:''")
      case True
      then have "5 \<le> length l" using same_nocase_length [OF True] by simp
      from at [OF this] show ?thesis using True False c assms(2)
        by (intro exI [of _ "Some (p + 5 + length (takeWhile (\<lambda>c. c \<in> set blanks) (drop 5 l)))"] exI [of _ w])
          (simp add: parse_headers_def rd_ok strncasecmp_cstr [OF assms(1)] strspn_def keeps_alive_def plain_header_def)
    next
      case no_host: False
      then show ?thesis using False c assms
        by (intro exI [of _ "m_host h"] exI [of _ "emit (LogInfo (''oop! unknow header: '' @ l)) w"])
          (simp add: parse_headers_def rd_ok strncasecmp_cstr [OF assms(1)] keeps_alive_def plain_header_def logged_emit)
    qed
  qed
qed

section \<open>The rounds of the loop\<close>

lemma at_line_fields:
  "at_line a \<Longrightarrow> m_start_line a = length (m_read_buf a) \<and> m_checked_idx a = length (m_read_buf a)"
  by (simp add: at_line_def)

text \<open>The line just read, in front of whatever follows it.\<close>

lemma with_line_str:
  assumes "one_line l"
  shows "cstr (m_read_buf (tl_buf t r (with_line l a))) (length (m_read_buf a)) = Inr l"
proof (rule cstrI)
  show "NUL \<notin> set l" using assms by (simp add: one_line_def)
qed (simp_all add: tl_buf_def with_line_def nth_append)

definition next_line :: "'m http_conn \<Rightarrow> 'm http_conn" where
  "next_line a = a\<lparr>m_start_line := m_checked_idx a\<rparr>"

lemma next_line_tl: "(tl_buf t r a)\<lparr>m_start_line := m_checked_idx (tl_buf t r a)\<rparr> = tl_buf t r (next_line a)"
  by (simp add: tl_buf_def next_line_def)

lemma line_fields: "at_line a \<Longrightarrow> m_start_line (tl_buf t r (with_line l a)) = length (m_read_buf a)"
  by (simp add: tl_buf_def with_line_def at_line_def)

lemma line_kept:
  "m_check_state (next_line (with_line l a)) = m_check_state a" "m_linger (tl_buf t r (next_line (with_line l a))) = m_linger a"
  by (simp_all add: next_line_def with_line_def tl_buf_def)

lemma at_line_next: "at_line (next_line (with_line l a))"
  by (simp add: at_line_def next_line_def with_line_def)

text \<open>A round of the loop in front of the body: it reads the line and works on it.\<close>

lemma loop_reads:
  assumes "at_line a" and "one_line l" and "m_check_state a \<noteq> CHECK_STATE_CONTENT" and "n \<le> length t"
    and "r = length (m_read_buf a) + length l + 2 + n"
  shows "process_read_loop os st (tl_buf (l @ CR # LF # t) r a) w =
    andThen (loop_body os LINE_OK (tl_buf t r (with_line l a)) w) (\<lambda>(ret, line_status, h, w).
      case ret of Some c \<Rightarrow> Inr (c, h, w) | None \<Rightarrow> process_read_loop os line_status h w)"
  using assms(3) parse_line_reads [OF assms(1,2,4)] assms(5)
  by (subst process_read_loop.simps) (simp add: loop_cond_def)

lemma tl_buf_header: "(tl_buf t r a)\<lparr>m_linger := b, m_host := u\<rparr> = tl_buf t r (a\<lparr>m_linger := b, m_host := u\<rparr>)"
  by (simp add: tl_buf_def)

lemma header_round:
  assumes "at_line a" and "plain_header l" and "m_check_state a = CHECK_STATE_HEADER" and "n \<le> length t"
    and "r = length (m_read_buf a) + length l + 2 + n"
  shows "\<exists>host w'. logged w w' \<and>
    process_read_loop os st (tl_buf (l @ CR # LF # t) r a) w =
    process_read_loop os LINE_OK
      (tl_buf t r ((next_line (with_line l a))\<lparr>m_linger := m_linger a \<or> keeps_alive l, m_host := host\<rparr>)) w'"
proof -
  have l: "one_line l" using assms(2) by (simp add: plain_header_def)
  let ?h = "tl_buf t r (next_line (with_line l a))"
  have str: "cstr (m_read_buf ?h) (length (m_read_buf a)) = Inr l"
    using with_line_str [OF l, of t r a] by (simp add: tl_buf_def next_line_def)
  obtain host w' where p: "parse_headers (length (m_read_buf a)) ?h (emit (LogInfo l) w) =
      Inr (NO_REQUEST, ?h\<lparr>m_linger := m_linger ?h \<or> keeps_alive l, m_host := host\<rparr>, w')"
    "logged (emit (LogInfo l) w) w'"
    using parse_headers_plain [OF str assms(2)] by blast
  have "loop_body os LINE_OK (tl_buf t r (with_line l a)) w =
      Inr (None, LINE_OK, ?h\<lparr>m_linger := m_linger ?h \<or> keeps_alive l, m_host := host\<rparr>, w')"
    unfolding loop_body_def Let_def next_line_tl line_fields [OF assms(1)] using p(1) str assms(3)
    by (simp add: line_kept)
  then show ?thesis
    using assms(3) logged_trans [OF logged_emit p(2)]
    by (intro exI [of _ host] exI [of _ w']) (simp add: loop_reads [OF assms(1) l _ assms(4,5)] line_kept tl_buf_header)
qed

text \<open>What the headers change: the position, whether to keep the connection, and the host.\<close>

definition past_headers :: "bool \<Rightarrow> 'm http_conn \<Rightarrow> 'm http_conn \<Rightarrow> bool" where
  "past_headers k a a' \<longleftrightarrow> at_line a' \<and>
     (\<exists>p i host. a' = a\<lparr>m_read_buf := m_read_buf a @ p, m_checked_idx := i, m_start_line := i,
        m_linger := m_linger a \<or> k, m_host := host\<rparr>)"

lemma past_headers_refl: "at_line a \<Longrightarrow> past_headers False a a"
  unfolding past_headers_def
  by (intro conjI exI [of _ "[]"] exI [of _ "m_checked_idx a"] exI [of _ "m_host a"]) (simp_all add: at_line_def)

lemma past_headers_trans:
  assumes "past_headers k a b" and "past_headers k' b c"
  shows "past_headers (k \<or> k') a c"
proof -
  obtain p i u where b: "b = a\<lparr>m_read_buf := m_read_buf a @ p, m_checked_idx := i, m_start_line := i,
        m_linger := m_linger a \<or> k, m_host := u\<rparr>" using assms(1) by (auto simp: past_headers_def)
  obtain q j v where "at_line c" "c = b\<lparr>m_read_buf := m_read_buf b @ q, m_checked_idx := j, m_start_line := j,
        m_linger := m_linger b \<or> k', m_host := v\<rparr>" using assms(2) unfolding past_headers_def by blast
  with b show ?thesis
    unfolding past_headers_def by (intro conjI exI [of _ "p @ q"] exI [of _ j] exI [of _ v]) simp_all
qed

lemma past_header_line:
  "past_headers (keeps_alive l) a ((next_line (with_line l a))\<lparr>m_linger := m_linger a \<or> keeps_alive l, m_host := u\<rparr>)"
  unfolding past_headers_def
  by (intro conjI exI [of _ "l @ [NUL, NUL]"] exI [of _ "length (m_read_buf a) + length l + 2"] exI [of _ u])
    (simp_all add: at_line_def next_line_def with_line_def)

lemma past_headers_state: "past_headers k a a' \<Longrightarrow> m_check_state a' = m_check_state a"
  by (auto simp: past_headers_def)

abbreviation header_block :: "string list \<Rightarrow> string" where
  "header_block hs \<equiv> concat (map (\<lambda>l. l @ [CR, LF]) hs)"

lemma headers_loop:
  assumes "at_line a" and "\<forall>l \<in> set hs. plain_header l" and "m_check_state a = CHECK_STATE_HEADER"
    and "n \<le> length t" and "r = length (m_read_buf a) + length (header_block hs) + n"
  shows "\<exists>a' w'. past_headers (\<exists>l \<in> set hs. keeps_alive l) a a' \<and> logged w w' \<and> r = length (m_read_buf a') + n \<and>
    process_read_loop os st (tl_buf (header_block hs @ t) r a) w = process_read_loop os LINE_OK (tl_buf t r a') w'"
  using assms
proof (induction hs arbitrary: a w st)
  case Nil
  then show ?case
    using loop_status [of "tl_buf t r a" os st w LINE_OK]
    by (intro exI [of _ a] exI [of _ w]) (simp add: past_headers_refl)
next
  case (Cons l hs)
  let ?t = "header_block hs @ t"
  have l: "plain_header l" using Cons.prems(2) by simp
  obtain u w1 where 1: "logged w w1" "process_read_loop os st (tl_buf (l @ CR # LF # ?t) r a) w =
    process_read_loop os LINE_OK
      (tl_buf ?t r ((next_line (with_line l a))\<lparr>m_linger := m_linger a \<or> keeps_alive l, m_host := u\<rparr>)) w1"
    using header_round [OF Cons.prems(1) l Cons.prems(3), of "length (header_block hs) + n" ?t r w os st]
      Cons.prems(4,5) by auto
  let ?a = "(next_line (with_line l a))\<lparr>m_linger := m_linger a \<or> keeps_alive l, m_host := u\<rparr>"
  note p = past_header_line [of l a u]
  have "at_line ?a" "length (m_read_buf ?a) = length (m_read_buf a) + length l + 2"
    using p by (simp_all add: past_headers_def next_line_def with_line_def)
  then have "\<exists>a' w'. past_headers (\<exists>l \<in> set hs. keeps_alive l) ?a a' \<and> logged w1 w' \<and> r = length (m_read_buf a') + n \<and>
    process_read_loop os LINE_OK (tl_buf ?t r ?a) w1 = process_read_loop os LINE_OK (tl_buf t r a') w'"
    using Cons.prems past_headers_state [OF p] by (intro Cons.IH) simp_all
  then obtain a' w' where 2: "past_headers (\<exists>l \<in> set hs. keeps_alive l) ?a a'" "logged w1 w'"
    "r = length (m_read_buf a') + n"
    "process_read_loop os LINE_OK (tl_buf ?t r ?a) w1 = process_read_loop os LINE_OK (tl_buf t r a') w'" by blast
  with 1 past_headers_trans [OF p 2(1)] logged_trans [OF 1(1) 2(2)] show ?case by (intro exI [of _ a'] exI [of _ w']) simp
qed

section \<open>The request line\<close>

definition plain_url :: "string \<Rightarrow> bool" where
  "plain_url url \<longleftrightarrow> url \<noteq> [] \<and> hd url = CHR ''/'' \<and> one_line url \<and> (\<forall>c \<in> set url. c \<notin> set blanks)"

abbreviation request_line :: "string \<Rightarrow> string" where
  "request_line url \<equiv> ''GET '' @ url @ '' HTTP/1.1''"

lemma one_line_request: "plain_url url \<Longrightarrow> one_line (request_line url)"
  by (simp add: plain_url_def one_line_def)

lemma last_kept:
  assumes "keeps_CR b b'" and "b \<noteq> []" and "last b \<noteq> CR"
  shows "b' \<noteq> [] \<and> last b' \<noteq> CR"
proof -
  have l: "length b' = length b" "b' \<noteq> []" using assms(1,2) by (auto simp: keeps_CR_def)
  moreover have "b' ! (length b - 1) \<noteq> CR"
    using assms by (auto simp: keeps_CR_def last_conv_nth)
  ultimately show ?thesis by (simp add: last_conv_nth)
qed

definition past_request_line :: "string \<Rightarrow> 'm http_conn \<Rightarrow> 'm http_conn \<Rightarrow> bool" where
  "past_request_line url a a' \<longleftrightarrow> at_line a' \<and>
     (\<exists>b i u v. a' = a\<lparr>m_read_buf := b, m_checked_idx := i, m_start_line := i, m_url := Some u,
        m_version := Some v, m_method := GET, m_check_state := CHECK_STATE_HEADER\<rparr> \<and>
      cstr b u = Inr (page_of url))"

lemma parse_request_line_plain:
  assumes "at_line a" and "plain_url url"
  shows "\<exists>a'. parse_request_line (length (m_read_buf a)) (next_line (with_line (request_line url) a)) = Inr (NO_REQUEST, a') \<and>
    past_request_line url a a' \<and> length (m_read_buf a') = length (m_read_buf a) + length (request_line url) + 2"
proof -
  let ?l = "request_line url" and ?c = "next_line (with_line (request_line url) a)" and ?p = "length (m_read_buf a)"
  have str: "cstr (m_read_buf ?c) ?p = Inr (''GET'' @ SP # [] @ url @ SP # [] @ ''HTTP/1.1'')"
    using with_line_str [OF one_line_request [OF assms(2)], of "[]" 0 a] by (simp add: tl_buf_def next_line_def)
  have len: "length (m_read_buf ?c) = ?p + length ?l + 2" "m_read_buf ?c = m_read_buf a @ ?l @ [NUL, NUL]"
    by (simp_all add: next_line_def with_line_def)
  have get: "same_nocase ''GET'' ''GET''" "same_nocase ''HTTP/1.1'' ''HTTP/1.1''" by (simp_all add: same_nocase_def)
  obtain b u v where run: "parse_request_line ?p ?c = Inr (NO_REQUEST, ?c\<lparr>m_read_buf := b, m_url := Some u,
      m_version := Some v, m_method := GET, cgi := cgi ?c, m_check_state := CHECK_STATE_HEADER\<rparr>)"
    "cstr b u = Inr (page_of url)"
    using request_line_result [OF str] len(1) assms(2) get
    by (auto simp: plain_url_def blanks_def)
  let ?a = "?c\<lparr>m_read_buf := b, m_url := Some u, m_version := Some v, m_method := GET, cgi := cgi ?c,
      m_check_state := CHECK_STATE_HEADER\<rparr>"
  have kept: "keeps_CR (m_read_buf ?c) b" using parse_request_line_keeps [OF run(1)] by simp
  then have b: "length b = ?p + length ?l + 2" "b \<noteq> [] \<and> last b \<noteq> CR"
    using len last_kept [OF kept] by (auto simp: keeps_CR_def)
  have "?a = a\<lparr>m_read_buf := b, m_checked_idx := ?p + length ?l + 2, m_start_line := ?p + length ?l + 2, m_url := Some u,
        m_version := Some v, m_method := GET, m_check_state := CHECK_STATE_HEADER\<rparr>"
    by (simp add: next_line_def with_line_def)
  moreover have "at_line ?a" using b by (simp add: at_line_def next_line_def with_line_def)
  ultimately have "past_request_line url a ?a" unfolding past_request_line_def using run(2) by blast
  with run(1) b(1) show ?thesis by auto
qed

lemma request_round:
  assumes "at_line a" and "plain_url url" and "m_check_state a = CHECK_STATE_REQUESTLINE" and "n \<le> length t"
    and "r = length (m_read_buf a) + length (request_line url) + 2 + n"
  shows "\<exists>a'. past_request_line url a a' \<and> r = length (m_read_buf a') + n \<and>
    process_read_loop os st (tl_buf (request_line url @ CR # LF # t) r a) w =
    process_read_loop os LINE_OK (tl_buf t r a') (emit (LogInfo (request_line url)) w)"
proof -
  let ?l = "request_line url" and ?c = "next_line (with_line (request_line url) a)" and ?p = "length (m_read_buf a)"
  note l = one_line_request [OF assms(2)]
  obtain a' where a': "parse_request_line ?p ?c = Inr (NO_REQUEST, a')" "past_request_line url a a'"
    "length (m_read_buf a') = ?p + length ?l + 2"
    using parse_request_line_plain [OF assms(1,2)] by blast
  have "nul_at (m_read_buf ?c) (?p + length ?l)" "length (m_read_buf ?c) = ?p + length ?l + 2"
    by (simp_all add: nul_at_def nth_append next_line_def with_line_def)
  from parse_request_line_local(1) [OF this, of ?p t r] a'(1)
  have p: "parse_request_line ?p (tl_buf t r ?c) = Inr (NO_REQUEST, tl_buf t r a')" by simp
  have str: "cstr (m_read_buf (tl_buf t r ?c)) ?p = Inr ?l"
    using with_line_str [OF l, of t r a] by (simp add: tl_buf_def next_line_def)
  have body: "loop_body os LINE_OK (tl_buf t r (with_line ?l a)) w =
      Inr (None, LINE_OK, tl_buf t r a', emit (LogInfo ?l) w)"
    unfolding loop_body_def Let_def next_line_tl line_fields [OF assms(1)] using p str assms(3)
    by (simp add: line_kept)
  have nc: "m_check_state a \<noteq> CHECK_STATE_CONTENT" using assms(3) by simp
  have "process_read_loop os st (tl_buf (?l @ CR # LF # t) r a) w =
      process_read_loop os LINE_OK (tl_buf t r a') (emit (LogInfo ?l) w)"
    unfolding loop_reads [OF assms(1) l nc assms(4,5)] body by simp
  moreover have "r = length (m_read_buf a') + n" using a'(3) assms(5) by simp
  ultimately show ?thesis using a'(2) by blast
qed

section \<open>The end of the headers, and the answer\<close>

lemma last_round:
  assumes "at_line a" and "m_check_state a = CHECK_STATE_HEADER" and "m_content_length a = 0" and "n \<le> length t"
    and "r = length (m_read_buf a) + 2 + n"
  shows "process_read_loop os st (tl_buf (CR # LF # t) r a) w =
    do_request os (tl_buf t r (next_line (with_line [] a))) (emit (LogInfo []) w)"
proof -
  let ?h = "tl_buf t r (next_line (with_line [] a))" and ?p = "length (m_read_buf a)"
  have l: "one_line []" by (simp add: one_line_def)
  have str: "cstr (m_read_buf ?h) ?p = Inr []"
    using with_line_str [OF l, of t r a] by (simp add: tl_buf_def next_line_def)
  have "rd (m_read_buf ?h) ?p = Inr NUL"
    using cstr_bound [OF str] by (simp add: rd_def)
  moreover have "m_content_length ?h = 0" using assms(3) by (simp add: tl_buf_def next_line_def with_line_def)
  ultimately have p: "parse_headers ?p ?h (emit (LogInfo []) w) = Inr (GET_REQUEST, ?h, emit (LogInfo []) w)"
    by (simp add: parse_headers_def del: rd_Inr)
  have body: "loop_body os LINE_OK (tl_buf t r (with_line [] a)) w =
      andThen (do_request os ?h (emit (LogInfo []) w)) (\<lambda>(c, h, w). Inr (Some c, LINE_OK, h, w))"
    unfolding loop_body_def Let_def next_line_tl line_fields [OF assms(1)] using p str assms(2)
    by (simp add: line_kept)
  have nc: "m_check_state a \<noteq> CHECK_STATE_CONTENT" using assms(2) by simp
  have r: "r = ?p + length [] + 2 + n" using assms(5) by simp
  show ?thesis
    using loop_reads [OF assms(1) l nc assms(4) r, of os st w] unfolding body
    by (cases "do_request os ?h (emit (LogInfo []) w)") (auto simp: tl_buf_def)
qed

text \<open>All of \<open>process_read\<close> on a request of one piece: it comes to \<open>do_request\<close> with the path of the request.\<close>

definition asks_for :: "string \<Rightarrow> bool \<Rightarrow> 'm http_conn \<Rightarrow> 'm http_conn \<Rightarrow> bool" where
  "asks_for url keep h h' \<longleftrightarrow> (\<exists>b r i u v host.
     h' = h\<lparr>m_read_buf := b, m_read_idx := r, m_checked_idx := i, m_start_line := i, m_url := Some u, m_version := Some v,
        m_method := GET, m_check_state := CHECK_STATE_HEADER, m_linger := m_linger h \<or> keep, m_host := host\<rparr> \<and>
     cstr b u = Inr (page_of url))"

lemma cstr_longer: "cstr b p = Inr s \<Longrightarrow> cstr (b @ t) p = Inr s"
  by (cases "p \<le> length b") (auto simp: cstr_def takeWhile_append_member split: if_splits)

lemma asks_forI:
  assumes "past_request_line url a b" and "past_headers keep b c"
  shows "asks_for url keep a (tl_buf t r (next_line (with_line [] c)))"
proof -
  obtain s i u v where b: "b = a\<lparr>m_read_buf := s, m_checked_idx := i, m_start_line := i, m_url := Some u,
        m_version := Some v, m_method := GET, m_check_state := CHECK_STATE_HEADER\<rparr>" "cstr s u = Inr (page_of url)"
    using assms(1) unfolding past_request_line_def by blast
  obtain p j host where c: "c = b\<lparr>m_read_buf := m_read_buf b @ p, m_checked_idx := j, m_start_line := j,
        m_linger := m_linger b \<or> keep, m_host := host\<rparr>"
    using assms(2) unfolding past_headers_def by blast
  have "cstr (s @ p @ NUL # NUL # t) u = Inr (page_of url)" using cstr_longer [OF b(2)] by simp
  then show ?thesis unfolding asks_for_def
    by (intro exI [of _ "s @ p @ NUL # NUL # t"] exI [of _ r] exI [of _ "length s + length p + 2"] exI [of _ u] exI [of _ v]
        exI [of _ host])
      (simp add: b(1) c tl_buf_def next_line_def with_line_def)
qed

lemma request_read:
  assumes "at_line a" and "m_check_state a = CHECK_STATE_REQUESTLINE" and "m_content_length a = 0" and "plain_url url"
    and "\<forall>l \<in> set hs. plain_header l" and "r = length (m_read_buf a) + length (get_request url hs)"
  shows "\<exists>h' w'. asks_for url (\<exists>l \<in> set hs. keeps_alive l) a h' \<and> logged w w' \<and>
    process_read_loop os st (tl_buf (get_request url hs @ t) r a) w = do_request os h' w'"
proof -
  let ?t = "header_block hs @ CR # LF # t" and ?n = "length (header_block hs) + 2"
  have bytes: "get_request url hs @ t = request_line url @ CR # LF # ?t" by (simp add: get_request_def)
  have r: "r = length (m_read_buf a) + length (request_line url) + 2 + ?n" using assms(6) by (simp add: get_request_def)
  obtain b where b: "past_request_line url a b" "r = length (m_read_buf b) + ?n"
    "process_read_loop os st (tl_buf (request_line url @ CR # LF # ?t) r a) w =
      process_read_loop os LINE_OK (tl_buf ?t r b) (emit (LogInfo (request_line url)) w)"
    using request_round [OF assms(1,4,2) _ r, of ?t os st w] by auto
  have b': "at_line b" "m_check_state b = CHECK_STATE_HEADER" "m_content_length b = 0"
    using b(1) assms(3) by (auto simp: past_request_line_def)
  obtain c w1 where c: "past_headers (\<exists>l \<in> set hs. keeps_alive l) b c" "logged (emit (LogInfo (request_line url)) w) w1"
    "r = length (m_read_buf c) + 2"
    "process_read_loop os LINE_OK (tl_buf ?t r b) (emit (LogInfo (request_line url)) w) =
      process_read_loop os LINE_OK (tl_buf (CR # LF # t) r c) w1"
    using headers_loop [OF b'(1) assms(5) b'(2), of 2 "CR # LF # t" r "emit (LogInfo (request_line url)) w" os LINE_OK] b(2)
    by auto
  have c': "at_line c" "m_check_state c = CHECK_STATE_HEADER" "m_content_length c = 0"
    using c(1) b' by (auto simp: past_headers_def)
  have "process_read_loop os LINE_OK (tl_buf (CR # LF # t) r c) w1 =
      do_request os (tl_buf t r (next_line (with_line [] c))) (emit (LogInfo []) w1)"
    using c(3) by (intro last_round [OF c', of 0]) simp_all
  moreover have "logged w (emit (LogInfo []) w1)"
    by (rule logged_trans [OF logged_trans [OF logged_emit c(2)] logged_emit])
  ultimately show ?thesis
    using asks_forI [OF b(1) c(1)] unfolding bytes b(3) c(4) by blast
qed

lemma do_request_file:
  assumes "m_url h = Some u" and "cstr (m_read_buf h) u = Inr (dir @ CHR ''/'' # name)" and "CHR ''/'' \<notin> set name"
    and "cgi h = 0" and "m_real_file h = replicate FILENAME_LEN NUL" and "length (page_for dir name) < 167"
    and "stat os (doc_root @ page_for dir name) = Some st" and "st_mode st AND S_IROTH \<noteq> 0" and "\<not> S_ISDIR (st_mode st)"
  shows "\<exists>path. do_request os h w = Inr (FILE_REQUEST, h\<lparr>m_real_file := path, m_file_stat := Set st,
    m_file_address := Set (Some (mmap_file os (doc_root @ page_for dir name) (st_size st)))\<rparr>, w)"
proof -
  let ?page = "page_for dir name" and ?path = "doc_root @ page_for dir name @ replicate (167 - length (page_for dir name)) NUL"
  have n: "33 < FILENAME_LEN" "FILENAME_LEN - 33 = 167" by (simp_all add: FILENAME_LEN_def)
  have nul: "NUL \<notin> set ?page"
    using cstr_NUL_free [OF assms(2)] fixed_page_NUL by (auto simp: page_for_def split: option.split)
  have "request_path os h w = Inr (h\<lparr>m_real_file := ?path\<rparr>, w)"
    using request_path_page [OF assms(1-3) _ assms(5) n(1), of os w] assms(4,6) n(2) by simp
  moreover have "cstr ?path 0 = Inr (doc_root @ ?page)" by (rule cstr_path [OF nul assms(6)])
  ultimately show ?thesis using assms(7-9) by (auto simp: do_request_def open_file_def)
qed

section \<open>The request answered\<close>

definition answer_header :: "string \<Rightarrow> bool \<Rightarrow> string" where
  "answer_header file keep = status_text 200 ''OK'' @ header_text (int (length file)) keep"

lemma logged_effects:
  assumes "logged w w'"
  shows "sent_bytes w' = sent_bytes w" "m_epollfd w' = m_epollfd w" "epoll w' = epoll w"
  using assms by (auto simp: logged_def sent_bytes_def)

text \<open>The file a URL stands for, and that it can be served.\<close>

definition served_path :: "string \<Rightarrow> string" where
  "served_path url =
     (let u = page_of url; name = rev (takeWhile (\<lambda>c. c \<noteq> CHR ''/'') (rev u))
      in doc_root @ page_for (take (length u - length name - 1) u) name)"

definition stands_for :: "('m, 'd) os \<Rightarrow> string \<Rightarrow> string \<Rightarrow> bool" where
  "stands_for os url file \<longleftrightarrow>
     length (served_path url) < FILENAME_LEN \<and> file \<noteq> [] \<and> int (length file) < 2000000000 \<and>
     (case stat os (served_path url) of
        None \<Rightarrow> False
      | Some st \<Rightarrow> st_mode st AND S_IROTH \<noteq> 0 \<and> \<not> S_ISDIR (st_mode st) \<and> st_size st = length file \<and>
          (case mmap_file os (served_path url) (st_size st) of Mapping i s \<Rightarrow> s = file | MapFailed \<Rightarrow> False))"

lemma last_component:
  assumes "c \<in> set u"
  shows "\<exists>dir name. u = dir @ c # name \<and> c \<notin> set name \<and> rev (takeWhile (\<lambda>d. d \<noteq> c) (rev u)) = name \<and>
    take (length u - length name - 1) u = dir"
proof -
  obtain dir name where u: "u = dir @ c # name" "c \<notin> set name" using split_list_last [OF assms] by blast
  then have "takeWhile (\<lambda>d. d \<noteq> c) (rev u) = rev name" by (simp add: takeWhile_neq_append)
  with u show ?thesis by (intro exI [of _ dir] exI [of _ name]) simp
qed

lemma stands_forE:
  assumes "stands_for os url file" and "plain_url url"
  obtains dir name st i where "page_of url = dir @ CHR ''/'' # name" "CHR ''/'' \<notin> set name"
    "length (page_for dir name) < 167" "stat os (doc_root @ page_for dir name) = Some st" "st_mode st AND S_IROTH \<noteq> 0"
    "\<not> S_ISDIR (st_mode st)" "mmap_file os (doc_root @ page_for dir name) (st_size st) = Mapping i file"
    "st_size st = length file" "file \<noteq> []" "int (length file) < 2000000000"
proof -
  have "CHR ''/'' \<in> set (page_of url)" using assms(2) by (cases url) (auto simp: plain_url_def page_of_def)
  from last_component [OF this] obtain dir name where d: "page_of url = dir @ CHR ''/'' # name" "CHR ''/'' \<notin> set name"
    "served_path url = doc_root @ page_for dir name" by (metis served_path_def)
  with assms(1) that [OF d(1,2)] show thesis
    by (auto simp: stands_for_def length_doc_root FILENAME_LEN_def split: option.splits file_ptr.splits)
qed

text \<open>A fresh connection that has received a GET request with plain headers, whose URL stands for a file: \<open>process\<close>
  ends with the response ready and the socket armed for writing.\<close>

definition received :: "string \<Rightarrow> 'm http_conn \<Rightarrow> 'm http_conn" where
  "received s h = h\<lparr>m_read_buf := s @ replicate (READ_BUFFER_SIZE - length s) NUL, m_read_idx := length s\<rparr>"

lemma process_answers:
  assumes "plain_url url" and "\<forall>l \<in> set hs. plain_header l" and "stands_for os url file"
    and "h = (received (get_request url hs) (init c))\<lparr>mysql := m\<rparr>" and "keep \<longleftrightarrow> (\<exists>l \<in> set hs. keeps_alive l)"
  shows "\<exists>h' w'. process os h w = Inr (h', w') \<and> sending h' (answer_header file keep) file \<and> bytes_have_send h' = 0 \<and>
    m_linger h' = keep \<and> m_sockfd h' = m_sockfd c \<and> sent_bytes w' = sent_bytes w \<and> m_epollfd w' = m_epollfd w \<and>
    m_user_count w' = m_user_count w \<and> epoll w' = epoll (modfd (m_epollfd w) (m_sockfd c) EPOLLOUT w)"
proof -
  obtain dir name st i where srv: "page_of url = dir @ CHR ''/'' # name" "CHR ''/'' \<notin> set name"
    "length (page_for dir name) < 167" "stat os (doc_root @ page_for dir name) = Some st" "st_mode st AND S_IROTH \<noteq> 0"
    "\<not> S_ISDIR (st_mode st)" "mmap_file os (doc_root @ page_for dir name) (st_size st) = Mapping i file"
    "st_size st = length file" "file \<noteq> []" "int (length file) < 2000000000"
    by (rule stands_forE [OF assms(3,1)])
  let ?a = "(init c)\<lparr>m_read_buf := [], mysql := m\<rparr>" and ?req = "get_request url hs"
  have a: "at_line ?a" "m_check_state ?a = CHECK_STATE_REQUESTLINE" "m_content_length ?a = 0"
    by (simp_all add: at_line_def init_def)
  have h: "h = tl_buf (?req @ replicate (READ_BUFFER_SIZE - length ?req) NUL) (length ?req) ?a"
    by (simp add: assms(4) received_def tl_buf_def)
  obtain h1 w1 where 1: "asks_for url keep ?a h1" "logged w w1" "process_read os h w = do_request os h1 w1"
    using request_read [OF a assms(1,2), where r = "length ?req" and w = w and os = os and st = LINE_OK and
        t = "replicate (READ_BUFFER_SIZE - length ?req) NUL"] assms(5) unfolding h process_read_def by auto
  obtain u where u: "m_url h1 = Some u" "cstr (m_read_buf h1) u = Inr (dir @ CHR ''/'' # name)"
    and f: "cgi h1 = 0" "m_real_file h1 = replicate FILENAME_LEN NUL" "m_linger h1 = keep" "m_sockfd h1 = m_sockfd c"
      "m_write_buf h1 = m_write_buf (init c)" "m_write_idx h1 = 0" "bytes_have_send h1 = 0"
    using 1(1) srv(1) unfolding asks_for_def by (auto simp: init_def)
  obtain path where d: "do_request os h1 w1 = Inr (FILE_REQUEST, h1\<lparr>m_real_file := path, m_file_stat := Set st,
      m_file_address := Set (Some (Mapping i file))\<rparr>, w1)"
    using do_request_file [OF u srv(2) f(1,2) srv(3-6)] srv(7) by metis
  let ?h = "h1\<lparr>m_real_file := path, m_file_stat := Set st, m_file_address := Set (Some (Mapping i file))\<rparr>"
  have "ready ?h" using f holds_init [of c] by (simp add: ready_def holds_def init_def)
  from file_reply_ready [OF this _ _ srv(8-10), of i w1] f obtain h2 w2 where
    2: "process_write FILE_REQUEST ?h w1 = Inr (True, h2, w2)" "sending h2 (answer_header file keep) file"
      "bytes_have_send h2 = 0" "m_linger h2 = keep" "m_sockfd h2 = m_sockfd c" "logged w1 w2"
    by (auto simp: answer_header_def)
  note log = logged_effects [OF logged_trans [OF 1(2) 2(6)]]
  let ?w = "modfd (m_epollfd w2) (m_sockfd h2) EPOLLOUT w2"
  have "process os h w = Inr (h2, ?w)" using 1(3) d 2(1) by (simp add: process_def)
  moreover have "m_user_count w2 = m_user_count w" using logged_trans [OF 1(2) 2(6)] by (auto simp: logged_def)
  then have "epoll ?w = epoll (modfd (m_epollfd w) (m_sockfd c) EPOLLOUT w)" "m_epollfd ?w = m_epollfd w"
    "m_user_count ?w = m_user_count w"
    using 2(5) log by (simp_all add: modfd_def epoll_ctl_mod_def)
  moreover have "sent_bytes ?w = sent_bytes w" using log(1) by simp
  ultimately show ?thesis using 2(2-5) by blast
qed

end
