(* ===== verification/HttpReject.thy ===== *)
theory HttpReject
  imports HttpServe
begin

text \<open>
  Requests the server does not understand: a request line with another method than GET and POST, without a version or
  with another version than HTTP/1.1 is answered with the page for a malformed request, whatever follows it.
\<close>

section \<open>The request line\<close>

definition no_blank :: "string \<Rightarrow> bool" where
  "no_blank s \<longleftrightarrow> (\<forall>c \<in> set s. c \<notin> set blanks)"

text \<open>A line of a method, a target and perhaps a version, and when it is refused.\<close>

definition line_of :: "string \<Rightarrow> string \<Rightarrow> string option \<Rightarrow> string" where
  "line_of meth target ver = meth @ SP # target @ (case ver of None \<Rightarrow> [] | Some v \<Rightarrow> SP # v)"

definition refused :: "string \<Rightarrow> string option \<Rightarrow> bool" where
  "refused meth ver \<longleftrightarrow> \<not> (same_nocase meth ''GET'' \<or> same_nocase meth ''POST'') \<or>
     (case ver of None \<Rightarrow> True | Some v \<Rightarrow> \<not> same_nocase v ''HTTP/1.1'')"

lemma strpbrk_none:
  "cstr b p = Inr s \<Longrightarrow> no_blank s \<Longrightarrow> strpbrk b p blanks = Inr None"
  by (auto simp: strpbrk_def no_blank_def list_ex_iff)

lemma strspn_none:
  "cstr b p = Inr s \<Longrightarrow> no_blank s \<Longrightarrow> strspn b p blanks = Inr 0"
  using strspn_at [of b p "[]" s blanks] by (cases s) (auto simp: no_blank_def)

lemma parse_method_result:
  assumes "cstr (m_read_buf h) p = Inr meth"
  shows "\<exists>m c. parse_method p h = Inr (same_nocase meth ''GET'' \<or> same_nocase meth ''POST'', h\<lparr>m_method := m, cgi := c\<rparr>)"
proof -
  let ?G = "same_nocase meth ''GET''" and ?P = "same_nocase meth ''POST''"
  consider "?G" | "\<not> ?G" "?P" | "\<not> ?G" "\<not> ?P" by blast
  then show ?thesis
  proof cases
    case 1
    with assms have "parse_method p h = Inr (True, h\<lparr>m_method := GET, cgi := cgi h\<rparr>)"
      by (simp add: parse_method_def strcasecmp0_def)
    with 1 show ?thesis by (intro exI [of _ GET] exI [of _ "cgi h"]) simp
  next
    case 2
    with assms have "parse_method p h = Inr (True, h\<lparr>m_method := POST, cgi := 1\<rparr>)"
      by (simp add: parse_method_def strcasecmp0_def)
    with 2 show ?thesis by (intro exI [of _ POST] exI [of _ 1]) simp
  next
    case 3
    with assms have "parse_method p h = Inr (False, h\<lparr>m_method := m_method h, cgi := cgi h\<rparr>)"
      by (simp add: parse_method_def strcasecmp0_def)
    with 3 show ?thesis by (intro exI [of _ "m_method h"] exI [of _ "cgi h"]) simp
  qed
qed

lemma request_line_refused:
  assumes line: "cstr (m_read_buf h) p = Inr (line_of meth target ver)" and "refused meth ver"
    and blank: "no_blank meth" "no_blank target" "target \<noteq> []" "\<forall>v. ver = Some v \<longrightarrow> no_blank v"
  shows "\<exists>b u v m c. parse_request_line p h =
    Inr (BAD_REQUEST, h\<lparr>m_read_buf := b, m_url := u, m_version := v, m_method := m, cgi := c\<rparr>)"
proof -
  let ?b = "m_read_buf h" and ?i = "p + length meth"
  let ?rest = "target @ (case ver of None \<Rightarrow> [] | Some v \<Rightarrow> SP # v)"
  have sp: "SP \<in> set blanks" by (simp add: blanks_def)
  have l: "cstr ?b p = Inr (meth @ SP # ?rest)" using line by (simp add: line_of_def)
  have pb: "strpbrk ?b p blanks = Inr (Some ?i)" using strpbrk_at [OF l _ sp] blank(1) by (simp add: no_blank_def)
  define b1 where "b1 = ?b[?i := NUL]"
  have b1: "cstr b1 p = Inr meth" "cstr b1 (?i + 1) = Inr ?rest" using cstr_split [OF l] by (simp_all add: b1_def)
  have w1: "wr ?b ?i NUL = Inr b1" using cstr_bound(1) [OF l] by (simp add: wr_def b1_def)
  define h1 where "h1 = h\<lparr>m_read_buf := b1, m_url := Some (?i + 1)\<rparr>"
  obtain m c where m: "parse_method p h1 = Inr (same_nocase meth ''GET'' \<or> same_nocase meth ''POST'', h1\<lparr>m_method := m, cgi := c\<rparr>)"
    using parse_method_result [of h1 p meth] b1(1) by (auto simp: h1_def)
  show ?thesis
  proof (cases "same_nocase meth ''GET'' \<or> same_nocase meth ''POST''")
    case False
    then have "parse_request_line p h = Inr (BAD_REQUEST, h1\<lparr>m_method := m, cgi := c\<rparr>)"
      using pb w1 m by (simp add: parse_request_line_def h1_def del: wr_Inr)
    then show ?thesis by (intro exI [of _ b1] exI [of _ "Some (?i + 1)"] exI [of _ "m_version h"] exI [of _ m] exI [of _ c])
      (simp add: h1_def)
  next
    case supported: True
    show ?thesis
    proof (cases ver)
      case None
      then have t: "cstr b1 (?i + 1) = Inr target" using b1(2) by simp
      have "parse_request_line p h = Inr (BAD_REQUEST, h1\<lparr>m_method := m, cgi := c, m_url := Some (?i + 1), m_version := None\<rparr>)"
        using pb w1 m supported strspn_none [OF t blank(2)] strpbrk_none [OF t blank(2)]
        by (simp add: parse_request_line_def h1_def del: wr_Inr)
      then show ?thesis by (intro exI [of _ b1] exI [of _ "Some (?i + 1)"] exI [of _ None] exI [of _ m] exI [of _ c])
        (simp add: h1_def)
    next
      case (Some v)
      have bv: "no_blank v" "\<not> same_nocase v ''HTTP/1.1''" using blank(4) assms(2) supported Some by (simp_all add: refused_def)
      have t: "cstr b1 (?i + 1) = Inr (target @ SP # v)" using b1(2) Some by simp
      have s1: "strspn b1 (?i + 1) blanks = Inr 0"
        using strspn_at [of b1 "?i + 1" "[]" "target @ SP # v" blanks] t blank(2,3) by (cases target) (auto simp: no_blank_def)
      have pv: "strpbrk b1 (?i + 1) blanks = Inr (Some (?i + 1 + length target))"
        using strpbrk_at [OF t _ sp] blank(2) by (simp add: no_blank_def)
      define b2 where "b2 = b1[?i + 1 + length target := NUL]"
      have b2: "cstr b2 (?i + 1 + length target + 1) = Inr v" using cstr_split(2) [OF t] by (simp add: b2_def)
      have w2: "wr b1 (?i + 1 + length target) NUL = Inr b2" using cstr_bound(1) [OF t] by (simp add: wr_def b2_def)
      have "parse_request_line p h = Inr (BAD_REQUEST, h1\<lparr>m_method := m, cgi := c, m_url := Some (?i + 1), m_read_buf := b2,
          m_version := Some (?i + 1 + length target + 1)\<rparr>)"
        using pb w1 m supported s1 pv w2 strspn_none [OF b2 bv(1)] b2 bv(2)
        by (simp add: parse_request_line_def h1_def strcasecmp0_def del: wr_Inr)
      then show ?thesis
        by (intro exI [of _ b2] exI [of _ "Some (?i + 1)"] exI [of _ "Some (?i + 1 + length target + 1)"] exI [of _ m] exI [of _ c])
          (simp add: h1_def)
    qed
  qed
qed

section \<open>The answer\<close>

text \<open>Whatever follows the first line, \<open>process_read\<close> ends there.\<close>

lemma refused_read:
  assumes "at_line a" and "m_check_state a = CHECK_STATE_REQUESTLINE" and "one_line (line_of meth target ver)" and "refused meth ver"
    and "no_blank meth" "no_blank target" "target \<noteq> []" "\<forall>v. ver = Some v \<longrightarrow> no_blank v"
    and "n \<le> length t" and "r = length (m_read_buf a) + length (line_of meth target ver) + 2 + n"
  shows "\<exists>h' w'. process_read_loop os st (tl_buf (line_of meth target ver @ CR # LF # t) r a) w = Inr (BAD_REQUEST, h', w') \<and>
    logged w w' \<and> (\<exists>b ri ci sl u v m c. h' = a\<lparr>m_read_buf := b, m_read_idx := ri, m_checked_idx := ci, m_start_line := sl,
      m_url := u, m_version := v, m_method := m, cgi := c\<rparr>)"
proof -
  let ?l = "line_of meth target ver" and ?p = "length (m_read_buf a)"
  let ?h = "tl_buf t r (next_line (with_line ?l a))"
  have str: "cstr (m_read_buf ?h) ?p = Inr ?l"
    using with_line_str [OF assms(3), of t r a] by (simp add: tl_buf_def next_line_def)
  obtain b u v m c where p: "parse_request_line ?p ?h =
      Inr (BAD_REQUEST, ?h\<lparr>m_read_buf := b, m_url := u, m_version := v, m_method := m, cgi := c\<rparr>)"
    using request_line_refused [OF str assms(4-8)] by blast
  have nc: "m_check_state a \<noteq> CHECK_STATE_CONTENT" using assms(2) by simp
  have body: "loop_body os LINE_OK (tl_buf t r (with_line ?l a)) w =
      Inr (Some BAD_REQUEST, LINE_OK, ?h\<lparr>m_read_buf := b, m_url := u, m_version := v, m_method := m, cgi := c\<rparr>, emit (LogInfo ?l) w)"
    unfolding loop_body_def Let_def next_line_tl line_fields [OF assms(1)] using p str assms(2) by (simp add: line_kept)
  have "process_read_loop os st (tl_buf (?l @ CR # LF # t) r a) w =
      Inr (BAD_REQUEST, ?h\<lparr>m_read_buf := b, m_url := u, m_version := v, m_method := m, cgi := c\<rparr>, emit (LogInfo ?l) w)"
    unfolding loop_reads [OF assms(1,3) nc assms(9,10)] body by simp
  moreover have "?h\<lparr>m_read_buf := b, m_url := u, m_version := v, m_method := m, cgi := c\<rparr> =
      a\<lparr>m_read_buf := b, m_read_idx := r, m_checked_idx := ?p + length ?l + 2, m_start_line := ?p + length ?l + 2,
      m_url := u, m_version := v, m_method := m, cgi := c\<rparr>"
    by (simp add: tl_buf_def next_line_def with_line_def)
  ultimately show ?thesis using logged_emit by blast
qed

definition bad_request_page :: string where
  "bad_request_page = reply_text 404 error_404_title False error_404_form"

text \<open>A fresh connection that has received such a request: \<open>process\<close> ends with the page ready and the socket armed for
  writing, and the connection will not be kept. (The pointer to the last file must have been set: see the first response of
  a connection object.)\<close>

lemma process_refuses:
  assumes "one_line (line_of meth target ver)" and "refused meth ver"
    and "no_blank meth" "no_blank target" "target \<noteq> []" "\<forall>v. ver = Some v \<longrightarrow> no_blank v"
    and "h = (received (line_of meth target ver @ CR # LF # t) (init c))\<lparr>mysql := m\<rparr>"
    and "length (line_of meth target ver @ CR # LF # t) \<le> READ_BUFFER_SIZE" and "m_file_address c = Set None"
  shows "\<exists>h' w'. process os h w = Inr (h', w') \<and> sending h' bad_request_page [] \<and> bytes_have_send h' = 0 \<and>
    \<not> m_linger h' \<and> m_sockfd h' = m_sockfd c \<and> sent_bytes w' = sent_bytes w \<and> m_epollfd w' = m_epollfd w \<and>
    epoll w' = epoll (modfd (m_epollfd w) (m_sockfd c) EPOLLOUT w)"
proof -
  let ?a = "(init c)\<lparr>m_read_buf := [], mysql := m\<rparr>" and ?req = "line_of meth target ver @ CR # LF # t"
  have a: "at_line ?a" "m_check_state ?a = CHECK_STATE_REQUESTLINE" by (simp_all add: at_line_def init_def)
  have h: "h = tl_buf (line_of meth target ver @ CR # LF # (t @ replicate (READ_BUFFER_SIZE - length ?req) NUL)) (length ?req) ?a"
    by (simp add: assms(7) received_def tl_buf_def)
  have n: "length t \<le> length (t @ replicate (READ_BUFFER_SIZE - length ?req) NUL)"
    "length ?req = length (m_read_buf ?a) + length (line_of meth target ver) + 2 + length t" by simp_all
  obtain h1 w1 where 1: "process_read os h w = Inr (BAD_REQUEST, h1, w1)" "logged w w1"
    and f: "\<exists>b ri ci sl u v m c. h1 = ?a\<lparr>m_read_buf := b, m_read_idx := ri, m_checked_idx := ci, m_start_line := sl,
      m_url := u, m_version := v, m_method := m, cgi := c\<rparr>"
    using refused_read [OF a assms(1-6) n, of os LINE_OK w] unfolding h process_read_def by blast
  from f have k: "m_file_address h1 = Set None" "\<not> m_linger h1" "m_sockfd h1 = m_sockfd c" "ready h1"
    using ready_init [of c] assms(9) by (auto simp: ready_def holds_def init_def)
  obtain h2 w2 where 2: "process_write BAD_REQUEST h1 w1 = Inr (True, h2, w2)" "sending h2 bad_request_page []"
    "bytes_have_send h2 = 0" "\<not> m_linger h2" "m_sockfd h2 = m_sockfd c" "logged w1 w2"
    using error_reply_ready [OF k(4,1), of BAD_REQUEST 404 error_404_title error_404_form w1] k(2,3)
    by (auto simp: error_page_def bad_request_page_def)
  note log = logged_effects [OF logged_trans [OF 1(2) 2(6)]]
  let ?w = "modfd (m_epollfd w2) (m_sockfd h2) EPOLLOUT w2"
  have "process os h w = Inr (h2, ?w)" using 1(1) 2(1) by (simp add: process_def)
  moreover have "epoll ?w = epoll (modfd (m_epollfd w) (m_sockfd c) EPOLLOUT w)" "m_epollfd ?w = m_epollfd w"
    using 2(5) log by (simp_all add: modfd_def epoll_ctl_mod_def)
  moreover have "sent_bytes ?w = sent_bytes w" using log(1) by simp
  ultimately show ?thesis using 2(2-5) by blast
qed

end
