(* ===== verification/EventLoopServe.thy ===== *)
theory EventLoopServe
  imports EventLoopRun HttpReject
begin

text \<open>
  A request on its way through the server: what the handler of a readable socket, a worker and the handler of a
  writable socket do to the connection, the queue of the pool and the system.
\<close>

lemma logged_sys [simp]: "sys (ctx (on_sys f S)) = f (sys (ctx S))"
  by (simp add: on_sys_def)

text \<open>Postponing a timer only logs.\<close>

lemma postpone_frame:
  assumes "postpone now timer S = Inr S'"
  shows "user_conns S' = user_conns S" "pool S' = pool S" "logged (sys (ctx S)) (sys (ctx S'))"
    "listenfd S' = listenfd S" "pipe_read S' = pipe_read S"
  using assms by (auto simp: postpone_def Let_def on_sys_def logged_emit split: option.splits)

lemma event_masks:
  "EPOLLIN AND (EPOLLRDHUP OR EPOLLHUP OR EPOLLERR) = 0" "EPOLLOUT AND (EPOLLRDHUP OR EPOLLHUP OR EPOLLERR) = 0"
  "EPOLLIN AND EPOLLIN \<noteq> 0" "EPOLLOUT AND EPOLLIN = 0" "EPOLLOUT AND EPOLLOUT \<noteq> 0"
  by (simp_all add: EPOLLIN_def EPOLLOUT_def EPOLLRDHUP_def EPOLLHUP_def EPOLLERR_def)

lemma handle_client_event:
  assumes "server_ok S" and "ev_fd e \<in> open_fds (timer_lst S)"
  shows "ev_mask e = EPOLLIN \<Longrightarrow> handle_event e S = on_readable (ev_fd e) (ev_recv e) (ev_time e) S"
    and "ev_mask e = EPOLLOUT \<Longrightarrow> handle_event e S = on_writable (ev_fd e) (ev_send e) (ev_time e) S"
proof -
  have "ev_fd e \<noteq> listenfd S" "ev_fd e \<noteq> pipe_read S"
    using assms by (auto simp: server_ok_def loop_ok_def)
  then show "ev_mask e = EPOLLIN \<Longrightarrow> handle_event e S = on_readable (ev_fd e) (ev_recv e) (ev_time e) S"
    "ev_mask e = EPOLLOUT \<Longrightarrow> handle_event e S = on_writable (ev_fd e) (ev_send e) (ev_time e) S"
    using event_masks by (simp_all add: handle_event_def)
qed

lemma append_accepts:
  assumes "m_queuelocker T = Free" and "int (length (m_workqueue T)) \<le> m_max_requests T"
  shows "append_request r T = Inr (True, T\<lparr>m_workqueue := m_workqueue T @ [r], m_queuestat := Suc (m_queuestat T)\<rparr>)"
  using assms by (simp add: append_request_def append_put_def append_post_def sem_post_def)

lemma read_fresh:
  assumes "stream sock = (s, True)" and "length s < READ_BUFFER_SIZE"
  shows "\<exists>rest. read_once sock (init c) = Inr (True, received s (init c), rest)"
  using read_once_result [of "init c" sock s True] assms
  by (auto simp: init_def received_def READ_BUFFER_SIZE_def)

text \<open>A readable socket whose request arrives in full on a fresh connection.\<close>

lemma readable_queues:
  assumes "server_ok S" and "int i \<in> open_fds (timer_lst S)" and "user_conns S i = init c"
    and "stream sock = (s, True)" and "length s < READ_BUFFER_SIZE"
    and "m_queuelocker (pool S) = Free" and "int (length (m_workqueue (pool S))) \<le> m_max_requests (pool S)"
  shows "\<exists>S'. on_readable (int i) sock now S = Inr S' \<and> server_ok S' \<and> open_fds (timer_lst S') = open_fds (timer_lst S) \<and>
    user_conns S' i = received s (init c) \<and>
    pool S' = (pool S)\<lparr>m_workqueue := m_workqueue (pool S) @ [Some i], m_queuestat := Suc (m_queuestat (pool S))\<rparr> \<and>
    logged (sys (ctx S)) (sys (ctx S'))"
proof -
  obtain a where a: "slot (int i) = Inr i" "a \<in> set (m_pq (timer_lst S))" "cd_timer (users_timer (ctx S) i) = Set (Some a)"
    using event_timer [OF assms(1,2)] by (metis of_nat_eq_iff)
  obtain rest where r: "read_once sock (user_conns S i) = Inr (True, received s (init c), rest)"
    using read_fresh [OF assms(4,5), of c] assms(3) by auto
  let ?T = "(pool S)\<lparr>m_workqueue := m_workqueue (pool S) @ [Some i], m_queuestat := Suc (m_queuestat (pool S))\<rparr>"
  have T: "append_request (Some i) (pool S) = Inr (True, ?T)" by (rule append_accepts [OF assms(6,7)])
  let ?L = "(on_sys (client_log ''deal with'' (received s (init c))) (S\<lparr>user_conns := (user_conns S)(i := received s (init c))\<rparr>))\<lparr>pool := ?T\<rparr>"
  have "server_ok (on_sys (client_log ''deal with'' (received s (init c))) S)"
    using assms(1) by (intro server_ok_on_sys) (simp_all add: client_log_def)
  then have ok: "server_ok ?L" by (simp add: server_ok_def on_sys_def)
  have "timer_lst ?L = timer_lst S" by (simp add: on_sys_def)
  then obtain S' where S': "postpone now (Some a) ?L = Inr S'" "server_ok S'" "open_fds (timer_lst S') = open_fds (timer_lst S)"
    using postpone_ok [OF ok, of a now] a(2) by auto
  have "on_readable (int i) sock now S = Inr S'"
    using a r T S'(1) by (simp add: on_readable_def Let_def on_sys_def)
  moreover have "logged (sys (ctx S)) (sys (ctx S'))"
    using logged_trans [OF _ postpone_frame(3) [OF S'(1)], of "sys (ctx S)"] by (simp add: client_log_def logged_emit)
  ultimately show ?thesis
    using S'(2,3) postpone_frame(1,2) [OF S'(1)] by (simp add: on_sys_def)
qed

text \<open>The worker.\<close>

lemma registered_open: "server_ok S \<Longrightarrow> fd \<in> open_fds (timer_lst S) \<Longrightarrow> fd \<in> registered (sys (ctx S))"
  by (auto simp: server_ok_def loop_ok_def)

definition armed :: "int \<Rightarrow> 32 word \<Rightarrow> ('m, 'd) server \<Rightarrow> bool" where
  "armed fd ev S \<longleftrightarrow>
     epoll (sys (ctx S)) (m_epollfd (sys (ctx S))) fd = Some (ev OR EPOLLET OR EPOLLONESHOT OR EPOLLRDHUP)"

text \<open>A connection for which \<open>process\<close> ends with a response of a header and a file (perhaps empty) ready to be sent.\<close>

definition process_ready :: "('m, 'd) os \<Rightarrow> 'm http_conn \<Rightarrow> string \<Rightarrow> string \<Rightarrow> bool \<Rightarrow> bool" where
  "process_ready os h hdr file keep \<longleftrightarrow>
     (\<forall>w m. \<exists>h' w'. process os (h\<lparr>mysql := m\<rparr>) w = Inr (h', w') \<and> sending h' hdr file \<and> bytes_have_send h' = 0 \<and>
        m_linger h' = keep \<and> m_sockfd h' = m_sockfd h \<and> sent_bytes w' = sent_bytes w \<and> m_epollfd w' = m_epollfd w \<and>
        epoll w' = epoll (modfd (m_epollfd w) (m_sockfd h) EPOLLOUT w))"

lemma received_simps [simp]: "m_sockfd (received s h) = m_sockfd h" "m_sockfd (init c) = m_sockfd c"
  by (simp_all add: received_def init_def)

lemma file_ready:
  assumes "plain_url target" and "\<forall>l \<in> set hs. plain_header l" and "stands_for os target file"
    and "keep \<longleftrightarrow> (\<exists>l \<in> set hs. keeps_alive l)"
  shows "process_ready os (received (get_request target hs) (init c)) (answer_header file keep) file keep"
  unfolding process_ready_def
proof (intro allI)
  fix w m
  show "\<exists>h' w'. process os ((received (get_request target hs) (init c))\<lparr>mysql := m\<rparr>) w = Inr (h', w') \<and>
      sending h' (answer_header file keep) file \<and> bytes_have_send h' = 0 \<and> m_linger h' = keep \<and>
      m_sockfd h' = m_sockfd (received (get_request target hs) (init c)) \<and> sent_bytes w' = sent_bytes w \<and> m_epollfd w' = m_epollfd w \<and>
      epoll w' = epoll (modfd (m_epollfd w) (m_sockfd (received (get_request target hs) (init c))) EPOLLOUT w)"
    using process_answers [OF assms(1-3) refl assms(4), where c = c and m = m and w = w] by auto
qed

lemma refusal_ready:
  assumes "one_line (line_of meth target ver)" and "refused meth ver"
    and "no_blank meth" "no_blank target" "target \<noteq> []" "\<forall>v. ver = Some v \<longrightarrow> no_blank v"
    and "length (line_of meth target ver @ CR # LF # t) \<le> READ_BUFFER_SIZE" and "m_file_address c = Set None"
  shows "process_ready os (received (line_of meth target ver @ CR # LF # t) (init c)) bad_request_page [] False"
  unfolding process_ready_def
proof (intro allI)
  fix w m
  show "\<exists>h' w'. process os ((received (line_of meth target ver @ CR # LF # t) (init c))\<lparr>mysql := m\<rparr>) w = Inr (h', w') \<and>
      sending h' bad_request_page [] \<and> bytes_have_send h' = 0 \<and> m_linger h' = False \<and>
      m_sockfd h' = m_sockfd (received (line_of meth target ver @ CR # LF # t) (init c)) \<and> sent_bytes w' = sent_bytes w \<and> m_epollfd w' = m_epollfd w \<and>
      epoll w' = epoll (modfd (m_epollfd w) (m_sockfd (received (line_of meth target ver @ CR # LF # t) (init c))) EPOLLOUT w)"
    using process_refuses [OF assms(1-6) refl assms(7,8), where m = m and os = os and w = w] by auto
qed

lemma worker_ready:
  assumes "server_ok S" and "int i \<in> open_fds (timer_lst S)" and "process_ready os (user_conns S i) hdr file keep"
    and "m_sockfd (user_conns S i) = int i"
  shows "\<exists>S'. serve_request os m i S = Inr S' \<and> server_ok S' \<and> timer_lst S' = timer_lst S \<and> pool S' = pool S \<and>
    sending (user_conns S' i) hdr file \<and> bytes_have_send (user_conns S' i) = 0 \<and>
    m_linger (user_conns S' i) = keep \<and> m_sockfd (user_conns S' i) = int i \<and>
    sent_bytes (sys (ctx S')) = sent_bytes (sys (ctx S)) \<and> armed (int i) EPOLLOUT S'"
proof -
  let ?w = "sys (ctx S)"
  obtain h w where p: "process os ((user_conns S i)\<lparr>mysql := m\<rparr>) ?w = Inr (h, w)"
    "sending h hdr file" "bytes_have_send h = 0" "m_linger h = keep" "m_sockfd h = int i"
    "sent_bytes w = sent_bytes ?w" "m_epollfd w = m_epollfd ?w"
    "epoll w = epoll (modfd (m_epollfd ?w) (int i) EPOLLOUT ?w)"
    using assms(3,4) unfolding process_ready_def by metis
  let ?S = "S\<lparr>user_conns := (user_conns S)(i := h), ctx := (ctx S)\<lparr>sys := w\<rparr>\<rparr>"
  have run: "serve_request os m i S = Inr ?S" using p(1) by (simp add: serve_request_def)
  have "m_sockfd (user_conns ?S i) = m_sockfd (user_conns S i)" using p(5) assms(4) by simp
  then have "server_ok ?S" by (rule serve_request_ok [OF assms(1) run])
  moreover have "armed (int i) EPOLLOUT ?S"
    using registered_open [OF assms(1,2)] p(7,8) assms(4)
    by (auto simp: armed_def registered_def modfd_def epoll_ctl_mod_def)
  ultimately show ?thesis using run p(2-6) by auto
qed

text \<open>A writable socket that takes the whole response.\<close>

lemma sent_closed: "sent_bytes (sys (closed i c)) = sent_bytes (sys c)"
  by (simp add: closed_def Let_def sent_bytes_def emit_def epoll_ctl_del_def)

lemma writable_sends:
  assumes "server_ok S" and "int i \<in> open_fds (timer_lst S)" and "sending (user_conns S i) hdr file"
    and "bytes_have_send (user_conns S i) = 0" and "m_linger (user_conns S i) = keep"
    and "header_ok (length hdr) 0 sock" and "length (hdr @ file) \<le> room sock" and "m_sockfd (user_conns S i) = int i"
  shows "\<exists>S'. on_writable (int i) sock now S = Inr S' \<and> server_ok S' \<and>
    sent_bytes (sys (ctx S')) = sent_bytes (sys (ctx S)) @ hdr @ file \<and>
    open_fds (timer_lst S') = (if keep then open_fds (timer_lst S) else open_fds (timer_lst S) - {int i}) \<and>
    pool S' = pool S \<and> (keep \<longrightarrow> armed (int i) EPOLLIN S') \<and> (keep \<longrightarrow> reset_on (m_sockfd (user_conns S i)) (user_conns S' i))"
proof -
  obtain a where a: "slot (int i) = Inr i" "a \<in> set (m_pq (timer_lst S))" "watches (timer_lst S) a = i"
    "cd_timer (users_timer (ctx S) i) = Set (Some a)"
    using event_timer [OF assms(1,2)] by (metis of_nat_eq_iff)
  obtain h w where r: "conn_write sock (user_conns S i) (sys (ctx S)) = Inr (keep, h, w)"
    "sent_bytes w = sent_bytes (sys (ctx S)) @ hdr @ file"
    "keep \<longrightarrow> reset_on (m_sockfd (user_conns S i)) h"
    "epoll w = epoll (modfd (m_epollfd (sys (ctx S))) (int i) EPOLLIN (sys (ctx S)))"
    using conn_write_sends [OF assms(3), of sock "sys (ctx S)"] assms(4-8) by (auto simp: delivered_def Let_def)
  let ?S = "S\<lparr>user_conns := (user_conns S)(i := h), ctx := (ctx S)\<lparr>sys := w\<rparr>\<rparr>"
  have ok: "server_ok ?S" using assms(1) conn_write_world [OF r(1)] by (simp add: server_ok_def loop_ok_def)
  show ?thesis
  proof (cases keep)
    case True
    let ?L = "on_sys (client_log ''send data to'' h) ?S"
    have okL: "server_ok ?L" using ok by (intro server_ok_on_sys) (simp_all add: client_log_def)
    obtain S' where S': "postpone now (Some a) ?L = Inr S'" "server_ok S'" "open_fds (timer_lst S') = open_fds (timer_lst S)"
      using postpone_ok [OF okL, of a now] a(2) by auto
    have "logged w (sys (ctx S'))"
      using logged_trans [OF _ postpone_frame(3) [OF S'(1)], of w] by (simp add: client_log_def logged_emit)
    note e = logged_effects [OF this]
    have "armed (int i) EPOLLIN S'"
      using registered_open [OF assms(1,2)] e(2,3) r(4) conn_write_world [OF r(1)]
      by (auto simp: armed_def registered_def modfd_def epoll_ctl_mod_def)
    with e(1) S' a(1,4) r True postpone_frame(1,2) [OF S'(1)] show ?thesis by (simp add: on_writable_def Let_def on_sys_def)
  next
    case False
    obtain H' where "drop_connection (Some a) i ?S = Inr (?S\<lparr>ctx := closed i (ctx ?S), timer_lst := H'\<rparr>)"
      "server_ok (?S\<lparr>ctx := closed i (ctx ?S), timer_lst := H'\<rparr>)" "open_fds H' = open_fds (timer_lst S) - {int i}"
      using drop_connection_ok [OF ok, of a i] a(2,3) by auto
    with a(1,4) r False show ?thesis by (simp add: on_writable_def Let_def sent_closed)
  qed
qed

end
