(* ===== verification/Session.thy ===== *)
theory Session
  imports EventLoopServe
begin

text \<open>
  The event loop, a worker and the database pool together: one round of a worker, requests that follow each other on a
  connection, and what the client gets for them.
\<close>

section \<open>A round of a worker\<close>

text \<open>The body of the loop of \<open>threadpool::run\<close> on the server's pool, without a step of another thread in between: \<open>None\<close> while
  it waits; the result says whether the loop goes on.\<close>

definition run_round :: "('m, 'd) os \<Rightarrow> ('m, 'd) server \<Rightarrow> 'm connection_pool \<Rightarrow>
    (bool \<times> ('m, 'd) server \<times> 'm connection_pool) res option" where
  "run_round os S C =
     (if m_stop (pool S) then returns (False, S, C)
      else case sem_wait (m_queuestat (pool S)) of
             None \<Rightarrow> None
           | Some v \<Rightarrow>
               wthen (Some (run_take ((pool S)\<lparr>m_queuestat := v\<rparr>))) (\<lambda>(request, T).
               let S = S\<lparr>pool := T\<rparr> in
               case request of
                 Some (Some i) \<Rightarrow>
                   wthen (connectionRAII_new C) (\<lambda>(c, C).
                   wthen (Some (serve_request os c i S)) (\<lambda>S.
                   wthen (Some (connectionRAII_delete c C)) (\<lambda>C. returns (True, S, C))))
               | _ \<Rightarrow> returns (True, S, C)))"

text \<open>Requests one after the other: for each, epoll reports the socket readable, a worker takes the request, and epoll reports
  the socket writable. epoll reports an event only while the descriptor is armed for it.\<close>

definition reported :: "io_event \<Rightarrow> ('m, 'd) server \<Rightarrow> ('m, 'd) server res option" where
  "reported e S = (if armed (ev_fd e) (ev_mask e) S then Some (handle_event e S) else None)"

fun session :: "('m, 'd) os \<Rightarrow> (io_event \<times> io_event) list \<Rightarrow> ('m, 'd) server \<Rightarrow> 'm connection_pool \<Rightarrow>
    (('m, 'd) server \<times> 'm connection_pool) res option" where
  "session os [] S C = returns (S, C)"
| "session os ((e1, e2) # es) S C =
     wthen (reported e1 S) (\<lambda>S.
     wthen (run_round os S C) (\<lambda>(_, S, C).
     wthen (reported e2 S) (\<lambda>S. session os es S C)))"

section \<open>One request\<close>

text \<open>A pool of workers with nothing to do.\<close>

definition idle :: "'r threadpool \<Rightarrow> bool" where
  "idle T \<longleftrightarrow> m_workqueue T = [] \<and> m_queuelocker T = Free \<and> 0 \<le> m_max_requests T \<and> \<not> m_stop T"

lemma idle_take:
  assumes "idle T"
  shows "run_take (T\<lparr>m_workqueue := m_workqueue T @ [r], m_queuestat := v\<rparr>) =
    Inr (Some r, T\<lparr>m_queuestat := v\<rparr>)"
  using assms by (simp add: run_take_def idle_def)

text \<open>The events of a request: its bytes arrive in any pieces, and the socket takes the response in any pieces, at most one of
  which ends inside the header.\<close>

definition brings :: "io_event \<Rightarrow> int \<Rightarrow> string \<Rightarrow> bool" where
  "brings e fd s \<longleftrightarrow> ev_fd e = fd \<and> ev_mask e = EPOLLIN \<and> stream (ev_recv e) = (s, True) \<and> length s < READ_BUFFER_SIZE"

definition takes_all :: "io_event \<Rightarrow> int \<Rightarrow> string \<Rightarrow> string \<Rightarrow> bool" where
  "takes_all e fd hdr file \<longleftrightarrow> ev_fd e = fd \<and> ev_mask e = EPOLLOUT \<and> header_ok (length hdr) 0 (ev_send e) \<and>
     length (hdr @ file) \<le> room (ev_send e)"

text \<open>A state in which connection \<open>i\<close> waits for a request, with idle workers.\<close>

definition waits_on :: "nat \<Rightarrow> ('m, 'd) server \<Rightarrow> 'm connection_pool \<Rightarrow> bool" where
  "waits_on i S C \<longleftrightarrow> server_ok S \<and> int i \<in> open_fds (timer_lst S) \<and> reset_on (int i) (user_conns S i) \<and>
     armed (int i) EPOLLIN S \<and> idle (pool S) \<and> pool_good C"

text \<open>How the state differs when the response has been sent.\<close>

definition answered :: "nat \<Rightarrow> string \<Rightarrow> bool \<Rightarrow> ('m, 'd) server \<Rightarrow> 'm connection_pool \<Rightarrow> ('m, 'd) server \<Rightarrow>
    'm connection_pool \<Rightarrow> bool" where
  "answered i response keep S C S' C' \<longleftrightarrow> server_ok S' \<and> pool_good C' \<and> mset (connList C') = mset (connList C) \<and>
     sent_bytes (sys (ctx S')) = sent_bytes (sys (ctx S)) @ response \<and>
     open_fds (timer_lst S') = (if keep then open_fds (timer_lst S) else open_fds (timer_lst S) - {int i}) \<and>
     (keep \<longrightarrow> waits_on i S' C')"

lemma reset_init: "reset_on fd h \<Longrightarrow> \<exists>c. h = init c \<and> m_sockfd c = fd"
  by (simp add: reset_on_def)

lemma one_request:
  assumes "waits_on i S C" and "brings e1 (int i) s" and "takes_all e2 (int i) hdr file"
    and "process_ready os (received s (user_conns S i)) hdr file keep"
  shows "\<exists>S' C'. session os [(e1, e2)] S C = returns (S', C') \<and> answered i (hdr @ file) keep S C S' C'"
proof -
  note w = assms(1) [unfolded waits_on_def] and b = assms(2) [unfolded brings_def] and t = assms(3) [unfolded takes_all_def]
  obtain c where c: "user_conns S i = init c" "m_sockfd c = int i" using w reset_init by blast
  have q: "m_queuelocker (pool S) = Free" "int (length (m_workqueue (pool S))) \<le> m_max_requests (pool S)"
    using w by (simp_all add: idle_def)
  let ?T = "(pool S)\<lparr>m_workqueue := m_workqueue (pool S) @ [Some i], m_queuestat := Suc (m_queuestat (pool S))\<rparr>"
  obtain S1 where 1: "on_readable (int i) (ev_recv e1) (ev_time e1) S = Inr S1" "server_ok S1"
    "open_fds (timer_lst S1) = open_fds (timer_lst S)" "user_conns S1 i = received s (init c)" "pool S1 = ?T"
    "logged (sys (ctx S)) (sys (ctx S1))"
    using readable_queues [OF _ _ c(1) _ _ q] w b by blast
  have r1: "reported e1 S = returns S1"
    using handle_client_event(1) [of S e1] 1(1) w b by (simp add: reported_def returns_def)
  obtain x C1 where x: "connectionRAII_new C = Some (Inr (x, C1))" using sql.acquire_never_blocks w by blast
  then have C1: "pool_good C1" using sql.acquire_moves(1) w by blast
  obtain C2 where C2: "connectionRAII_delete x C1 = Inr C2" using sql.release_never_faults [OF C1] by blast
  have m: "pool_good C2" "mset (connList C2) = mset (connList C)"
    using sql.release_moves(1) [OF C1 C2] sql.session_roundtrip [OF _ x C2] w by blast+
  let ?S = "S1\<lparr>pool := (pool S)\<lparr>m_queuestat := m_queuestat (pool S)\<rparr>\<rparr>"
  have ok: "server_ok ?S" using 1(2) by (simp add: server_ok_def)
  have o: "int i \<in> open_fds (timer_lst ?S)" using w 1(3) by simp
  have "process_ready os (user_conns ?S i) hdr file keep" "m_sockfd (user_conns ?S i) = int i"
    using assms(4) c 1(4) by simp_all
  from worker_ready [OF ok o this] obtain S2 where 2: "serve_request os x i ?S = Inr S2" "server_ok S2" "timer_lst S2 = timer_lst ?S"
    "pool S2 = pool ?S" "sending (user_conns S2 i) hdr file" "bytes_have_send (user_conns S2 i) = 0"
    "m_linger (user_conns S2 i) = keep" "m_sockfd (user_conns S2 i) = int i"
    "sent_bytes (sys (ctx S2)) = sent_bytes (sys (ctx ?S))" "armed (int i) EPOLLOUT S2" by blast
  have take: "run_take ((pool S1)\<lparr>m_queuestat := m_queuestat (pool S)\<rparr>) =
      Inr (Some (Some i), (pool S)\<lparr>m_queuestat := m_queuestat (pool S)\<rparr>)"
    using idle_take [of "pool S", where r = "Some i" and v = "m_queuestat (pool S)"] w 1(5) by simp
  have "\<not> m_stop (pool S1)" using w 1(5) by (simp add: idle_def)
  then have r2: "run_round os S1 C = returns (True, S2, C2)"
    using take x 2(1) C2 1(5) by (simp add: run_round_def Let_def)
  have o2: "int i \<in> open_fds (timer_lst S2)" using o 2(3) by simp
  obtain S3 where 3: "on_writable (int i) (ev_send e2) (ev_time e2) S2 = Inr S3" "server_ok S3"
    "sent_bytes (sys (ctx S3)) = sent_bytes (sys (ctx S2)) @ hdr @ file"
    "open_fds (timer_lst S3) = (if keep then open_fds (timer_lst S2) else open_fds (timer_lst S2) - {int i})"
    "pool S3 = pool S2" "keep \<longrightarrow> armed (int i) EPOLLIN S3" "keep \<longrightarrow> reset_on (int i) (user_conns S3 i)"
    using writable_sends [OF 2(2) o2 2(5-7) _ _ 2(8)] 2(8) t by metis
  have r3: "reported e2 S2 = returns S3"
    using handle_client_event(2) [OF 2(2), of e2] 3(1) o2 2(10) t by (simp add: reported_def returns_def)
  have "session os [(e1, e2)] S C = returns (S3, C2)" using r1 r2 r3 by simp
  moreover have "answered i (hdr @ file) keep S C S3 C2"
    using w m 3 2(3,4,9) 1(3) o logged_effects(1) [OF 1(6)] by (auto simp: answered_def waits_on_def idle_def)
  ultimately show ?thesis by blast
qed

section \<open>Requests in a row\<close>

lemma wthen_assoc: "wthen (wthen m f) g = wthen m (\<lambda>x. wthen (f x) g)"
  by (auto simp: wthen_def split: option.split sum.split)

lemma session_Cons: "session os (e # es) S C = wthen (session os [e] S C) (\<lambda>(S, C). session os es S C)"
  by (cases e) (simp add: wthen_assoc split_def)

text \<open>A request as the client means it, with the events it causes.\<close>

record visit =
  v_in :: io_event
  v_out :: io_event
  v_target :: string
  v_headers :: "string list"
  v_file :: string

definition v_keep :: "visit \<Rightarrow> bool" where
  "v_keep v \<longleftrightarrow> (\<exists>l \<in> set (v_headers v). keeps_alive l)"

definition v_response :: "visit \<Rightarrow> string" where
  "v_response v = answer_header (v_file v) (v_keep v) @ v_file v"

definition visit_ok :: "('m, 'd) os \<Rightarrow> int \<Rightarrow> visit \<Rightarrow> bool" where
  "visit_ok os fd v \<longleftrightarrow> brings (v_in v) fd (get_request (v_target v) (v_headers v)) \<and>
     takes_all (v_out v) fd (answer_header (v_file v) (v_keep v)) (v_file v) \<and>
     plain_url (v_target v) \<and> (\<forall>l \<in> set (v_headers v). plain_header l) \<and> stands_for os (v_target v) (v_file v)"

lemma one_visit:
  assumes "waits_on i S C" and "visit_ok os (int i) v"
  shows "\<exists>S' C'. session os [(v_in v, v_out v)] S C = returns (S', C') \<and> answered i (v_response v) (v_keep v) S C S' C'"
proof -
  obtain c where c: "user_conns S i = init c" using assms(1) reset_init by (auto simp: waits_on_def)
  note v = assms(2) [unfolded visit_ok_def]
  have "process_ready os (received (get_request (v_target v) (v_headers v)) (user_conns S i))
      (answer_header (v_file v) (v_keep v)) (v_file v) (v_keep v)"
    unfolding c by (intro file_ready) (use v in \<open>simp_all add: v_keep_def\<close>)
  from one_request [OF assms(1) _ _ this] v show ?thesis by (simp add: v_response_def)
qed

lemma answered_trans:
  assumes "answered i r True S C S1 C1" and "answered i q k S1 C1 S' C'"
  shows "answered i (r @ q) k S C S' C'"
  using assms by (simp add: answered_def)

lemma visits_served:
  assumes "waits_on i S C" and "\<forall>v \<in> set vs. visit_ok os (int i) v" and "vs \<noteq> []" and "\<forall>v \<in> set (butlast vs). v_keep v"
  shows "\<exists>S' C'. session os (map (\<lambda>v. (v_in v, v_out v)) vs) S C = returns (S', C') \<and>
    answered i (concat (map v_response vs)) (v_keep (last vs)) S C S' C'"
  using assms
proof (induction vs arbitrary: S C)
  case (Cons v vs)
  have "visit_ok os (int i) v" using Cons.prems(2) by simp
  from one_visit [OF Cons.prems(1) this] obtain S1 C1 where
    1: "session os [(v_in v, v_out v)] S C = returns (S1, C1)" "answered i (v_response v) (v_keep v) S C S1 C1" by blast
  show ?case
  proof (cases vs)
    case Nil
    with 1 show ?thesis by auto
  next
    case (Cons u us)
    then have k: "v_keep v" and b: "\<forall>v \<in> set (butlast vs). v_keep v" using Cons.prems(4) by simp_all
    with 1(2) have "waits_on i S1 C1" by (simp add: answered_def)
    from Cons.IH [OF this _ _ b] Cons.prems(2) Cons obtain S' C' where
      2: "session os (map (\<lambda>v. (v_in v, v_out v)) vs) S1 C1 = returns (S', C')"
        "answered i (concat (map v_response vs)) (v_keep (last vs)) S1 C1 S' C'" by auto
    have "session os (map (\<lambda>v. (v_in v, v_out v)) (v # vs)) S C = returns (S', C')"
      using 1(1) 2(1) session_Cons [of os "(v_in v, v_out v)"] by simp
    moreover have "answered i (v_response v) True S C S1 C1" using 1(2) k by simp
    from answered_trans [OF this 2(2)] have "answered i (concat (map v_response (v # vs))) (v_keep (last (v # vs))) S C S' C'"
      using Cons by simp
    ultimately show ?thesis by blast
  qed
qed simp

section \<open>A new client\<close>

text \<open>The event of the listening socket for one client that nothing refuses.\<close>

definition accepts_one :: "io_event \<Rightarrow> nat \<Rightarrow> ('m, 'd) server \<Rightarrow> bool" where
  "accepts_one e i S \<longleftrightarrow> ev_fd e = listenfd S \<and> i < MAX_FD \<and> int i \<notin> registered (sys (ctx S)) \<and>
     m_user_count (sys (ctx S)) < int MAX_FD \<and>
     (\<exists>addr cur timer. ev_accept e = [Accepted (int i) addr cur timer] \<and> timer \<notin> dom (store (timer_lst S)))"

lemma init_conn_effect:
  assumes "init_conn fd addr h w = (h', w')" and "fd \<notin> registered w"
  shows "h' = init (h\<lparr>m_sockfd := fd, m_address := addr\<rparr>)" and "sent_bytes w' = sent_bytes w"
    and "epoll w' (m_epollfd w') fd = Some (EPOLLIN OR EPOLLET OR EPOLLONESHOT OR EPOLLRDHUP)"
proof -
  have "epoll w (m_epollfd w) fd = None" using assms(2) by (auto simp: registered_def)
  note e = this and d = init_conn_def addfd_def setnonblocking_def epoll_ctl_add_def
  show "h' = init (h\<lparr>m_sockfd := fd, m_address := addr\<rparr>)" "sent_bytes w' = sent_bytes w"
    "epoll w' (m_epollfd w') fd = Some (EPOLLIN OR EPOLLET OR EPOLLONESHOT OR EPOLLRDHUP)"
    using assms(1) e by (auto simp: d Let_def sent_bytes_def ac_simps)
qed

lemma accepted_waits:
  assumes "server_ok S" and "idle (pool S)" and "pool_good C" and "accepts_one e i S"
  shows "\<exists>S'. handle_event e S = Inr S' \<and> waits_on i S' C \<and> open_fds (timer_lst S') = insert (int i) (open_fds (timer_lst S)) \<and>
    sent_bytes (sys (ctx S')) = sent_bytes (sys (ctx S)) \<and> m_file_address (user_conns S' i) = m_file_address (user_conns S i)"
proof -
  obtain addr cur p where e: "ev_accept e = [Accepted (int i) addr cur p]" "p \<notin> dom (store (timer_lst S))"
    using assms(4) by (auto simp: accepts_one_def)
  note a = assms(4) [unfolded accepts_one_def]
  let ?H = "timer_lst S"
  let ?t = "\<lparr>expire = cur + 3 * TIMESLOT, cb_func = cb_close, user_data = i\<rparr>"
  have t: "timers_ok ?H" using assms(1) by (simp add: server_ok_def loop_ok_def)
  obtain H' where "add_timer p (?H\<lparr>store := (store ?H)(p \<mapsto> ?t)\<rparr>) = Inr H'"
    using add_timer_ok [of "?H\<lparr>store := (store ?H)(p \<mapsto> ?t)\<rparr>" p ?t] timers_ok_store [OF t e(2)] by auto
  note H' = this
  obtain h w where hw: "init_conn (int i) addr (user_conns S i) (sys (ctx S)) = (h, w)" by fastforce
  have n: "int i \<notin> registered (sys (ctx S))" using a by simp
  note hw' = init_conn_effect [OF hw n]
  obtain S1 where S1: "new_connection (int i) addr cur p S = Inr S1" and f: "pool S1 = pool S" "user_conns S1 i = h"
    "sys (ctx S1) = w"
    using a H' hw by (simp add: new_connection_def slot_def Let_def)
  have run: "handle_event e S = Inr (accept_failed 11 S1)" using a e(1) S1 by (simp add: handle_event_def)
  note ok = new_connection_ok [OF assms(1) n e(2) S1]
  have r: "reset_on (int i) (user_conns S1 i)"
    unfolding f(2) hw'(1) using reset_on_init [of "(user_conns S i)\<lparr>m_sockfd := int i, m_address := addr\<rparr>"] by simp
  have "server_ok (accept_failed 11 S1)" using ok(1) by (auto simp: accept_failed_def intro!: server_ok_on_sys)
  then have "waits_on i (accept_failed 11 S1) C"
    using ok(4) r f(1,3) hw'(3) assms(2,3) by (simp add: waits_on_def accept_failed_def armed_def on_sys_def)
  moreover have "m_file_address (user_conns S1 i) = m_file_address (user_conns S i)" unfolding f(2) hw'(1) by (simp add: init_def)
  ultimately show ?thesis using run ok(4) f(3) hw'(2) by (intro exI [of _ "accept_failed 11 S1"]) (auto simp: accept_failed_def sent_bytes_def emit_def on_sys_def)
qed

text \<open>What the server has done for a client when it has sent a response: the connection is closed again unless it is kept.\<close>

definition served :: "nat \<Rightarrow> string \<Rightarrow> bool \<Rightarrow> ('m, 'd) server \<Rightarrow> 'm connection_pool \<Rightarrow> ('m, 'd) server \<Rightarrow>
    'm connection_pool \<Rightarrow> bool" where
  "served i response keep S C S' C' \<longleftrightarrow> server_ok S' \<and> pool_good C' \<and> mset (connList C') = mset (connList C) \<and>
     sent_bytes (sys (ctx S')) = sent_bytes (sys (ctx S)) @ response \<and>
     open_fds (timer_lst S') = (if keep then insert (int i) (open_fds (timer_lst S)) else open_fds (timer_lst S))"

lemma answered_served:
  assumes "server_ok S" and "int i \<notin> registered (sys (ctx S))" and "open_fds (timer_lst S0) = insert (int i) (open_fds (timer_lst S))"
    and "sent_bytes (sys (ctx S0)) = sent_bytes (sys (ctx S))" and "answered i response keep S0 C S' C'"
  shows "served i response keep S C S' C'"
proof -
  have "int i \<notin> open_fds (timer_lst S)" using registered_open [OF assms(1)] assms(2) by blast
  with assms(3-5) show ?thesis by (auto simp: answered_def served_def)
qed

lemma client_answered:
  assumes "server_ok S" and "idle (pool S)" and "pool_good C" and "accepts_one e i S"
    and "brings e1 (int i) s" and "takes_all e2 (int i) hdr file"
    and "\<And>c. m_file_address c = m_file_address (user_conns S i) \<Longrightarrow> process_ready os (received s (init c)) hdr file keep"
  shows "\<exists>S0 S' C'. handle_event e S = Inr S0 \<and> session os [(e1, e2)] S0 C = returns (S', C') \<and>
    served i (hdr @ file) keep S C S' C'"
proof -
  obtain S0 where 0: "handle_event e S = Inr S0" "waits_on i S0 C" "open_fds (timer_lst S0) = insert (int i) (open_fds (timer_lst S))"
    "sent_bytes (sys (ctx S0)) = sent_bytes (sys (ctx S))" "m_file_address (user_conns S0 i) = m_file_address (user_conns S i)"
    using accepted_waits [OF assms(1-4)] by blast
  obtain c where c: "user_conns S0 i = init c" using 0(2) reset_init by (auto simp: waits_on_def)
  then have "m_file_address c = m_file_address (user_conns S i)" using 0(5) by (simp add: init_def)
  then have "process_ready os (received s (user_conns S0 i)) hdr file keep" unfolding c by (rule assms(7))
  from one_request [OF 0(2) assms(5,6) this] obtain S' C' where
    1: "session os [(e1, e2)] S0 C = returns (S', C')" "answered i (hdr @ file) keep S0 C S' C'" by blast
  have "int i \<notin> registered (sys (ctx S))" using assms(4) by (simp add: accepts_one_def)
  from answered_served [OF assms(1) this 0(3,4) 1(2)] 0(1) 1(1) show ?thesis by blast
qed

end
