(* ===== verification/WebBench.thy ===== *)
theory WebBench
  imports CString
begin

text \<open>
  The load generator \<open>PressureTest/webbench-1.5/webbench.c\<close>: its global variables, the options of the command
  line and \<open>build_request\<close>. An argument of \<open>main\<close> is a string without NUL; the buffers \<open>host\<close>, \<open>request\<close> and \<open>tmp\<close>
  are arrays of their declared sizes, and every access to them is checked.
\<close>

section \<open>Globals\<close>

definition MAXHOSTNAMELEN :: nat where "MAXHOSTNAMELEN = 64"
definition REQUEST_SIZE :: nat where "REQUEST_SIZE = 2048"

definition METHOD_GET :: int where "METHOD_GET = 0"
definition METHOD_HEAD :: int where "METHOD_HEAD = 1"
definition METHOD_OPTIONS :: int where "METHOD_OPTIONS = 2"
definition METHOD_TRACE :: int where "METHOD_TRACE = 3"

record webbench =
  timerexpired :: bool
  speed :: int
  failed :: int
  bytes :: int
  http10 :: int               \<comment> \<open>0: HTTP/0.9, 1: HTTP/1.0, 2: HTTP/1.1\<close>
  wb_method :: int
  clients :: int
  force :: int
  force_reload :: int
  proxyport :: int
  proxyhost :: "string option"
  benchtime :: int
  host :: buffer
  request :: buffer

definition webbench_start :: webbench where
  "webbench_start =
     \<lparr>timerexpired = False, speed = 0, failed = 0, bytes = 0, http10 = 1, wb_method = METHOD_GET, clients = 1,
      force = 0, force_reload = 0, proxyport = 80, proxyhost = None, benchtime = 30,
      host = replicate MAXHOSTNAMELEN NUL, request = replicate REQUEST_SIZE NUL\<rparr>"

section \<open>Options\<close>

text \<open>An option as it stands on the command line, with its argument. What \<open>getopt_long\<close> does with a long one is
  said by the table: it stores a value in a variable and returns 0, or it returns a character.\<close>

datatype given_option = Long string "string option" | Short char "string option"

datatype long_action = StoreForce int | StoreReload int | StoreMethod int | ReturnChar char

definition long_options :: "(string \<times> bool \<times> long_action) list" where
  "long_options =
     [(''force'', False, StoreForce 1), (''reload'', False, StoreReload 1), (''time'', True, ReturnChar CHR ''t''),
      (''help'', False, ReturnChar CHR ''?''), (''http09'', False, ReturnChar CHR ''9''),
      (''http10'', False, ReturnChar CHR ''1''), (''http11'', False, ReturnChar CHR ''2''),
      (''get'', False, StoreMethod METHOD_GET), (''head'', False, StoreMethod METHOD_HEAD),
      (''options'', False, StoreMethod METHOD_OPTIONS), (''trace'', False, StoreMethod METHOD_TRACE),
      (''version'', False, ReturnChar CHR ''V''), (''proxy'', True, ReturnChar CHR ''p''),
      (''clients'', True, ReturnChar CHR ''c'')]"

definition store_option :: "long_action \<Rightarrow> webbench \<Rightarrow> char option \<times> webbench" where
  "store_option a B =
     (case a of
        StoreForce v \<Rightarrow> (None, B\<lparr>force := v\<rparr>)
      | StoreReload v \<Rightarrow> (None, B\<lparr>force_reload := v\<rparr>)
      | StoreMethod v \<Rightarrow> (None, B\<lparr>wb_method := v\<rparr>)
      | ReturnChar c \<Rightarrow> (Some c, B))"

text \<open>One call of \<open>getopt_long\<close>: the character it returns (\<open>None\<close> is 0), \<open>optarg\<close> and the variables. An option it does
  not know, one without the argument it needs or a long one with an argument it does not take is a question mark.\<close>

definition getopt_long :: "given_option \<Rightarrow> webbench \<Rightarrow> char option \<times> string option \<times> webbench" where
  "getopt_long opt B =
     (case opt of
        Long name arg \<Rightarrow>
          (case map_of long_options name of
             None \<Rightarrow> (Some CHR ''?'', None, B)
           | Some (needs, action) \<Rightarrow>
               if needs \<noteq> (arg \<noteq> None) then (Some CHR ''?'', None, B)
               else let (c, B) = store_option action B in (c, arg, B))
      | Short c arg \<Rightarrow>
          if c \<in> set ''912Vfr?h'' then (Some c, None, B)
          else if c \<in> set ''tpc'' \<and> arg \<noteq> None then (Some c, arg, B)
          else (Some CHR ''?'', None, B))"

text \<open>The string \<open>optarg\<close> points to.\<close>

definition c_string :: "string \<Rightarrow> buffer" where
  "c_string s = s @ [NUL]"

definition proxy_option :: "string \<Rightarrow> webbench \<Rightarrow> (int option \<times> webbench) res" where
  "proxy_option optarg B =
     andThen (strrchr (c_string optarg) 0 CHR '':'') (\<lambda>tmp.
       case tmp of
         None \<Rightarrow> Inr (None, B\<lparr>proxyhost := Some optarg\<rparr>)
       | Some t \<Rightarrow>
           if t = 0 \<or> t = length optarg - 1 then Inr (Some 2, B\<lparr>proxyhost := Some optarg\<rparr>)
           else andThen (atoi (c_string optarg) (t + 1)) (\<lambda>port.
             Inr (None, B\<lparr>proxyhost := Some (take t optarg), proxyport := port\<rparr>)))"

text \<open>The body of the option loop: \<open>Some n\<close> when \<open>main\<close> returns \<open>n\<close> there. Only the options that take an argument
  read \<open>optarg\<close>.\<close>

definition option_step :: "given_option \<Rightarrow> webbench \<Rightarrow> (int option \<times> webbench) res" where
  "option_step opt B =
     (let (c, optarg, B) = getopt_long opt B in
      case c of
        None \<Rightarrow> Inr (None, B)
      | Some c \<Rightarrow>
          if c = CHR ''f'' then Inr (None, B\<lparr>force := 1\<rparr>)
          else if c = CHR ''r'' then Inr (None, B\<lparr>force_reload := 1\<rparr>)
          else if c = CHR ''9'' then Inr (None, B\<lparr>http10 := 0\<rparr>)
          else if c = CHR ''1'' then Inr (None, B\<lparr>http10 := 1\<rparr>)
          else if c = CHR ''2'' then Inr (None, B\<lparr>http10 := 2\<rparr>)
          else if c = CHR ''V'' then Inl (ProcessExit 0)
          else if c = CHR ''t'' then
            andThen (deref optarg) (\<lambda>s. andThen (atoi (c_string s) 0) (\<lambda>n. Inr (None, B\<lparr>benchtime := n\<rparr>)))
          else if c = CHR ''p'' then andThen (deref optarg) (\<lambda>s. proxy_option s B)
          else if c = CHR ''c'' then
            andThen (deref optarg) (\<lambda>s. andThen (atoi (c_string s) 0) (\<lambda>n. Inr (None, B\<lparr>clients := n\<rparr>)))
          else Inr (Some 2, B))"

fun read_options :: "given_option list \<Rightarrow> webbench \<Rightarrow> (int option \<times> webbench) res" where
  "read_options [] B = Inr (None, B)"
| "read_options (opt # opts) B =
     andThen (option_step opt B) (\<lambda>(ret, B).
       case ret of Some n \<Rightarrow> Inr (Some n, B) | None \<Rightarrow> read_options opts B)"

section \<open>The request\<close>

text \<open>\<open>strstr\<close> with a string, and \<open>strcspn\<close>.\<close>

fun find_sub :: "string \<Rightarrow> string \<Rightarrow> nat option" where
  "find_sub pat s =
     (if take (length pat) s = pat then Some 0
      else case s of [] \<Rightarrow> None | c # s \<Rightarrow> map_option Suc (find_sub pat s))"

declare find_sub.simps [simp del]

definition strstr :: "buffer \<Rightarrow> nat \<Rightarrow> string \<Rightarrow> nat option res" where
  "strstr buf p pat = andThen (cstr buf p) (\<lambda>s. Inr (map_option (\<lambda>i. p + i) (find_sub pat s)))"

definition strcspn :: "buffer \<Rightarrow> nat \<Rightarrow> string \<Rightarrow> nat res" where
  "strcspn buf p reject = andThen (cstr buf p) (\<lambda>s. Inr (length (takeWhile (\<lambda>c. c \<notin> set reject) s)))"

definition raise_version :: "webbench \<Rightarrow> webbench" where
  "raise_version B =
     (let B = B\<lparr>http10 := (if force_reload B \<noteq> 0 \<and> proxyhost B \<noteq> None \<and> http10 B < 1 then 1 else http10 B)\<rparr>;
          B = B\<lparr>http10 := (if wb_method B = METHOD_HEAD \<and> http10 B < 1 then 1 else http10 B)\<rparr>;
          B = B\<lparr>http10 := (if wb_method B = METHOD_OPTIONS \<and> http10 B < 2 then 2 else http10 B)\<rparr>
      in B\<lparr>http10 := (if wb_method B = METHOD_TRACE \<and> http10 B < 2 then 2 else http10 B)\<rparr>)"

definition method_name :: "int \<Rightarrow> string" where
  "method_name m =
     (if m = METHOD_HEAD then ''HEAD'' else if m = METHOD_OPTIONS then ''OPTIONS''
      else if m = METHOD_TRACE then ''TRACE'' else ''GET'')"

definition append_request_text :: "string \<Rightarrow> webbench \<Rightarrow> webbench res" where
  "append_request_text s B = andThen (strcat (request B) 0 s) (\<lambda>b. Inr (B\<lparr>request := b\<rparr>))"

text \<open>The host and the port in front of the first slash, from offset \<open>i\<close> of the URL.\<close>

definition host_and_port :: "buffer \<Rightarrow> nat \<Rightarrow> webbench \<Rightarrow> webbench res" where
  "host_and_port url i B =
     andThen (cstr url i) (\<lambda>rest.
     andThen (strchr url i CHR '':'') (\<lambda>colon.
     andThen (strchr url i CHR ''/'') (\<lambda>slash.
       case (colon, slash) of
         (Some c, Some d) \<Rightarrow>
           if c < d then
             andThen (strncpy (host B) 0 rest (c - i)) (\<lambda>h.
             andThen (cstr url (c + 1)) (\<lambda>port_text.
             andThen (strncpy (replicate 10 NUL) 0 port_text (d - c - 1)) (\<lambda>tmp.
             andThen (atoi tmp 0) (\<lambda>port.
               Inr (B\<lparr>host := h, proxyport := (if port = 0 then 80 else port)\<rparr>)))))
           else andThen (strcspn url i ''/'') (\<lambda>n.
             andThen (strncpy (host B) 0 rest n) (\<lambda>h. Inr (B\<lparr>host := h\<rparr>)))
       | _ \<Rightarrow> andThen (strcspn url i ''/'') (\<lambda>n.
           andThen (strncpy (host B) 0 rest n) (\<lambda>h. Inr (B\<lparr>host := h\<rparr>))))))"

text \<open>The target: the path of the URL, or all of it for a proxy. The source appends the path at \<open>request + strlen(request)\<close>.\<close>

definition append_target :: "buffer \<Rightarrow> nat \<Rightarrow> webbench \<Rightarrow> webbench res" where
  "append_target url i B =
     (case proxyhost B of
        None \<Rightarrow>
          andThen (host_and_port url i B) (\<lambda>B.
          andThen (strcspn url i ''/'') (\<lambda>n.
          andThen (cstr url (i + n)) (\<lambda>path.
          andThen (strlen (request B) 0) (\<lambda>p.
          andThen (strcat (request B) p path) (\<lambda>b. Inr (B\<lparr>request := b\<rparr>))))))
      | Some _ \<Rightarrow> andThen (cstr url 0) (\<lambda>s. append_request_text s B))"

text \<open>The pieces \<open>strcat\<close> appends behind the target.\<close>

definition version_text :: "int \<Rightarrow> string" where
  "version_text v = (if v = 1 then '' HTTP/1.0'' else if v = 2 then '' HTTP/1.1'' else [])"

definition user_agent_line :: string where "user_agent_line = ''User-Agent: WebBench 1.5'' @ [CR, LF]"
definition pragma_line :: string where "pragma_line = ''Pragma: no-cache'' @ [CR, LF]"
definition close_line :: string where "close_line = ''Connection: close'' @ [CR, LF]"
definition host_prefix :: string where "host_prefix = ''Host: ''"

definition append_lines :: "webbench \<Rightarrow> webbench res" where
  "append_lines B =
     andThen (if http10 B = 1 \<or> http10 B = 2 then append_request_text (version_text (http10 B)) B else Inr B) (\<lambda>B.
     andThen (append_request_text [CR, LF] B) (\<lambda>B.
     andThen (if http10 B > 0 then append_request_text user_agent_line B else Inr B) (\<lambda>B.
     andThen (if proxyhost B = None \<and> http10 B > 0 then
                andThen (append_request_text host_prefix B) (\<lambda>B.
                andThen (cstr (host B) 0) (\<lambda>h.
                andThen (append_request_text h B) (\<lambda>B. append_request_text [CR, LF] B)))
              else Inr B) (\<lambda>B.
     andThen (if force_reload B \<noteq> 0 \<and> proxyhost B \<noteq> None
              then append_request_text pragma_line B else Inr B) (\<lambda>B.
     andThen (if http10 B > 1 then append_request_text close_line B else Inr B) (\<lambda>B.
       if http10 B > 0 then append_request_text [CR, LF] B else Inr B))))))"

text \<open>The four tests of the URL: \<open>exit(2)\<close>, or the offset of the host.\<close>

definition check_url :: "buffer \<Rightarrow> webbench \<Rightarrow> nat res" where
  "check_url url B =
     andThen (strstr url 0 ''://'') (\<lambda>sep.
       case sep of
         None \<Rightarrow> Inl (ProcessExit 2)
       | Some d \<Rightarrow>
           andThen (strlen url 0) (\<lambda>n.
           if n > 1500 then Inl (ProcessExit 2)
           else andThen (strncasecmp0 url 0 ''http://'' 7) (\<lambda>http.
             if proxyhost B = None \<and> \<not> http then Inl (ProcessExit 2)
             else andThen (strchr url (d + 3) CHR ''/'') (\<lambda>slash.
               if slash = None then Inl (ProcessExit 2) else Inr (d + 3)))))"

definition build_request :: "string \<Rightarrow> webbench \<Rightarrow> webbench res" where
  "build_request arg B =
     (let url = c_string arg;
          B = B\<lparr>host := replicate MAXHOSTNAMELEN NUL, request := replicate REQUEST_SIZE NUL\<rparr>;
          B = raise_version B
      in andThen (strcpy (request B) 0 (method_name (wb_method B))) (\<lambda>b.
         andThen (append_request_text '' '' (B\<lparr>request := b\<rparr>)) (\<lambda>B.
         andThen (check_url url B) (\<lambda>i.
         andThen (append_target url i B) append_lines))))"

end
