(* ===== verification/WebBenchRun.thy ===== *)
theory WebBenchRun
  imports WebBench
begin

text \<open>
  The rest of \<open>webbench.c\<close>: \<open>Socket\<close> of \<open>socket.c\<close>, \<open>benchcore\<close>, \<open>bench\<close> and \<open>main\<close>. A process runs on the list of results
  of its calls into the system and the library; each result comes with whether \<open>SIGALRM\<close> has been delivered by the
  time the call returns. An operation is \<open>None\<close> when it waits in a call that has no result yet.
\<close>

section \<open>A process\<close>

record bench_proc =
  wb :: webbench
  todo :: "(int \<times> bool) list"   \<comment> \<open>the results to come\<close>
  open_socks :: "int list"
  connects :: "(string \<times> int) list"   \<comment> \<open>the addresses and ports \<open>connect\<close> was called for\<close>
  wrote :: "string list"         \<comment> \<open>what the calls of \<open>write\<close> have sent\<close>
  piped :: string                \<comment> \<open>what the process has written to \<open>mypipe\<close>\<close>
  printed :: string              \<comment> \<open>standard output\<close>

text \<open>A call. \<open>alarm_handler\<close> stores into \<open>timerexpired\<close>.\<close>

definition alarm_handler :: "webbench \<Rightarrow> webbench" where
  "alarm_handler B = B\<lparr>timerexpired := True\<rparr>"

definition syscall :: "bench_proc \<Rightarrow> (int \<times> bench_proc) res option" where
  "syscall P =
     (case todo P of
        [] \<Rightarrow> None
      | (r, alarmed) # rest \<Rightarrow> returns (r, P\<lparr>todo := rest, wb := (if alarmed then alarm_handler (wb P) else wb P)\<rparr>))"

lemma syscall_shrinks: "syscall P = Some (Inr (r, P')) \<Longrightarrow> length (todo P') < length (todo P)"
  by (auto simp: syscall_def split: list.splits)

section \<open>Connecting\<close>

text \<open>\<open>inet_addr\<close> (\<open>INADDR_NONE\<close> is \<open>-1\<close>), \<open>gethostbyname\<close> (0 is null), \<open>socket\<close> and \<open>connect\<close>.\<close>

definition Socket :: "string \<Rightarrow> int \<Rightarrow> bench_proc \<Rightarrow> (int \<times> bench_proc) res option" where
  "Socket name port P =
     wthen (syscall P) (\<lambda>(inaddr, P).
     wthen (if inaddr \<noteq> -1 then returns (1, P) else syscall P) (\<lambda>(hp, P).
       if hp = 0 then returns (-1, P)
       else wthen (syscall P) (\<lambda>(sock, P).
         if sock < 0 then returns (sock, P)
         else wthen (syscall (P\<lparr>open_socks := sock # open_socks P, connects := connects P @ [(name, port)]\<rparr>)) (\<lambda>(c, P).
           if c < 0 then returns (-1, P) else returns (sock, P)))))"

definition close_socket :: "int \<Rightarrow> bench_proc \<Rightarrow> (int \<times> bench_proc) res option" where
  "close_socket s P =
     wthen (syscall P) (\<lambda>(r, P). returns (r, P\<lparr>open_socks := remove1 s (open_socks P)\<rparr>))"

section \<open>benchcore\<close>

definition count_failed :: "bench_proc \<Rightarrow> bench_proc res option" where
  "count_failed P =
     Some (andThen (add_int (failed (wb P)) 1) (\<lambda>n. Inr (P\<lparr>wb := (wb P)\<lparr>failed := n\<rparr>\<rparr>)))"

definition count_speed :: "bench_proc \<Rightarrow> bench_proc res option" where
  "count_speed P =
     Some (andThen (add_int (speed (wb P)) 1) (\<lambda>n. Inr (P\<lparr>wb := (wb P)\<lparr>speed := n\<rparr>\<rparr>)))"

definition count_bytes :: "int \<Rightarrow> bench_proc \<Rightarrow> bench_proc res option" where
  "count_bytes i P =
     Some (andThen (add_int (bytes (wb P)) i) (\<lambda>n. Inr (P\<lparr>wb := (wb P)\<lparr>bytes := n\<rparr>\<rparr>)))"

definition write_request :: "string \<Rightarrow> bench_proc \<Rightarrow> (int \<times> bench_proc) res option" where
  "write_request req P =
     wthen (syscall P) (\<lambda>(n, P). returns (n, P\<lparr>wrote := wrote P @ [take (nat n) req]\<rparr>))"

definition give_up :: "int \<Rightarrow> bench_proc \<Rightarrow> bench_proc res option" where
  "give_up s P = wthen (count_failed P) (\<lambda>P. wthen (close_socket s P) (\<lambda>(_, P). returns P))"

text \<open>The loop that reads the answer: whether the connection is still good.\<close>

function read_answer :: "bench_proc \<Rightarrow> (bool \<times> bench_proc) res option" where
  "read_answer P =
     (if timerexpired (wb P) then returns (True, P)
      else wthen (syscall P) (\<lambda>(i, P').
        if i < 0 then returns (False, P')
        else if i = 0 then returns (True, P')
        else wthen (count_bytes i P') read_answer))"
  by pat_completeness auto
termination
  by (relation "measure (\<lambda>P. length (todo P))") (auto simp: count_bytes_def add_int_def dest!: syscall_shrinks split: if_splits)

declare read_answer.simps [simp del]

definition finish :: "int \<Rightarrow> bench_proc \<Rightarrow> bench_proc res option" where
  "finish s P = wthen (close_socket s P) (\<lambda>(r, P). if r \<noteq> 0 then count_failed P else count_speed P)"

text \<open>The body of the outer loop behind the test of the timer.\<close>

definition attempt :: "string \<Rightarrow> int \<Rightarrow> string \<Rightarrow> bench_proc \<Rightarrow> bench_proc res option" where
  "attempt name port req P =
     wthen (Socket name port P) (\<lambda>(s, P).
       if s < 0 then count_failed P
       else wthen (write_request req P) (\<lambda>(n, P).
         if n \<noteq> int (length req) then give_up s P
         else wthen (if http10 (wb P) = 0 then syscall P else returns (0, P)) (\<lambda>(r, P).
           if r \<noteq> 0 then give_up s P
           else if force (wb P) = 0 then
             wthen (read_answer P) (\<lambda>(good, P). if good then finish s P else give_up s P)
           else finish s P)))"

lemma count_todo:
  "count_failed P = Some (Inr P') \<Longrightarrow> todo P' = todo P" "count_speed P = Some (Inr P') \<Longrightarrow> todo P' = todo P"
  "count_bytes i P = Some (Inr P') \<Longrightarrow> todo P' = todo P"
  by (auto simp: count_failed_def count_speed_def count_bytes_def add_int_def split: if_splits)

lemma close_shrinks: "close_socket s P = Some (Inr (r, P')) \<Longrightarrow> length (todo P') < length (todo P)"
  by (auto simp: close_socket_def wthen_Inr_iff dest!: syscall_shrinks)

lemma give_up_shrinks: "give_up s P = Some (Inr P') \<Longrightarrow> length (todo P') < length (todo P)"
  by (auto simp: give_up_def wthen_Inr_iff dest!: count_todo close_shrinks)

lemma finish_shrinks: "finish s P = Some (Inr P') \<Longrightarrow> length (todo P') < length (todo P)"
  by (auto simp: finish_def wthen_Inr_iff dest!: count_todo close_shrinks split: if_splits)

lemma Socket_shrinks: "Socket name port P = Some (Inr (s, P')) \<Longrightarrow> length (todo P') < length (todo P)"
  by (fastforce simp: Socket_def wthen_Inr_iff dest!: syscall_shrinks split: if_splits)

lemma read_answer_shrinks: "read_answer P = Some (Inr (b, P')) \<Longrightarrow> length (todo P') \<le> length (todo P)"
proof (induction P rule: read_answer.induct)
  case (1 P)
  show ?case
  proof (cases "timerexpired (wb P)")
    case True
    with "1.prems" show ?thesis by (simp add: read_answer.simps [of P])
  next
    case False
    with "1.prems" obtain i Q where s: "syscall P = Some (Inr (i, Q))" by (auto simp: read_answer.simps [of P] wthen_Inr_iff)
    show ?thesis
    proof (cases "i \<le> 0")
      case True
      with "1.prems" False s show ?thesis
        by (auto simp: read_answer.simps [of P] dest!: syscall_shrinks split: if_splits)
    next
      case pos: False
      with "1.prems" False s obtain R where R: "count_bytes i Q = Some (Inr R)" "read_answer R = Some (Inr (b, P'))"
        by (auto simp: read_answer.simps [of P] wthen_Inr_iff)
      with "1.IH" [OF False s refl _ _ R(1)] pos have "length (todo P') \<le> length (todo R)" by simp
      with count_todo(3) [OF R(1)] syscall_shrinks [OF s] show ?thesis by simp
    qed
  qed
qed

lemma attempt_shrinks: "attempt name port req P = Some (Inr P') \<Longrightarrow> length (todo P') < length (todo P)"
proof -
  assume "attempt name port req P = Some (Inr P')"
  then obtain s Q where s: "Socket name port P = Some (Inr (s, Q))" by (auto simp: attempt_def wthen_Inr_iff)
  have w: "length (todo R) < length (todo A)" if "write_request req A = Some (Inr (n, R))" for A R n
    using that by (auto simp: write_request_def wthen_Inr_iff dest!: syscall_shrinks)
  from \<open>attempt name port req P = Some (Inr P')\<close> s show ?thesis
    using Socket_shrinks [OF s]
    by (auto simp: attempt_def wthen_Inr_iff split: if_splits
        dest!: w count_todo syscall_shrinks give_up_shrinks finish_shrinks read_answer_shrinks)
qed

text \<open>The outer loop. The signal has made the last call fail, the code assumes.\<close>

definition correct_failed :: "bench_proc \<Rightarrow> bench_proc" where
  "correct_failed P =
     (if failed (wb P) > 0 then P\<lparr>wb := (wb P)\<lparr>failed := failed (wb P) - 1\<rparr>\<rparr> else P)"

function bench_loop :: "string \<Rightarrow> int \<Rightarrow> string \<Rightarrow> bench_proc \<Rightarrow> bench_proc res option" where
  "bench_loop name port req P =
     (if timerexpired (wb P) then returns (correct_failed P)
      else wthen (attempt name port req P) (bench_loop name port req))"
  by pat_completeness auto
termination
  by (relation "measure (\<lambda>(_, _, _, P). length (todo P))") (auto dest: attempt_shrinks)

declare bench_loop.simps [simp del]

text \<open>\<open>sigaction\<close>, and \<open>alarm\<close>, which cannot fail.\<close>

definition benchcore :: "string \<Rightarrow> int \<Rightarrow> string \<Rightarrow> bench_proc \<Rightarrow> bench_proc res option" where
  "benchcore name port req P =
     wthen (syscall P) (\<lambda>(r, P).
       if r \<noteq> 0 then Some (Inl (ProcessExit 3)) else bench_loop name port req P)"

section \<open>bench\<close>

text \<open>What a child writes to the pipe, and \<open>fscanf\<close> with \<open>%d\<close> on what is in the pipe. The parent never closes its own
  descriptor for writing, so there is no end of file: \<open>fscanf\<close> waits (\<open>None\<close>) until a character tells it where a number
  ends. \<open>Inr None\<close> is a failed conversion.\<close>

definition report :: "webbench \<Rightarrow> string" where
  "report B = show_int (speed B) @ '' '' @ show_int (failed B) @ '' '' @ show_int (bytes B) @ [LF]"

definition scan_digits :: "int \<Rightarrow> string \<Rightarrow> (int \<times> string) option res option" where
  "scan_digits sign s =
     (let ds = takeWhile is_digit s; rest = dropWhile is_digit s in
      if rest = [] then None
      else if ds = [] then returns None
      else Some (let v = sign * digits_value ds in if in_int v then Inr (Some (v, rest)) else Inl BadConversion))"

definition scan_int :: "string \<Rightarrow> (int \<times> string) option res option" where
  "scan_int s =
     (case dropWhile is_space s of
        [] \<Rightarrow> None
      | c # r \<Rightarrow> if c = CHR ''-'' then scan_digits (-1) r
                else if c = CHR ''+'' then scan_digits 1 r else scan_digits 1 (c # r))"

text \<open>\<open>fscanf(f, "%d %d %d", &i, &j, &k)\<close>: the number of conversions, the variables (a conversion that fails leaves its
  variable alone; \<open>k\<close> is indeterminate until the first report), and what is left.\<close>

definition scan_three :: "string \<Rightarrow> int \<times> int \<times> int cell \<Rightarrow> (nat \<times> (int \<times> int \<times> int cell) \<times> string) res option" where
  "scan_three s vars =
     (case vars of (i, j, k) \<Rightarrow>
       wthen (scan_int s) (\<lambda>r. case r of None \<Rightarrow> returns (0, (i, j, k), s) | Some (i, s) \<Rightarrow>
       wthen (scan_int s) (\<lambda>r. case r of None \<Rightarrow> returns (1, (i, j, k), s) | Some (j, s) \<Rightarrow>
       wthen (scan_int s) (\<lambda>r. case r of None \<Rightarrow> returns (2, (i, j, k), s) | Some (k, s) \<Rightarrow>
         returns (3, (i, j, Set k), s)))))"

text \<open>The parent's loop over the reports; it returns \<open>i\<close>.\<close>

definition add_report :: "int \<times> int \<times> int cell \<Rightarrow> webbench \<Rightarrow> webbench res" where
  "add_report vars B =
     (case vars of (i, j, k) \<Rightarrow>
       andThen (add_int (speed B) i) (\<lambda>sp.
       andThen (add_int (failed B) j) (\<lambda>fl.
       andThen (fetch k) (\<lambda>k.
       andThen (add_int (bytes B) k) (\<lambda>bt.
       andThen (add_int (clients B) (-1)) (\<lambda>n.
         Inr (B\<lparr>speed := sp, failed := fl, bytes := bt, clients := n\<rparr>)))))))"

lemma scan_int_shrinks: "scan_int s = Some (Inr (Some (v, r))) \<Longrightarrow> length r < length s"
proof -
  assume a: "scan_int s = Some (Inr (Some (v, r)))"
  have d: "length r < length t" if "scan_digits g t = Some (Inr (Some (v, r)))" for g t
  proof -
    from that have "r = dropWhile is_digit t" "takeWhile is_digit t \<noteq> []"
      by (auto simp: scan_digits_def Let_def returns_def split: if_splits)
    then show ?thesis by (metis takeWhile_dropWhile_id length_append length_greater_0_conv less_add_same_cancel2)
  qed
  obtain c t where t: "dropWhile is_space s = c # t" using a by (auto simp: scan_int_def split: list.splits)
  with a d [of _ t] d [of _ "c # t"] have "length r < length (c # t)"
    by (auto simp: scan_int_def split: if_splits) fastforce+
  with length_dropWhile_le [of is_space s] t show ?thesis by simp
qed

lemma scan_three_shrinks:
  "scan_three s vars = Some (Inr (n, vars', r)) \<Longrightarrow> n \<noteq> 0 \<Longrightarrow> length r < length s"
  by (cases vars) (fastforce simp: scan_three_def wthen_Inr_iff dest!: scan_int_shrinks split: option.splits)

function parent_loop :: "int \<times> int \<times> int cell \<Rightarrow> webbench \<Rightarrow> string \<Rightarrow> (int \<times> webbench) res option" where
  "parent_loop vars B s =
     wthen (scan_three s vars) (\<lambda>(n, vars', rest).
       if n < 2 then returns (fst vars', B)
       else wthen (Some (add_report vars' B)) (\<lambda>B.
         if clients B = 0 then returns (fst vars', B) else parent_loop vars' B rest))"
  by pat_completeness auto
termination
  by (relation "measure (\<lambda>(_, _, s). length s)") (auto dest: scan_three_shrinks)

declare parent_loop.simps [simp del]

text \<open>The loop that forks: the counter and the last process id. It stops in a child and on an error.\<close>

function fork_loop :: "int \<Rightarrow> int \<Rightarrow> bench_proc \<Rightarrow> (int \<times> int \<times> bench_proc) res option" where
  "fork_loop i pid P =
     (if i < clients (wb P)
      then wthen (syscall P) (\<lambda>(pid, P). if pid \<le> 0 then returns (i, pid, P) else fork_loop (i + 1) pid P)
      else returns (i, pid, P))"
  by pat_completeness auto
termination
  by (relation "measure (\<lambda>(_, _, P). length (todo P))") (auto dest: syscall_shrinks)

declare fork_loop.simps [simp del]

text \<open>The strings \<open>bench\<close> hands to \<open>Socket\<close> and \<open>benchcore\<close>.\<close>

definition target_name :: "webbench \<Rightarrow> string res" where
  "target_name B = (case proxyhost B of None \<Rightarrow> cstr (host B) 0 | Some h \<Rightarrow> Inr h)"

definition request_string :: "webbench \<Rightarrow> string res" where
  "request_string B = cstr (request B) 0"

text \<open>The child: it works, and reports unless \<open>fdopen\<close> fails.\<close>

definition run_bench_child :: "bench_proc \<Rightarrow> (int \<times> bench_proc) res option" where
  "run_bench_child P =
     wthen (Some (target_name (wb P))) (\<lambda>name.
     wthen (Some (request_string (wb P))) (\<lambda>req.
     wthen (benchcore name (proxyport (wb P)) req P) (\<lambda>P.
     wthen (syscall P) (\<lambda>(f, P).
       if f = 0 then returns (3, P) else returns (0, P\<lparr>piped := piped P @ report (wb P)\<rparr>)))))"

text \<open>The parent, on the text the children write. The rates it prints at the end are floating point and left out.\<close>

definition run_bench_parent :: "string \<Rightarrow> int \<Rightarrow> bench_proc \<Rightarrow> (int \<times> bench_proc) res option" where
  "run_bench_parent reports i P =
     wthen (syscall P) (\<lambda>(f, P).
       if f = 0 then returns (3, P)
       else wthen (parent_loop (i, 0, Unset) ((wb P)\<lparr>speed := 0, failed := 0, bytes := 0\<rparr>) reports) (\<lambda>(i, B).
         returns (i, P\<lparr>wb := B\<rparr>)))"

definition bench :: "string \<Rightarrow> bench_proc \<Rightarrow> (int \<times> bench_proc) res option" where
  "bench reports P =
     wthen (Some (target_name (wb P))) (\<lambda>name.
     wthen (Socket name (proxyport (wb P)) P) (\<lambda>(i, P).
       if i < 0 then returns (1, P)
       else wthen (close_socket i P) (\<lambda>(_, P).
       wthen (syscall P) (\<lambda>(r, P).
         if r \<noteq> 0 then returns (3, P)
         else wthen (fork_loop 0 0 P) (\<lambda>(i, pid, P).
           if pid < 0 then returns (3, P)
           else if pid = 0 then run_bench_child P
           else run_bench_parent reports i P)))))"

section \<open>main\<close>

definition banner :: "string \<Rightarrow> webbench \<Rightarrow> string" where
  "banner url B =
     [LF] @ ''Benchmarking: '' @ method_name (wb_method B) @ '' '' @ url @
     (if http10 B = 0 then '' (using HTTP/0.9)'' else if http10 B = 2 then '' (using HTTP/1.1)'' else []) @ [LF] @
     (if clients B = 1 then ''1 client'' else show_int (clients B) @ '' clients'') @
     '', running '' @ show_int (benchtime B) @ '' sec'' @
     (if force B \<noteq> 0 then '', early socket close'' else []) @
     (case proxyhost B of None \<Rightarrow> [] | Some h \<Rightarrow> '', via proxy server '' @ h @ '':'' @ show_int (proxyport B)) @
     (if force_reload B \<noteq> 0 then '', forcing reload'' else []) @ ''.'' @ [LF]"

text \<open>\<open>main\<close> with the options in order and the arguments that are none (\<open>argv[optind]\<close> on). What it prints for a wrong
  use is left out.\<close>

definition webbench_main :: "given_option list \<Rightarrow> string list \<Rightarrow> string \<Rightarrow> bench_proc \<Rightarrow> (int \<times> bench_proc) res option" where
  "webbench_main opts args reports P =
     (if opts = [] \<and> args = [] then returns (2, P)
      else wthen (Some (read_options opts (wb P))) (\<lambda>(ret, B).
        case ret of
          Some n \<Rightarrow> returns (n, P\<lparr>wb := B\<rparr>)
        | None \<Rightarrow>
            (case args of
               [] \<Rightarrow> returns (2, P\<lparr>wb := B\<rparr>)
             | url # _ \<Rightarrow>
                 let B = B\<lparr>clients := (if clients B = 0 then 1 else clients B),
                           benchtime := (if benchtime B = 0 then 60 else benchtime B)\<rparr>
                 in wthen (Some (build_request url B)) (\<lambda>B.
                      bench reports (P\<lparr>wb := B, printed := printed P @ banner url B\<rparr>)))))"

end
