(* ===== verification/WebRequest.thy ===== *)
theory WebRequest
  imports WebBench
begin

text \<open>
  What \<open>build_request\<close> of \<open>webbench.c\<close> puts into \<open>request\<close>, \<open>host\<close> and \<open>proxyport\<close>, for every URL it accepts without a proxy,
  and when it leaves its arrays.
\<close>

section \<open>Zeroed arrays\<close>

text \<open>A buffer that holds a string and zeros behind it.\<close>

definition padded :: "nat \<Rightarrow> string \<Rightarrow> buffer" where
  "padded n s = s @ replicate (n - length s) NUL"

lemma padded_Nil: "replicate n NUL = padded n []"
  by (simp add: padded_def)

lemma length_padded: "length s \<le> n \<Longrightarrow> length (padded n s) = n"
  by (simp add: padded_def)

lemma cstr_zeroed:
  assumes "NUL \<notin> set s" and "length s < n"
  shows "cstr (padded n s) 0 = Inr s" and "cstr (padded n s) (length s) = Inr []"
proof -
  obtain k where "n - length s = Suc k" using assms(2) by (metis Suc_diff_Suc)
  then have p: "padded n s = s @ NUL # replicate k NUL" by (simp add: padded_def)
  show "cstr (padded n s) 0 = Inr s" "cstr (padded n s) (length s) = Inr []"
    using assms(1) by (simp_all add: p cstr_def takeWhile_neq_append)
qed

lemma put_padded:
  assumes "length s + length t < n"
  shows "put (padded n s) (length s) (t @ [NUL]) = Inr (padded n (s @ t))"
proof -
  have "Suc (length s + length t + (n - Suc (length s + length t))) = n" using assms by simp
  then have "replicate (n - length s) NUL = replicate (length t) NUL @ NUL # replicate (n - Suc (length s + length t)) NUL"
    by (metis add_diff_cancel_left' add_Suc_right group_cancel.add1 replicate_Suc replicate_add)
  moreover have "replicate (n - (length s + length t)) NUL = NUL # replicate (n - Suc (length s + length t)) NUL"
    using assms by (metis Suc_diff_Suc replicate_Suc)
  ultimately show ?thesis using assms by (simp add: put_def padded_def)
qed

lemma strcat_zeroed:
  assumes "NUL \<notin> set s" and "length s + length t < n"
  shows "strcat (padded n s) 0 t = Inr (padded n (s @ t))" and "strcat (padded n s) (length s) t = Inr (padded n (s @ t))"
proof -
  have "length s < n" using assms(2) by simp
  from cstr_zeroed [OF assms(1) this] put_padded [OF assms(2)]
  show "strcat (padded n s) 0 t = Inr (padded n (s @ t))" "strcat (padded n s) (length s) t = Inr (padded n (s @ t))"
    by (simp_all add: strcat_def strlen_def)
qed

lemma append_padded:
  assumes "request B = padded REQUEST_SIZE s" and "NUL \<notin> set s" and "length s + length t < REQUEST_SIZE"
  shows "append_request_text t B = Inr (B\<lparr>request := padded REQUEST_SIZE (s @ t)\<rparr>)"
  using strcat_zeroed [OF assms(2,3)] assms(1) by (simp add: append_request_text_def)

text \<open>Copying a segment into a zeroed array.\<close>

lemma strncpy_segment:
  assumes "length s \<le> length t" and "take (length s) t = s"
  shows "strncpy (replicate n NUL) 0 t (length s) = (if length s \<le> n then Inr (padded n s) else Inl OutOfBounds)"
  using assms by (simp add: strncpy_def put_def padded_def)

lemma cstr_full: "NUL \<notin> set s \<Longrightarrow> n = length s \<Longrightarrow> cstr (padded n s) 0 = Inl OutOfBounds"
  by (simp add: cstr_def padded_def)

section \<open>Numbers in an array of ten\<close>

lemma digits_value_bound:
  assumes "\<forall>c \<in> set s. is_digit c"
  shows "0 \<le> digits_value s \<and> digits_value s < 10 ^ length s"
  using assms
proof (induction s rule: rev_induct)
  case Nil
  then show ?case by (simp add: digits_value_def)
next
  case (snoc c s)
  then have b: "0 \<le> digits_value s" "digits_value s < 10 ^ length s" by simp_all
  have "48 \<le> (of_char c :: int) \<and> (of_char c :: int) \<le> 57"
    using snoc.prems unfolding is_digit_def by (metis in_set_conv_decomp of_nat_le_iff of_nat_numeral of_nat_of_char)
  moreover have "digits_value (s @ [c]) = 10 * digits_value s + (of_char c - 48)" by (simp add: digits_value_def)
  ultimately show ?case using b by simp
qed

lemma atoi_value_short:
  assumes "length s \<le> 9"
  shows "in_int (atoi_value s)"
proof -
  have d: "0 \<le> digits_value (takeWhile is_digit r) \<and> digits_value (takeWhile is_digit r) < 10 ^ 9" if "length r \<le> 9" for r
  proof -
    have "digits_value (takeWhile is_digit r) < 10 ^ length (takeWhile is_digit r)" "0 \<le> digits_value (takeWhile is_digit r)"
      using digits_value_bound [of "takeWhile is_digit r"] by (auto dest: set_takeWhileD)
    moreover have "(10::int) ^ length (takeWhile is_digit r) \<le> 10 ^ 9"
      using that length_takeWhile_le [of is_digit r] by (intro power_increasing) simp_all
    ultimately show ?thesis by linarith
  qed
  have l: "length (dropWhile is_space s) \<le> 9" using assms length_dropWhile_le [of is_space s] by linarith
  show ?thesis
  proof (cases "dropWhile is_space s")
    case Nil
    then have "atoi_value s = 0" unfolding atoi_value_def Let_def by (simp only: list.case)
    then show ?thesis by (simp add: in_int_def INT_MAX_def INT_MIN_def)
  next
    case (Cons c r)
    with l d [of r] d [of "c # r"] show ?thesis
      by (simp add: atoi_value_def in_int_def INT_MAX_def INT_MIN_def Let_def)
  qed
qed

lemma atoi_ten:
  assumes "NUL \<notin> set s"
  shows "andThen (if length s \<le> 10 then Inr (padded 10 s) else Inl OutOfBounds) (\<lambda>tmp. atoi tmp 0) =
    (if length s < 10 then Inr (atoi_value s) else Inl OutOfBounds)"
proof (cases "length s < 10")
  case True
  then show ?thesis using cstr_zeroed(1) [OF assms, of 10] atoi_value_short [of s] by (simp add: atoi_def Let_def)
next
  case False
  then show ?thesis using cstr_full [OF assms, of 10] by (cases "length s = 10") (simp_all add: atoi_def)
qed

section \<open>The tests of the URL\<close>

lemma cstr_c_string: "NUL \<notin> set s \<Longrightarrow> i \<le> length s \<Longrightarrow> cstr (c_string s) i = Inr (drop i s)"
  using takeWhile_neq_append [of NUL "drop i s" "[]"] by (auto simp: cstr_def c_string_def dest: in_set_dropD)

lemma strchr_c_string:
  assumes "NUL \<notin> set s" and "i \<le> length s" and "drop i s = a @ c # b" and "c \<notin> set a"
  shows "strchr (c_string s) i c = Inr (Some (i + length a))"
  using assms by (simp add: strchr_def cstr_c_string takeWhile_neq_append)

lemma strchr_c_string_None:
  assumes "NUL \<notin> set s" and "i \<le> length s" and "c \<notin> set (drop i s)"
  shows "strchr (c_string s) i c = Inr None"
  using assms by (simp add: strchr_def cstr_c_string)

lemma strcspn_c_string:
  assumes "NUL \<notin> set s" and "i \<le> length s" and "drop i s = a @ c # b" and "c \<notin> set a"
  shows "strcspn (c_string s) i [c] = Inr (length a)"
  using assms by (simp add: strcspn_def cstr_c_string takeWhile_neq_append)

lemma tolower_colon: "tolower c = CHR '':'' \<longleftrightarrow> c = CHR '':''"
proof -
  have "(of_char c :: nat) = 58" if "\<not> (65 \<le> (of_char c :: nat) \<and> (of_char c :: nat) \<le> 90)" "c = CHR '':''"
    using that by simp
  moreover have "char_of (n + 32) \<noteq> CHR '':''" if "65 \<le> n" "n \<le> 90" for n :: nat
  proof
    assume "char_of (n + 32) = CHR '':''"
    then have "(of_char (char_of (n + 32)) :: nat) = 58" by simp
    with that show False by simp
  qed
  ultimately show ?thesis by (auto simp: tolower_def Let_def)
qed

lemma tolower_slash: "tolower c = CHR ''/'' \<longleftrightarrow> c = CHR ''/''"
proof -
  have "char_of (n + 32) \<noteq> CHR ''/''" if "65 \<le> n" "n \<le> 90" for n :: nat
  proof
    assume "char_of (n + 32) = CHR ''/''"
    then have "(of_char (char_of (n + 32)) :: nat) = 47" by simp
    with that show False by simp
  qed
  then show ?thesis by (auto simp: tolower_def Let_def)
qed

text \<open>A scheme \<open>http://\<close> in any case: its separator is the first in the URL.\<close>

lemma scheme_shape:
  assumes "same_nocase scheme ''http://''"
  obtains a b c d where "scheme = [a, b, c, d] @ ''://''" "CHR '':'' \<notin> {a, b, c, d}"
proof -
  have m: "map tolower scheme = map tolower ''http://''" using assms by (simp add: same_nocase_def)
  moreover have "map tolower ''http://'' = ''http://''" by code_simp
  ultimately obtain a b c d e f g where s: "scheme = [a, b, c, d, e, f, g]"
    and t: "tolower a = CHR ''h''" "tolower b = CHR ''t''" "tolower c = CHR ''t''" "tolower d = CHR ''p''"
    "tolower e = CHR '':''" "tolower f = CHR ''/''" "tolower g = CHR ''/''"
    by (simp only: map_eq_Cons_conv map_is_Nil_conv ex_simps simp_thms) blast
  have "e = CHR '':''" "f = CHR ''/''" "g = CHR ''/''" using t(5-7) by (simp_all only: tolower_colon tolower_slash)
  moreover have "CHR '':'' \<notin> {a, b, c, d}"
    using t(1-4) tolower_colon [of a] tolower_colon [of b] tolower_colon [of c] tolower_colon [of d] by auto
  ultimately show thesis using that [of a b c d] s by simp
qed

lemma find_scheme:
  assumes "same_nocase scheme ''http://''"
  shows "find_sub ''://'' (scheme @ rest) = Some 4" and "length scheme = 7"
proof -
  obtain a b c d where s: "scheme = [a, b, c, d] @ ''://''" "CHR '':'' \<notin> {a, b, c, d}"
    by (rule scheme_shape [OF assms])
  then show "find_sub ''://'' (scheme @ rest) = Some 4"
    by (auto simp: find_sub.simps [of _ "_ # _"])
  show "length scheme = 7" using s(1) by simp
qed

lemma check_direct:
  assumes "same_nocase scheme ''http://''" and "url = scheme @ rest" and "NUL \<notin> set url" and "length url \<le> 1500"
    and "CHR ''/'' \<in> set rest" and "proxyhost B = None"
  shows "check_url (c_string url) B = Inr 7"
proof -
  note f = find_scheme(1) [OF assms(1), of rest] find_scheme(2) [OF assms(1)]
  have "strstr (c_string url) 0 ''://'' = Inr (Some 4)"
    using f(1) assms(2,3) by (simp add: strstr_def cstr_c_string)
  moreover have "strlen (c_string url) 0 = Inr (length url)" using assms(3) by (simp add: strlen_def cstr_c_string)
  moreover have "strncasecmp0 (c_string url) 0 ''http://'' 7 = Inr True"
  proof -
    have "takeWhile (\<lambda>c. c \<noteq> NUL) scheme = scheme" using assms(2,3) by (auto simp: takeWhile_eq_all_conv)
    with assms(1,2) f(2) show ?thesis by (simp add: strncasecmp0_def cstrn_def c_string_def del: takeWhile_eq_all_conv)
  qed
  moreover obtain a b where "rest = a @ CHR ''/'' # b" "CHR ''/'' \<notin> set a" using split_list_first [OF assms(5)] by blast
  then have "strchr (c_string url) 7 CHR ''/'' = Inr (Some (7 + length a))"
    using assms(2,3) f(2) by (intro strchr_c_string) simp_all
  ultimately show ?thesis using assms(4,6) by (simp add: check_url_def)
qed

section \<open>Host and port\<close>

definition port_of :: "string \<Rightarrow> int \<Rightarrow> int" where
  "port_of port old = (if port = [] then old else if atoi_value (tl port) = 0 then 80 else atoi_value (tl port))"

text \<open>The authority of a URL: a host without colon and slash, and a port behind a colon, or nothing.\<close>

definition authority :: "string \<Rightarrow> string \<Rightarrow> bool" where
  "authority h port \<longleftrightarrow> CHR ''/'' \<notin> set h \<and> CHR '':'' \<notin> set h \<and> CHR ''/'' \<notin> set port \<and>
     (case port of [] \<Rightarrow> True | c # _ \<Rightarrow> c = CHR '':'')"

lemma host_and_port_direct:
  assumes "authority h port" and "NUL \<notin> set url" and "i \<le> length url" and "drop i url = h @ port @ CHR ''/'' # p"
    and "host B = replicate n NUL"
  shows "host_and_port (c_string url) i B =
    (if length h \<le> n \<and> length port \<le> 10 then Inr (B\<lparr>host := padded n h, proxyport := port_of port (proxyport B)\<rparr>)
     else Inl OutOfBounds)"
proof -
  let ?rest = "h @ port @ CHR ''/'' # p"
  have rest: "cstr (c_string url) i = Inr ?rest" using cstr_c_string [OF assms(2,3)] assms(4) by simp
  have slash: "strchr (c_string url) i CHR ''/'' = Inr (Some (i + length (h @ port)))"
    using strchr_c_string [OF assms(2,3), of "h @ port" "CHR ''/''" p] assms(1,4) by (simp add: authority_def)
  have span: "strcspn (c_string url) i ''/'' = Inr (length (h @ port))"
    using strcspn_c_string [OF assms(2,3), of "h @ port" "CHR ''/''" p] assms(1,4) by (simp add: authority_def)
  have copy: "strncpy (host B) 0 ?rest (length h) = (if length h \<le> n then Inr (padded n h) else Inl OutOfBounds)"
    using strncpy_segment [of h ?rest n] assms(5) by simp
  show ?thesis
  proof (cases port)
    case Nil
    show ?thesis
    proof (cases "CHR '':'' \<in> set p")
      case True
      then obtain a b where "p = a @ CHR '':'' # b" "CHR '':'' \<notin> set a" using split_list_first by metis
      with Nil assms(1,4) have "strchr (c_string url) i CHR '':'' = Inr (Some (i + length (h @ CHR ''/'' # a)))"
        by (intro strchr_c_string [OF assms(2,3)]) (simp_all add: authority_def)
      with Nil rest slash span copy show ?thesis by (simp add: host_and_port_def port_of_def)
    next
      case False
      with Nil assms(1,4) have "strchr (c_string url) i CHR '':'' = Inr None"
        by (intro strchr_c_string_None [OF assms(2,3)]) (simp_all add: authority_def)
      with Nil rest slash span copy show ?thesis by (simp add: host_and_port_def port_of_def)
    qed
  next
    case (Cons c ds)
    with assms(1) have p: "port = CHR '':'' # ds" by (simp add: authority_def)
    have colon: "strchr (c_string url) i CHR '':'' = Inr (Some (i + length h))"
      using assms(1,4) p by (intro strchr_c_string [OF assms(2,3)]) (simp_all add: authority_def)
    have le: "i + length h + 1 \<le> length url"
      using assms(3) arg_cong [OF assms(4), of length] p by simp
    have "drop (i + length h + 1) url = ds @ CHR ''/'' # p"
      using arg_cong [OF assms(4), of "drop (length h + 1)"] \<open>port = CHR '':'' # ds\<close> by (simp add: add.commute)
    then have ptext: "cstr (c_string url) (i + length h + 1) = Inr (ds @ CHR ''/'' # p)"
      using cstr_c_string [OF assms(2) le] by simp
    have nul: "NUL \<notin> set ds" using assms(2,4) \<open>port = CHR '':'' # ds\<close> by (metis Un_iff in_set_dropD list.set_intros(2) set_append)
    have tmp: "andThen (strncpy (replicate 10 NUL) 0 (ds @ CHR ''/'' # p) (length ds)) (\<lambda>tmp. atoi tmp 0) =
        (if length ds < 10 then Inr (atoi_value ds) else Inl OutOfBounds)"
      using strncpy_segment [of ds "ds @ CHR ''/'' # p" 10] atoi_ten [OF nul] by simp
    have "host_and_port (c_string url) i B =
        andThen (if length h \<le> n then Inr (padded n h) else Inl OutOfBounds) (\<lambda>hb.
        andThen (andThen (strncpy (replicate 10 NUL) 0 (ds @ CHR ''/'' # p) (length ds)) (\<lambda>tmp. atoi tmp 0)) (\<lambda>port.
          Inr (B\<lparr>host := hb, proxyport := (if port = 0 then 80 else port)\<rparr>)))"
      using rest slash colon copy ptext p by (simp add: host_and_port_def andThen_assoc)
    then show ?thesis unfolding tmp using p by (auto simp: port_of_def)
  qed
qed

section \<open>The lines\<close>

definition request_text :: "int \<Rightarrow> int \<Rightarrow> string \<Rightarrow> string option \<Rightarrow> bool \<Rightarrow> string" where
  "request_text m v target direct reload =
     method_name m @ '' '' @ target @ version_text v @ [CR, LF] @
     (if v > 0 then user_agent_line else []) @
     (case direct of
        Some h \<Rightarrow> if v > 0 then host_prefix @ h @ [CR, LF] else []
      | None \<Rightarrow> if reload then pragma_line else []) @
     (if v > 1 then close_line else []) @ (if v > 0 then [CR, LF] else [])"

lemma piece_bounds:
  "NUL \<notin> set (version_text v)" "length (version_text v) \<le> 9" "NUL \<notin> set user_agent_line" "length user_agent_line = 26"
  "NUL \<notin> set pragma_line" "length pragma_line = 18" "NUL \<notin> set close_line" "length close_line = 19"
  "NUL \<notin> set host_prefix" "length host_prefix = 6"
  by (simp_all add: version_text_def user_agent_line_def pragma_line_def close_line_def host_prefix_def)

definition with_request :: "string \<Rightarrow> webbench \<Rightarrow> webbench" where
  "with_request s B = B\<lparr>request := padded REQUEST_SIZE s\<rparr>"

lemma with_request_simps [simp]:
  "http10 (with_request s B) = http10 B" "host (with_request s B) = host B" "proxyhost (with_request s B) = proxyhost B"
  "force_reload (with_request s B) = force_reload B" "wb_method (with_request s B) = wb_method B"
  "request (with_request s B) = padded REQUEST_SIZE s"
  by (simp_all add: with_request_def)

lemma append_with_request:
  assumes "NUL \<notin> set s" and "length s + length t < 2048"
  shows "append_request_text t (with_request s B) = Inr (with_request (s @ t) B)"
  using append_padded [of "with_request s B" s t] assms by (simp add: REQUEST_SIZE_def with_request_def)

lemma append_lines_direct:
  assumes "proxyhost B = None" and "NUL \<notin> set s" and "length s \<le> 1510"
    and "cstr (host B) 0 = Inr h" and "length h < MAXHOSTNAMELEN"
  shows "append_lines (with_request s B) = Inr (with_request (s @ version_text (http10 B) @ [CR, LF] @
    (if http10 B > 0 then user_agent_line @ host_prefix @ h @ [CR, LF] else []) @
    (if http10 B > 1 then close_line else []) @ (if http10 B > 0 then [CR, LF] else [])) B)"
proof -
  have h: "NUL \<notin> set h" "length h < 64" using cstr_NUL_free [OF assms(4)] assms(5) by (simp_all add: MAXHOSTNAMELEN_def)
  have v: "version_text v = []" if "\<not> (v = 1 \<or> v = 2)" for v using that by (simp add: version_text_def)
  note piece_bounds(1,3-) [simp] append_with_request [simp]
  consider "http10 B \<le> 0" | "http10 B = 1" | "http10 B = 2" | "http10 B > 2" by linarith
  then show ?thesis using assms(1-4) h
  proof cases
    case 1
    then show ?thesis using assms(1-4) h v [of "http10 B"] by (simp add: append_lines_def)
  next
    case 2
    then show ?thesis using assms(1-4) h piece_bounds(2) [of 1] by (simp add: append_lines_def)
  next
    case 3
    then show ?thesis using assms(1-4) h piece_bounds(2) [of 2] by (simp add: append_lines_def)
  next
    case 4
    then show ?thesis using assms(1-4) h v [of "http10 B"] by (simp add: append_lines_def)
  qed
qed

lemma append_lines_host_faults:
  assumes "proxyhost B = None" and "NUL \<notin> set s" and "length s \<le> 1510"
    and "cstr (host B) 0 = Inl OutOfBounds" and "http10 B > 0"
  shows "append_lines (with_request s B) = Inl OutOfBounds"
proof -
  note piece_bounds(1,3-) [simp] append_with_request [simp]
  have v: "length (version_text (http10 B)) \<le> 9" by (rule piece_bounds(2))
  show ?thesis using assms v by (cases "http10 B = 1 \<or> http10 B = 2") (simp_all add: append_lines_def)
qed

lemma raise_version_simps [simp]:
  "proxyhost (raise_version B) = proxyhost B" "wb_method (raise_version B) = wb_method B" "host (raise_version B) = host B"
  "request (raise_version B) = request B" "proxyport (raise_version B) = proxyport B"
  "force_reload (raise_version B) = force_reload B" "timerexpired (raise_version B) = timerexpired B"
  "speed (raise_version B) = speed B" "failed (raise_version B) = failed B" "bytes (raise_version B) = bytes B"
  "raise_version (B\<lparr>host := b, request := r\<rparr>) = (raise_version B)\<lparr>host := b, request := r\<rparr>"
  by (simp_all add: raise_version_def Let_def)

lemma method_name_bound: "length (method_name m) \<le> 7" "NUL \<notin> set (method_name m)"
  by (simp_all add: method_name_def)

text \<open>The request up to the target.\<close>

lemma request_started:
  shows "build_request url B = (let B1 = (raise_version B)\<lparr>host := replicate MAXHOSTNAMELEN NUL,
      request := padded REQUEST_SIZE (method_name (wb_method B) @ '' '')\<rparr>
    in andThen (check_url (c_string url) B1) (\<lambda>i. andThen (append_target (c_string url) i B1) append_lines))"
proof -
  let ?m = "method_name (wb_method B)"
  have "strcpy (padded REQUEST_SIZE []) 0 ?m = Inr (padded REQUEST_SIZE ?m)"
    using put_padded [of "[]" ?m REQUEST_SIZE] method_name_bound(1) [of "wb_method B"] by (simp add: strcpy_def REQUEST_SIZE_def)
  moreover have "append_request_text '' '' (B'\<lparr>request := padded REQUEST_SIZE ?m\<rparr>) =
      Inr (B'\<lparr>request := padded REQUEST_SIZE (?m @ '' '')\<rparr>)" for B'
    using append_padded [of "B'\<lparr>request := padded REQUEST_SIZE ?m\<rparr>" ?m "'' ''"] method_name_bound [of "wb_method B"]
    by (simp add: REQUEST_SIZE_def)
  ultimately show ?thesis by (simp add: build_request_def Let_def padded_Nil [of REQUEST_SIZE])
qed

lemma direct_request:
  assumes "url = scheme @ h @ port @ CHR ''/'' # p" and "same_nocase scheme ''http://''" and "authority h port"
    and "NUL \<notin> set url" and "length url \<le> 1500" and "proxyhost B = None"
  defines "v \<equiv> http10 (raise_version B)"
  shows "build_request url B =
    (if length port \<le> 10 \<and> (length h < MAXHOSTNAMELEN \<or> length h = MAXHOSTNAMELEN \<and> v \<le> 0)
     then Inr ((raise_version B)\<lparr>host := padded MAXHOSTNAMELEN h, proxyport := port_of port (proxyport B),
       request := padded REQUEST_SIZE (request_text (wb_method B) v (CHR ''/'' # p) (Some h) (force_reload B \<noteq> 0))\<rparr>)
     else Inl OutOfBounds)"
proof -
  let ?m = "method_name (wb_method B)"
  define B1 where "B1 = (raise_version B)\<lparr>host := replicate MAXHOSTNAMELEN NUL, request := padded REQUEST_SIZE (?m @ '' '')\<rparr>"
  have l: "length scheme = 7" by (rule find_scheme(2) [OF assms(2)])
  have drop: "drop 7 url = h @ port @ CHR ''/'' # p" using assms(1) l by simp
  have len: "length h + length port + length p \<le> 1492" using assms(1,5) l by simp
  have slash: "CHR ''/'' \<notin> set (h @ port)" using assms(3) by (simp add: authority_def)
  have p: "NUL \<notin> set p" using assms(1,4) by simp
  have start: "build_request url B = andThen (check_url (c_string url) B1) (\<lambda>i. andThen (append_target (c_string url) i B1) append_lines)"
    unfolding B1_def by (simp add: request_started Let_def)
  have check: "check_url (c_string url) B1 = Inr 7"
    using assms(1,6) by (intro check_direct [OF assms(2) assms(1) assms(4,5)]) (simp_all add: B1_def)
  have hp: "host_and_port (c_string url) 7 B1 = (if length h \<le> MAXHOSTNAMELEN \<and> length port \<le> 10
      then Inr (B1\<lparr>host := padded MAXHOSTNAMELEN h, proxyport := port_of port (proxyport B)\<rparr>) else Inl OutOfBounds)"
    using host_and_port_direct [OF assms(3,4) _ drop, of B1 MAXHOSTNAMELEN] assms(1) l by (simp add: B1_def)
  have span: "strcspn (c_string url) 7 ''/'' = Inr (length (h @ port))"
    using strcspn_c_string [OF assms(4) _ _ slash, of 7 p] drop assms(1) l by simp
  have path: "cstr (c_string url) (7 + length (h @ port)) = Inr (CHR ''/'' # p)"
    using cstr_c_string [OF assms(4), of "7 + length (h @ port)"] assms(1) l by simp
  let ?s = "?m @ '' '' @ CHR ''/'' # p"
  have n: "strlen (padded REQUEST_SIZE (?m @ '' '')) 0 = Inr (length (?m @ '' ''))"
    using cstr_zeroed(1) [of "?m @ '' ''" REQUEST_SIZE] method_name_bound [of "wb_method B"] by (simp add: strlen_def REQUEST_SIZE_def)
  have cat: "strcat (padded REQUEST_SIZE (?m @ '' '')) (length (?m @ '' '')) (CHR ''/'' # p) = Inr (padded REQUEST_SIZE ?s)"
    using strcat_zeroed(2) [of "?m @ '' ''" "CHR ''/'' # p" REQUEST_SIZE] method_name_bound [of "wb_method B"] len by (simp add: REQUEST_SIZE_def)
  show ?thesis
  proof (cases "length port \<le> 10 \<and> length h \<le> MAXHOSTNAMELEN")
    case False
    then show ?thesis using start check hp assms(6) by (auto simp: append_target_def B1_def)
  next
    case True
    let ?B = "B1\<lparr>host := padded MAXHOSTNAMELEN h, proxyport := port_of port (proxyport B)\<rparr>"
    have build: "build_request url B = append_lines (with_request ?s ?B)"
      using start check hp span path n cat True assms(6) by (simp add: append_target_def B1_def with_request_def)
    have s: "NUL \<notin> set ?s" "length ?s \<le> 1510" using p method_name_bound [of "wb_method B"] len by simp_all
    have B: "proxyhost ?B = None" "http10 ?B = v" "force_reload ?B = force_reload B"
      using assms(6) by (simp_all add: B1_def v_def)
    have h: "NUL \<notin> set h" using assms(1,4) by simp
    show ?thesis
    proof (cases "length h < MAXHOSTNAMELEN")
      case True
      then have "cstr (host ?B) 0 = Inr h" using cstr_zeroed(1) [OF h True] by simp
      from append_lines_direct [OF B(1) s this True]
      show ?thesis unfolding build B(2) using \<open>length port \<le> 10 \<and> _\<close> True
        by (simp add: B1_def request_text_def with_request_def)
    next
      case False
      with True have eq: "length h = MAXHOSTNAMELEN" by simp
      show ?thesis
      proof (cases "v \<le> 0")
        case True
        then show ?thesis unfolding build using assms(6) \<open>length port \<le> 10 \<and> _\<close> eq B(2)
          append_with_request [OF s(1), of "[CR, LF]" ?B] s(2)
          by (simp add: append_lines_def B1_def request_text_def version_text_def with_request_def)
      next
        case False
        have "cstr (host ?B) 0 = Inl OutOfBounds" using cstr_full [OF h] eq by simp
        from append_lines_host_faults [OF B(1) s this] False B(2) show ?thesis unfolding build using eq by simp
      qed
    qed
  qed
qed

text \<open>C35: without a proxy \<open>build_request\<close> turns every URL its tests let through into the request for its path: the method, the
  target, the version the options ask for (raised where the method needs it), the header lines of that version, and
  the blank line; \<open>host\<close> and \<open>proxyport\<close> hold what stands in front of the path. It leaves its arrays exactly when the host has
  64 or more characters (64 do fit for HTTP/0.9, which sends no \<open>Host\<close>) or the port more than nine.\<close>

theorem build_request_direct:
  assumes "url = scheme @ h @ port @ CHR ''/'' # p" and "same_nocase scheme ''http://''" and "authority h port"
    and "NUL \<notin> set url" and "length url \<le> 1500" and "proxyhost B = None"
  defines "v \<equiv> http10 (raise_version B)"
  shows "build_request url B =
    (if length port \<le> 10 \<and> (length h < MAXHOSTNAMELEN \<or> length h = MAXHOSTNAMELEN \<and> v \<le> 0)
     then Inr ((raise_version B)\<lparr>host := padded MAXHOSTNAMELEN h, proxyport := port_of port (proxyport B),
       request := padded REQUEST_SIZE (request_text (wb_method B) v (CHR ''/'' # p) (Some h) (force_reload B \<noteq> 0))\<rparr>)
     else Inl OutOfBounds)"
  unfolding v_def by (rule direct_request [OF assms(1-6)])

theorem build_request_direct_witness:
  "build_request ''HTTP://localhost:9006/welcome.html'' (webbench_start\<lparr>http10 := 2\<rparr>) =
     Inr (webbench_start\<lparr>http10 := 2, host := padded 64 ''localhost'', proxyport := 9006,
       request := padded 2048 (''GET /welcome.html HTTP/1.1'' @ [CR, LF] @ ''User-Agent: WebBench 1.5'' @ [CR, LF] @
         ''Host: localhost'' @ [CR, LF] @ ''Connection: close'' @ [CR, LF, CR, LF])\<rparr>)"
proof -
  let ?B = "webbench_start\<lparr>http10 := 2\<rparr>"
  have "same_nocase ''HTTP://'' ''http://''" "authority ''localhost'' '':9006''" by code_simp+
  moreover have "raise_version ?B = ?B" "port_of '':9006'' 80 = 9006" by code_simp+
  ultimately show ?thesis
    using build_request_direct [of "''HTTP://localhost:9006/welcome.html''" "''HTTP://''" "''localhost''" "'':9006''" "''welcome.html''" ?B]
    by (simp add: webbench_start_def MAXHOSTNAMELEN_def REQUEST_SIZE_def request_text_def method_name_def METHOD_GET_def
        METHOD_HEAD_def METHOD_OPTIONS_def METHOD_TRACE_def version_text_def user_agent_line_def host_prefix_def close_line_def)
qed

end
