(* ===== verification/WebBenchCount.thy ===== *)
theory WebBenchCount
  imports WebBenchRun WebRequest
begin

text \<open>
  What \<open>benchcore\<close> counts, and what the parent adds up. The history of a client is a list of exchanges; an exchange
  says what the system answers in one round of the loop.
\<close>

section \<open>Exchanges\<close>

text \<open>An exchange ends before there is a connection, on an error, well, or (\<open>CutOff\<close>) because the signal stops the reading
  before the end of the stream. \<open>inet_addr\<close> finds the address, or fails (\<open>-1\<close>) and \<open>gethostbyname\<close> does. The list of numbers is
  what the reads before the last one returned, or all reads of an exchange that is cut off; the last number is what the
  last call returned.\<close>

datatype exchange =
    Unresolved
  | NoSocket "int list" int
  | Refused "int list" int int
  | ShortWrite "int list" int int int
  | ShutdownFails "int list" int int int
  | ReadFails "int list" int "int list" int int
  | CloseFails "int list" int "int list" int
  | Served "int list" int "int list"
  | CutOff "int list" int "int list" int

definition found :: "int list \<Rightarrow> bool" where
  "found addr \<longleftrightarrow> (\<exists>a. addr = [a] \<and> a \<noteq> -1) \<or> (\<exists>h. addr = [-1, h] \<and> h \<noteq> 0)"

definition connected :: "int list \<Rightarrow> int \<Rightarrow> string \<Rightarrow> webbench \<Rightarrow> int list" where
  "connected addr s req B = addr @ [s, 0, int (length req)] @ (if http10 B = 0 then [0] else [])"

text \<open>The results of the calls of the exchange. No signal comes with any of them in \<open>quiet\<close>.\<close>

fun calls_of :: "string \<Rightarrow> webbench \<Rightarrow> exchange \<Rightarrow> int list" where
  "calls_of req B Unresolved = [-1, 0]"
| "calls_of req B (NoSocket addr s) = addr @ [s]"
| "calls_of req B (Refused addr s c) = addr @ [s, c]"
| "calls_of req B (ShortWrite addr s n c) = addr @ [s, 0, n, c]"
| "calls_of req B (ShutdownFails addr s r c) = addr @ [s, 0, int (length req), r, c]"
| "calls_of req B (ReadFails addr s ns r c) = connected addr s req B @ ns @ [r, c]"
| "calls_of req B (CloseFails addr s ns c) = connected addr s req B @ (if force B = 0 then ns @ [0] else []) @ [c]"
| "calls_of req B (Served addr s ns) = connected addr s req B @ (if force B = 0 then ns @ [0] else []) @ [0]"
| "calls_of req B (CutOff addr s ns c) = connected addr s req B @ ns @ [c]"

definition quiet :: "int list \<Rightarrow> (int \<times> bool) list" where
  "quiet rs = map (\<lambda>r. (r, False)) rs"

text \<open>Results that lead to the outcome the constructor names.\<close>

fun proper :: "string \<Rightarrow> webbench \<Rightarrow> exchange \<Rightarrow> bool" where
  "proper req B Unresolved = True"
| "proper req B (NoSocket addr s) = (found addr \<and> s < 0)"
| "proper req B (Refused addr s c) = (found addr \<and> 0 \<le> s \<and> c < 0)"
| "proper req B (ShortWrite addr s n c) = (found addr \<and> 0 \<le> s \<and> n \<noteq> int (length req))"
| "proper req B (ShutdownFails addr s r c) = (found addr \<and> 0 \<le> s \<and> http10 B = 0 \<and> r \<noteq> 0)"
| "proper req B (ReadFails addr s ns r c) =
     (found addr \<and> 0 \<le> s \<and> force B = 0 \<and> (\<forall>n \<in> set ns. 0 < n) \<and> r < 0)"
| "proper req B (CloseFails addr s ns c) =
     (found addr \<and> 0 \<le> s \<and> (\<forall>n \<in> set ns. 0 < n) \<and> (force B \<noteq> 0 \<longrightarrow> ns = []) \<and> c \<noteq> 0)"
| "proper req B (Served addr s ns) =
     (found addr \<and> 0 \<le> s \<and> (\<forall>n \<in> set ns. 0 < n) \<and> (force B \<noteq> 0 \<longrightarrow> ns = []))"
| "proper req B (CutOff addr s ns c) = (found addr \<and> 0 \<le> s \<and> force B = 0 \<and> (\<forall>n \<in> set ns. 0 < n))"

text \<open>
  Whether the signal comes with a call of the list, and with none of the first ones. The client reads only as long
  as the signal has not come, so which reads there are says where it can be: an exchange that reads to the end of the
  stream or to an error has it at its last read, at the close, or nowhere; one that is cut off has it first at its last read, or,
  without a read, at a call before. An exchange without reads can have it at any call.
\<close>

definition rings :: "(int \<times> bool) list \<Rightarrow> bool" where
  "rings cs \<longleftrightarrow> True \<in> set (map snd cs)"

definition silent :: "nat \<Rightarrow> (int \<times> bool) list \<Rightarrow> bool" where
  "silent k cs \<longleftrightarrow> \<not> rings (take k cs)"

fun timely :: "string \<Rightarrow> webbench \<Rightarrow> exchange \<Rightarrow> (int \<times> bool) list \<Rightarrow> bool" where
  "timely req B (ReadFails addr s ns r c) cs = silent (length (connected addr s req B @ ns)) cs"
| "timely req B (CloseFails addr s ns c) cs = (force B = 0 \<longrightarrow> silent (length (connected addr s req B @ ns)) cs)"
| "timely req B (Served addr s ns) cs = (force B = 0 \<longrightarrow> silent (length (connected addr s req B @ ns)) cs)"
| "timely req B (CutOff addr s ns c) cs =
     (let k = length (connected addr s req B @ ns)
      in \<not> silent k cs \<and> (ns \<noteq> [] \<longrightarrow> silent (k - 1) cs))"
| "timely req B _ cs = True"

fun good :: "exchange \<Rightarrow> bool" where
  "good (Served _ _ _) = True"
| "good (CutOff _ _ _ c) = (c = 0)"
| "good _ = False"

fun received_bytes :: "exchange \<Rightarrow> int" where
  "received_bytes (ReadFails _ _ ns _ _) = sum_list ns"
| "received_bytes (CloseFails _ _ ns _) = sum_list ns"
| "received_bytes (Served _ _ ns) = sum_list ns"
| "received_bytes (CutOff _ _ ns _) = sum_list ns"
| "received_bytes _ = 0"

fun leaked :: "exchange \<Rightarrow> int list" where
  "leaked (Refused _ s _) = [s]"
| "leaked _ = []"

text \<open>The counters after an exchange.\<close>

definition tally :: "exchange \<Rightarrow> webbench \<Rightarrow> webbench" where
  "tally x B = B\<lparr>speed := speed B + (if good x then 1 else 0), failed := failed B + (if good x then 0 else 1),
     bytes := bytes B + received_bytes x\<rparr>"

definition small :: "webbench \<Rightarrow> bool" where
  "small B \<longleftrightarrow> 0 \<le> speed B \<and> speed B \<le> INT_MAX \<and> 0 \<le> failed B \<and> failed B \<le> INT_MAX \<and> 0 \<le> bytes B \<and> bytes B \<le> INT_MAX"

text \<open>What a round makes of the process, its log of \<open>connect\<close> and \<open>write\<close> aside.\<close>

definition after_exchange :: "exchange \<Rightarrow> bool \<Rightarrow> bench_proc \<Rightarrow> bench_proc \<Rightarrow> bool" where
  "after_exchange x b P P' \<longleftrightarrow> open_socks P' = leaked x @ open_socks P \<and>
     wb P' = (tally x (wb P))\<lparr>timerexpired := b\<rparr>"

text \<open>A call, with the signal or without it.\<close>

definition ticked :: "bool \<Rightarrow> webbench \<Rightarrow> webbench" where
  "ticked b B = B\<lparr>timerexpired := timerexpired B \<or> b\<rparr>"

lemma ticked_simps [simp]:
  "http10 (ticked b B) = http10 B" "force (ticked b B) = force B" "speed (ticked b B) = speed B"
  "failed (ticked b B) = failed B" "bytes (ticked b B) = bytes B" "timerexpired (ticked b B) = (timerexpired B \<or> b)"
  "ticked b (ticked c B) = ticked (c \<or> b) B" "small (ticked b B) = small B"
  by (auto simp: ticked_def small_def)

lemma ticked_False [simp]: "ticked False B = B"
  by (simp add: ticked_def)

lemma small_expired [simp]: "small (B\<lparr>timerexpired := b\<rparr>) = small B"
  by (simp add: small_def)

lemma syscall_step [simp]:
  "todo P = (r, b) # rest \<Longrightarrow> syscall P = returns (r, P\<lparr>todo := rest, wb := ticked b (wb P)\<rparr>)"
  by (cases b) (simp_all add: syscall_def ticked_def alarm_handler_def)

lemma syscall_quiet [simp]: "todo P = (r, False) # rest \<Longrightarrow> syscall P = returns (r, P\<lparr>todo := rest\<rparr>)"
  by (simp add: syscall_def)

lemma rings_simps [simp]:
  "\<not> rings []" "rings ((r, b) # cs) \<longleftrightarrow> b \<or> rings cs" "rings (cs @ ds) \<longleftrightarrow> rings cs \<or> rings ds" "\<not> rings (quiet rs)"
  by (auto simp: rings_def quiet_def)

lemma not_rings: "\<not> rings cs \<Longrightarrow> cs = quiet (map fst cs)"
  by (induction cs) (auto simp: quiet_def rings_def)

lemma quiet_append: "quiet (rs @ ss) = quiet rs @ quiet ss"
  by (simp add: quiet_def)

lemma map_fst_quiet [simp]: "map fst (quiet rs) = rs"
  by (simp add: quiet_def o_def)

lemma count_steps:
  "small B \<Longrightarrow> failed B < INT_MAX \<Longrightarrow> add_int (failed B) 1 = Inr (failed B + 1)"
  "small B \<Longrightarrow> speed B < INT_MAX \<Longrightarrow> add_int (speed B) 1 = Inr (speed B + 1)"
  by (simp_all add: small_def add_int_def in_int_def INT_MIN_def INT_MAX_def)

text \<open>The reads.\<close>

lemma read_answer_reads:
  assumes "todo P = quiet ns @ rest" and "\<forall>n \<in> set ns. 0 < n" and "\<not> timerexpired (wb P)" and "0 \<le> bytes (wb P)"
    and "bytes (wb P) + sum_list ns \<le> INT_MAX"
  shows "read_answer P = read_answer (P\<lparr>todo := rest, wb := (wb P)\<lparr>bytes := bytes (wb P) + sum_list ns\<rparr>\<rparr>)"
  using assms
proof (induction ns arbitrary: P)
  case Nil
  then have "P\<lparr>todo := rest, wb := (wb P)\<lparr>bytes := bytes (wb P) + sum_list []\<rparr>\<rparr> = P"
    by (intro bench_proc.equality webbench.equality) (simp_all add: quiet_def)
  then show ?case by simp
next
  case (Cons n ns)
  have s: "0 \<le> sum_list ns" using Cons.prems(2) by (intro sum_list_nonneg) auto
  then have a: "add_int (bytes (wb P)) n = Inr (bytes (wb P) + n)"
    using Cons.prems by (simp add: add_int_def in_int_def INT_MIN_def)
  let ?Q = "P\<lparr>todo := quiet ns @ rest, wb := (wb P)\<lparr>bytes := bytes (wb P) + n\<rparr>\<rparr>"
  have "read_answer P = read_answer ?Q"
    using Cons.prems(1-3) a by (simp add: read_answer.simps [of P] quiet_def count_bytes_def)
  also have "\<dots> = read_answer (?Q\<lparr>todo := rest, wb := (wb ?Q)\<lparr>bytes := bytes (wb ?Q) + sum_list ns\<rparr>\<rparr>)"
    using Cons.prems by (intro Cons.IH) simp_all
  finally show ?case by (simp add: add.assoc)
qed

text \<open>A round of the loop does what the exchange says.\<close>

lemma count_failed_round:
  assumes "small (wb P)" and "failed (wb P) < INT_MAX"
  shows "count_failed P = Some (Inr (P\<lparr>wb := (wb P)\<lparr>failed := failed (wb P) + 1\<rparr>\<rparr>))"
  using count_steps(1) [OF assms] by (simp add: count_failed_def)

lemma finish_round:
  assumes "todo P = (c, b) # rest" and "small (wb P)" and "c = 0 \<Longrightarrow> speed (wb P) < INT_MAX"
    and "c \<noteq> 0 \<Longrightarrow> failed (wb P) < INT_MAX"
  shows "\<exists>P'. finish s P = Some (Inr P') \<and> todo P' = rest \<and> open_socks P' = remove1 s (open_socks P) \<and>
    wb P' = (ticked b (wb P))\<lparr>speed := speed (wb P) + (if c = 0 then 1 else 0),
      failed := failed (wb P) + (if c = 0 then 0 else 1)\<rparr>"
  using assms count_steps [OF assms(2)]
  by (cases "c = 0") (simp_all add: finish_def close_socket_def count_failed_def count_speed_def)

lemma give_up_round:
  assumes "todo P = (c, b) # rest" and "small (wb P)" and "failed (wb P) < INT_MAX"
  shows "\<exists>P'. give_up s P = Some (Inr P') \<and> todo P' = rest \<and> open_socks P' = remove1 s (open_socks P) \<and>
    wb P' = (ticked b (wb P))\<lparr>failed := failed (wb P) + 1\<rparr>"
  using assms count_steps(1) [OF assms(2,3)]
  by (simp add: give_up_def close_socket_def count_failed_def) (simp add: ticked_def)

lemma map_fst_append: "map fst cs = xs @ ys \<Longrightarrow> \<exists>as bs. cs = as @ bs \<and> map fst as = xs \<and> map fst bs = ys"
  by (auto simp: map_eq_append_conv)

text \<open>The address, the socket, the connection and the write.\<close>

lemma finds_round:
  assumes "todo P = cs @ rest" and "map fst cs = addr" and "found addr"
  shows "\<exists>hp. hp \<noteq> 0 \<and> wthen (syscall P) (\<lambda>(inaddr, P). wthen (if inaddr \<noteq> -1 then returns (1, P) else syscall P) f) =
    f (hp, P\<lparr>todo := rest, wb := ticked (rings cs) (wb P)\<rparr>)"
proof -
  consider a b where "cs = [(a, b)]" "a \<noteq> -1" | h b c where "cs = [(-1, b), (h, c)]" "h \<noteq> 0"
    using assms(2,3) by (auto simp: found_def map_eq_Cons_conv)
  then show ?thesis
  proof cases
    case 1
    with assms(1) show ?thesis by (intro exI [of _ 1]) simp
  next
    case 2
    with assms(1) show ?thesis by (intro exI [of _ h]) simp
  qed
qed

lemma Socket_round:
  assumes "todo P = cs @ (s, b) # rest" and "map fst cs = addr" and "found addr"
  shows "Socket name port P =
    (let Q = P\<lparr>todo := rest, wb := ticked (rings cs \<or> b) (wb P)\<rparr> in
     if s < 0 then returns (s, Q)
     else wthen (syscall (Q\<lparr>open_socks := s # open_socks P, connects := connects P @ [(name, port)]\<rparr>)) (\<lambda>(c, P).
            if c < 0 then returns (-1, P) else returns (s, P)))"
proof -
  let ?f = "\<lambda>(hp, P). if hp = 0 then returns (-1, P)
       else wthen (syscall P) (\<lambda>(sock, P).
         if sock < 0 then returns (sock, P)
         else wthen (syscall (P\<lparr>open_socks := sock # open_socks P, connects := connects P @ [(name, port)]\<rparr>)) (\<lambda>(c, P).
           if c < 0 then returns (-1, P) else returns (sock, P)))"
  obtain hp :: int where "hp \<noteq> 0" "Socket name port P = ?f (hp, P\<lparr>todo := (s, b) # rest, wb := ticked (rings cs) (wb P)\<rparr>)"
    unfolding Socket_def using finds_round [OF assms, of ?f] by metis
  then show ?thesis by (simp add: Let_def)
qed

lemma connects_round:
  assumes "todo P = cs @ rest" and "map fst cs = addr @ [s, 0, n]" and "found addr" and "0 \<le> s"
  shows "\<exists>P'. attempt name port req P =
      (if n \<noteq> int (length req) then give_up s P'
       else wthen (if http10 (wb P) = 0 then syscall P' else returns (0, P')) (\<lambda>(r, P).
         if r \<noteq> 0 then give_up s P
         else if force (wb P) = 0 then
           wthen (read_answer P) (\<lambda>(good, P). if good then finish s P else give_up s P)
         else finish s P)) \<and>
    todo P' = rest \<and> open_socks P' = s # open_socks P \<and> wb P' = ticked (rings cs) (wb P)"
proof -
  obtain as b c d where cs: "cs = as @ [(s, b), (0, c), (n, d)]" "map fst as = addr"
    using assms(2) by (auto simp: map_eq_append_conv map_eq_Cons_conv)
  let ?P = "P\<lparr>open_socks := s # open_socks P, connects := connects P @ [(name, port)], todo := rest,
      wb := ticked (rings cs) (wb P), wrote := wrote P @ [take (nat n) req]\<rparr>"
  have "Socket name port P = returns (s, ?P\<lparr>todo := (n, d) # rest, wb := ticked (rings as \<or> b \<or> c) (wb P), wrote := wrote P\<rparr>)"
    using Socket_round [of P as s b "(0, c) # (n, d) # rest" addr name port] assms(1,3,4) cs by (simp add: Let_def disj_assoc)
  then show ?thesis
    using assms(4) by (intro exI [of _ ?P]) (simp add: attempt_def write_request_def cs disj_assoc)
qed

lemma sends_round:
  assumes "todo P = cs @ rest" and "map fst cs = connected addr s req (wb P)" and "found addr" and "0 \<le> s"
  shows "\<exists>P'. attempt name port req P =
      (if force (wb P) = 0 then wthen (read_answer P') (\<lambda>(good, P). if good then finish s P else give_up s P)
       else finish s P') \<and>
    todo P' = rest \<and> open_socks P' = s # open_socks P \<and> wb P' = ticked (rings cs) (wb P)"
proof -
  obtain as hs where cs: "cs = as @ hs" "map fst as = addr @ [s, 0, int (length req)]"
      "map fst hs = (if http10 (wb P) = 0 then [0] else [])"
  proof -
    have "map fst cs = (addr @ [s, 0, int (length req)]) @ (if http10 (wb P) = 0 then [0] else [])"
      using assms(2) by (simp add: connected_def)
    from map_fst_append [OF this] that show thesis by blast
  qed
  have todo: "todo P = as @ hs @ rest" using assms(1) cs(1) by simp
  obtain Q where Q: "todo Q = hs @ rest" "open_socks Q = s # open_socks P" "wb Q = ticked (rings as) (wb P)"
    "attempt name port req P = wthen (if http10 (wb P) = 0 then syscall Q else returns (0, Q)) (\<lambda>(r, P).
         if r \<noteq> 0 then give_up s P
         else if force (wb P) = 0 then
           wthen (read_answer P) (\<lambda>(good, P). if good then finish s P else give_up s P)
         else finish s P)"
    using connects_round [OF todo cs(2) assms(3,4), of name port req] by (simp only: simp_thms if_False) blast
  show ?thesis
  proof (cases "http10 (wb P) = 0")
    case True
    then obtain b where "hs = [(0, b)]" using cs(3) by (auto simp: map_eq_Cons_conv)
    with Q True show ?thesis by (intro exI [of _ "Q\<lparr>todo := rest, wb := ticked b (wb Q)\<rparr>"]) (simp add: cs(1))
  next
    case False
    with Q cs(1,3) show ?thesis by (intro exI [of _ Q]) simp
  qed
qed

lemma small_tally:
  assumes "small B" and "small (tally x B)"
  shows "good x \<Longrightarrow> speed B < INT_MAX" and "\<not> good x \<Longrightarrow> failed B < INT_MAX"
  using assms by (auto simp: small_def tally_def)

lemma not_expired: "\<not> timerexpired B \<Longrightarrow> B\<lparr>timerexpired := False\<rparr> = B"
  by (intro webbench.equality) simp_all

text \<open>Reading to the end of the stream or an error, and reading until the signal.\<close>

lemma reads_good:
  assumes "todo P = quiet ns @ (r, b) # rest" and "\<forall>n \<in> set ns. 0 < n" and "\<not> timerexpired (wb P)" and "small (wb P)"
    and "bytes (wb P) + sum_list ns \<le> INT_MAX" and "r \<le> 0"
  shows "\<exists>P'. read_answer P = returns (0 \<le> r, P') \<and> todo P' = rest \<and> open_socks P' = open_socks P \<and>
    wb P' = (ticked b (wb P))\<lparr>bytes := bytes (wb P) + sum_list ns\<rparr>"
proof -
  have "0 \<le> bytes (wb P)" using assms(4) by (simp add: small_def)
  note read_answer_reads [OF assms(1-3) this assms(5)]
  then show ?thesis using assms(3,6)
    by (auto simp: read_answer.simps [of "P\<lparr>todo := _, wb := _\<rparr>"] ticked_def)
qed

lemma read_expired: "timerexpired (wb P) \<Longrightarrow> read_answer P = returns (True, P)"
  by (simp add: read_answer.simps [of P])

lemma reads_cut:
  assumes "todo P = quiet ns @ (n, True) # rest" and "\<forall>n \<in> set ns. 0 < n" and "\<not> timerexpired (wb P)" and "small (wb P)"
    and "bytes (wb P) + sum_list ns + n \<le> INT_MAX" and "0 < n"
  shows "\<exists>P'. read_answer P = returns (True, P') \<and> todo P' = rest \<and> open_socks P' = open_socks P \<and>
    wb P' = (ticked True (wb P))\<lparr>bytes := bytes (wb P) + sum_list ns + n\<rparr>"
proof -
  have b: "0 \<le> bytes (wb P)" using assms(4) by (simp add: small_def)
  have s: "0 \<le> sum_list ns" using assms(2) by (intro sum_list_nonneg) auto
  let ?P = "P\<lparr>todo := (n, True) # rest, wb := (wb P)\<lparr>bytes := bytes (wb P) + sum_list ns\<rparr>\<rparr>"
  have "add_int (bytes (wb P) + sum_list ns) n = Inr (bytes (wb P) + sum_list ns + n)"
    using b s assms(5,6) by (simp add: add_int_def in_int_def INT_MIN_def)
  then have "read_answer ?P = read_answer (?P\<lparr>todo := rest, wb := (ticked True (wb ?P))\<lparr>bytes := bytes (wb ?P) + n\<rparr>\<rparr>)"
    using assms(3,6) by (simp add: read_answer.simps [of ?P] count_bytes_def)
  then have "read_answer ?P = returns (True, ?P\<lparr>todo := rest, wb := (ticked True (wb ?P))\<lparr>bytes := bytes (wb ?P) + n\<rparr>\<rparr>)"
    by (simp add: read_expired)
  moreover have "read_answer P = read_answer ?P" using read_answer_reads [OF assms(1-3) b] assms(5,6) by simp
  ultimately show ?thesis by (simp add: ticked_def)
qed

text \<open>What an exchange with an answer is up to its close.\<close>

lemma answer_round:
  assumes "todo P = cs @ ds @ (c, b) # rest" and "map fst cs = connected addr s req (wb P)" and "found addr" and "0 \<le> s"
    and "\<forall>n \<in> set ns. 0 < n" and "\<not> timerexpired (wb P)" and "small (wb P)" and "bytes (wb P) + sum_list ns \<le> INT_MAX"
    and "if force (wb P) = 0 then \<not> rings cs \<and> (\<exists>e. ds = quiet ns @ [(0, e)]) else ns = [] \<and> ds = []"
  shows "\<exists>R. attempt name port req P = finish s R \<and> todo R = (c, b) # rest \<and> open_socks R = s # open_socks P \<and>
    wb R = (ticked (rings (cs @ ds)) (wb P))\<lparr>bytes := bytes (wb P) + sum_list ns\<rparr>"
proof -
  obtain Q where Q: "attempt name port req P = (if force (wb P) = 0
      then wthen (read_answer Q) (\<lambda>(good, P). if good then finish s P else give_up s P) else finish s Q)"
    "todo Q = ds @ (c, b) # rest" "open_socks Q = s # open_socks P" "wb Q = ticked (rings cs) (wb P)"
    using sends_round [OF assms(1-4)] by blast
  show ?thesis
  proof (cases "force (wb P) = 0")
    case True
    then obtain e where e: "ds = quiet ns @ [(0, e)]" "\<not> rings cs" using assms(9) by auto
    then have "todo Q = quiet ns @ (0, e) # (c, b) # rest" using Q(2) by simp
    from reads_good [OF this] assms(5-8) Q(4) e obtain R where "read_answer Q = returns (True, R)" "todo R = (c, b) # rest"
      "open_socks R = open_socks Q" "wb R = (ticked e (wb Q))\<lparr>bytes := bytes (wb Q) + sum_list ns\<rparr>" by auto
    then show ?thesis using Q True e by (intro exI [of _ R]) (simp add: ticked_def)
  next
    case False
    then have "ns = []" "ds = []" using assms(9) by auto
    with Q False show ?thesis by (intro exI [of _ Q]) (simp add: ticked_def)
  qed
qed

lemma small_reads:
  assumes "small B" and "small (tally x B)"
  shows "bytes B + received_bytes x \<le> INT_MAX"
  using assms by (simp add: small_def tally_def)

lemma map_fst_append3:
  "map fst cs = xs @ ys @ zs \<Longrightarrow> \<exists>as bs ds. cs = as @ bs @ ds \<and> map fst as = xs \<and> map fst bs = ys \<and> map fst ds = zs"
  using map_fst_append [of cs xs "ys @ zs"] map_fst_append [of _ ys zs] by metis

lemma silent_append: "length cs = k \<Longrightarrow> silent k (cs @ ds) \<longleftrightarrow> \<not> rings cs"
  by (simp add: silent_def)

text \<open>The calls of an exchange that reads to the end, with where the signal can be.\<close>

lemma answered_calls:
  assumes "map fst cs = connected addr s req B @ (if force B = 0 then ns @ [0] else []) @ [c]" and "force B \<noteq> 0 \<Longrightarrow> ns = []"
    and "force B = 0 \<longrightarrow> silent (length (connected addr s req B @ ns)) cs"
  shows "\<exists>as ds b. cs = as @ ds @ [(c, b)] \<and> map fst as = connected addr s req B \<and>
    (if force B = 0 then \<not> rings as \<and> (\<exists>e. ds = quiet ns @ [(0, e)]) else ns = [] \<and> ds = [])"
proof (cases "force B = 0")
  case True
  then obtain as ds es where cs: "cs = as @ ds @ es" "map fst as = connected addr s req B" "map fst ds = ns" "map fst es = [0, c]"
    using map_fst_append3 [of cs "connected addr s req B" ns "[0, c]"] assms(1) by auto
  then obtain e b where es: "es = [(0, e), (c, b)]" by (auto simp: map_eq_Cons_conv)
  have "length (as @ ds) = length (connected addr s req B @ ns)" using cs by (metis length_map length_append)
  then have "\<not> rings (as @ ds)" using assms(3) True silent_append [of "as @ ds" _ es] cs(1) by simp
  then show ?thesis using cs es True not_rings [of ds] by (intro exI [of _ as] exI [of _ "ds @ [(0, e)]"] exI [of _ b]) auto
next
  case False
  then obtain as ds where "cs = as @ ds" "map fst as = connected addr s req B" "map fst ds = [c]"
    using map_fst_append [of cs "connected addr s req B" "[c]"] assms(1) by auto
  then show ?thesis using False assms(2) by (intro exI [of _ as] exI [of _ "[]"]) (auto simp: map_eq_Cons_conv)
qed

text \<open>The calls of one that is cut off: no read, or the signal with the last read.\<close>

lemma cut_calls:
  assumes "map fst cs = connected addr s req B @ ns @ [c]" and "timely req B (CutOff addr s ns c) cs"
  shows "\<exists>as ds b. cs = as @ ds @ [(c, b)] \<and> map fst as = connected addr s req B \<and>
    (ns = [] \<and> ds = [] \<and> rings as \<or> \<not> rings as \<and> (\<exists>ms n. ns = ms @ [n] \<and> ds = quiet ms @ [(n, True)]))"
proof -
  obtain as ds es where cs: "cs = as @ ds @ es" "map fst as = connected addr s req B" "map fst ds = ns" "map fst es = [c]"
    using map_fst_append3 [OF assms(1)] by auto
  then obtain b where es: "es = [(c, b)]" by (auto simp: map_eq_Cons_conv)
  have len: "length (as @ ds) = length (connected addr s req B @ ns)" using cs by (metis length_map length_append)
  then have r: "rings (as @ ds)" using assms(2) silent_append [of "as @ ds" _ es] cs(1) by (simp add: Let_def)
  show ?thesis
  proof (cases ns rule: rev_exhaust)
    case Nil
    then have "ds = []" using cs(3) by simp
    with r Nil cs es show ?thesis by (intro exI [of _ as] exI [of _ "[]"] exI [of _ b]) simp
  next
    case (snoc ms n)
    then obtain ds1 f where ds: "ds = ds1 @ [(n, f)]" "map fst ds1 = ms"
      using map_fst_append [of ds ms "[n]"] cs(3) by (auto simp: map_eq_Cons_conv)
    have "length (as @ ds1) = length (connected addr s req B @ ns) - 1" using len ds(1) by simp
    then have "\<not> rings (as @ ds1)" using assms(2) silent_append [of "as @ ds1" _ "(n, f) # es"] cs(1) ds(1) snoc by (simp add: Let_def)
    with r ds not_rings [of ds1] snoc cs es show ?thesis
      by (intro exI [of _ as] exI [of _ ds] exI [of _ b]) auto
  qed
qed

lemma attempt_exchange:
  assumes "todo P = cs @ rest" and "map fst cs = calls_of req (wb P) x" and "timely req (wb P) x cs" and "proper req (wb P) x"
    and "\<not> timerexpired (wb P)" and "small (wb P)" and "small (tally x (wb P))"
  shows "\<exists>P'. attempt name port req P = Some (Inr P') \<and> todo P' = rest \<and> after_exchange x (rings cs) P P'"
proof (cases x)
  case Unresolved
  then obtain a b where cs: "cs = [(-1, a), (0, b)]" using assms(2) by (auto simp: map_eq_Cons_conv)
  have "failed (wb P) < INT_MAX" using small_tally(2) [OF assms(6,7)] Unresolved by simp
  with Unresolved assms(1,5,6) cs show ?thesis
    by (simp add: attempt_def Socket_def count_failed_round after_exchange_def tally_def ticked_def small_def)
next
  case (NoSocket addr s)
  then obtain as b where cs: "cs = as @ [(s, b)]" "map fst as = addr"
    using map_fst_append [of cs addr "[s]"] assms(2) by (auto simp: map_eq_Cons_conv)
  have "failed (wb P) < INT_MAX" using small_tally(2) [OF assms(6,7)] NoSocket by simp
  with NoSocket assms(1,4,5,6) cs Socket_round [of P as s b rest addr name port] show ?thesis
    by (simp add: attempt_def Let_def count_failed_round after_exchange_def tally_def) (simp add: ticked_def)
next
  case (Refused addr s c)
  then obtain as b d where cs: "cs = as @ [(s, b), (c, d)]" "map fst as = addr"
    using map_fst_append [of cs addr "[s, c]"] assms(2) by (auto simp: map_eq_Cons_conv)
  have "failed (wb P) < INT_MAX" using small_tally(2) [OF assms(6,7)] Refused by simp
  with Refused assms(1,4,5,6) cs Socket_round [of P as s b "(c, d) # rest" addr name port] show ?thesis
    by (simp add: attempt_def Let_def count_failed_round after_exchange_def tally_def disj_assoc) (simp add: ticked_def)
next
  case (ShortWrite addr s n c)
  then obtain as b where cs: "cs = as @ [(c, b)]" "map fst as = addr @ [s, 0, n]"
    using map_fst_append [of cs "addr @ [s, 0, n]" "[c]"] assms(2) by (auto simp: map_eq_Cons_conv)
  obtain Q where Q: "attempt name port req P = give_up s Q" "todo Q = (c, b) # rest" "open_socks Q = s # open_socks P"
    "wb Q = ticked (rings as) (wb P)"
    using connects_round [of P as "(c, b) # rest" addr s n name port req] assms(1,4) ShortWrite cs by auto
  have "small (wb Q)" "failed (wb Q) < INT_MAX" using assms(6) small_tally(2) [OF assms(6,7)] ShortWrite Q(4) by simp_all
  from give_up_round [OF Q(2) this, of s] Q show ?thesis using ShortWrite assms(5) cs(1)
    by (auto simp: after_exchange_def tally_def ticked_def)
next
  case (ShutdownFails addr s r c)
  then obtain as b d where cs: "cs = as @ [(r, b), (c, d)]" "map fst as = addr @ [s, 0, int (length req)]"
    using map_fst_append [of cs "addr @ [s, 0, int (length req)]" "[r, c]"] assms(2) by (auto simp: map_eq_Cons_conv)
  obtain Q where Q: "attempt name port req P = give_up s Q" "todo Q = (c, d) # rest" "open_socks Q = s # open_socks P"
    "wb Q = ticked (rings as \<or> b) (wb P)"
    using connects_round [of P as "(r, b) # (c, d) # rest" addr s "int (length req)" name port req] assms(1,4) ShutdownFails cs
    by auto
  have "small (wb Q)" "failed (wb Q) < INT_MAX" using assms(6) small_tally(2) [OF assms(6,7)] ShutdownFails Q(4) by simp_all
  from give_up_round [OF Q(2) this, of s] Q show ?thesis using ShutdownFails assms(5) cs(1)
    by (auto simp: after_exchange_def tally_def ticked_def)
next
  case (ReadFails addr s ns r c)
  then obtain as ds es where cs: "cs = as @ ds @ es" "map fst as = connected addr s req (wb P)" "map fst ds = ns"
    "map fst es = [r, c]" using map_fst_append3 [of cs "connected addr s req (wb P)" ns "[r, c]"] assms(2) by auto
  then obtain b d where es: "es = [(r, b), (c, d)]" by (auto simp: map_eq_Cons_conv)
  have "length (as @ ds) = length (connected addr s req (wb P) @ ns)" using cs by (metis length_map length_append)
  then have q: "\<not> rings as" "ds = quiet ns"
    using assms(3) silent_append [of "as @ ds" _ es] cs(1,3) not_rings [of ds] ReadFails by auto
  have "todo P = as @ ds @ (r, b) # (c, d) # rest" using assms(1) cs(1) es by simp
  then obtain Q where Q: "attempt name port req P = wthen (read_answer Q) (\<lambda>(good, P). if good then finish s P else give_up s P)"
    "todo Q = quiet ns @ (r, b) # (c, d) # rest" "open_socks Q = s # open_socks P" "wb Q = ticked False (wb P)"
    using sends_round [of P as "ds @ (r, b) # (c, d) # rest" addr s req name port] assms(4) cs(2) q ReadFails by auto
  obtain R where R: "read_answer Q = returns (False, R)" "todo R = (c, d) # rest" "open_socks R = open_socks Q"
    "wb R = (ticked b (wb Q))\<lparr>bytes := bytes (wb Q) + sum_list ns\<rparr>"
    using reads_good [OF Q(2)] assms(4-6) small_reads [OF assms(6,7)] ReadFails Q(4) by auto
  have "small (wb R)" "failed (wb R) < INT_MAX"
    using assms(6,7) small_tally(2) [OF assms(6,7)] ReadFails R(4) Q(4) by (auto simp: small_def tally_def)
  from give_up_round [OF R(2) this, of s] Q R show ?thesis using ReadFails assms(5) cs(1) es q(1) by (auto simp: q(2) after_exchange_def tally_def ticked_def)
next
  case (CloseFails addr s ns c)
  obtain as ds b where cs: "cs = as @ ds @ [(c, b)]" "map fst as = connected addr s req (wb P)"
    "if force (wb P) = 0 then \<not> rings as \<and> (\<exists>e. ds = quiet ns @ [(0, e)]) else ns = [] \<and> ds = []"
    using answered_calls [of cs addr s req "wb P" ns c] assms(2-4) CloseFails by auto
  have "todo P = as @ ds @ (c, b) # rest" using assms(1) cs(1) by simp
  moreover have "found addr" "0 \<le> s" "\<forall>n \<in> set ns. 0 < n" "bytes (wb P) + sum_list ns \<le> INT_MAX"
    using assms(4) small_reads [OF assms(6,7)] CloseFails by auto
  ultimately obtain R where R: "attempt name port req P = finish s R" "todo R = (c, b) # rest" "open_socks R = s # open_socks P"
      "wb R = (ticked (rings (as @ ds)) (wb P))\<lparr>bytes := bytes (wb P) + sum_list ns\<rparr>"
    using answer_round [OF _ cs(2) _ _ _ assms(5,6) _ cs(3)] by metis
  have "small (wb R)" "failed (wb R) < INT_MAX"
    using assms(6,7) small_tally(2) [OF assms(6,7)] CloseFails R(4) by (auto simp: small_def tally_def)
  from finish_round [OF R(2) this(1), of s] this(2) R assms(4,5) CloseFails cs(1) show ?thesis
    by (auto simp: after_exchange_def tally_def ticked_def)
next
  case (Served addr s ns)
  obtain as ds b where cs: "cs = as @ ds @ [(0, b)]" "map fst as = connected addr s req (wb P)"
    "if force (wb P) = 0 then \<not> rings as \<and> (\<exists>e. ds = quiet ns @ [(0, e)]) else ns = [] \<and> ds = []"
    using answered_calls [of cs addr s req "wb P" ns 0] assms(2-4) Served by auto
  have "todo P = as @ ds @ (0, b) # rest" using assms(1) cs(1) by simp
  moreover have "found addr" "0 \<le> s" "\<forall>n \<in> set ns. 0 < n" "bytes (wb P) + sum_list ns \<le> INT_MAX"
    using assms(4) small_reads [OF assms(6,7)] Served by auto
  ultimately obtain R where R: "attempt name port req P = finish s R" "todo R = (0, b) # rest" "open_socks R = s # open_socks P"
      "wb R = (ticked (rings (as @ ds)) (wb P))\<lparr>bytes := bytes (wb P) + sum_list ns\<rparr>"
    using answer_round [OF _ cs(2) _ _ _ assms(5,6) _ cs(3)] by metis
  have "small (wb R)" "speed (wb R) < INT_MAX"
    using assms(6,7) small_tally(1) [OF assms(6,7)] Served R(4) by (auto simp: small_def tally_def)
  from finish_round [OF R(2) this(1), of s] this(2) R assms(5) Served cs(1) show ?thesis
    by (auto simp: after_exchange_def tally_def ticked_def)
next
  case (CutOff addr s ns c)
  obtain as ds b where cs: "cs = as @ ds @ [(c, b)]" "map fst as = connected addr s req (wb P)"
    "ns = [] \<and> ds = [] \<and> rings as \<or> \<not> rings as \<and> (\<exists>ms n. ns = ms @ [n] \<and> ds = quiet ms @ [(n, True)])"
    using cut_calls [of cs addr s req "wb P" ns c] assms(2,3) CutOff by auto
  have p: "force (wb P) = 0" "found addr" "0 \<le> s" "\<forall>n \<in> set ns. 0 < n" using assms(4) CutOff by auto
  have "todo P = as @ ds @ (c, b) # rest" using assms(1) cs(1) by simp
  then obtain Q where Q: "attempt name port req P = wthen (read_answer Q) (\<lambda>(good, P). if good then finish s P else give_up s P)"
    "todo Q = ds @ (c, b) # rest" "open_socks Q = s # open_socks P" "wb Q = ticked (rings as) (wb P)"
    using sends_round [of P as "ds @ (c, b) # rest" addr s req name port] cs(2) p by auto
  have "\<exists>R. read_answer Q = returns (True, R) \<and> todo R = (c, b) # rest \<and> open_socks R = open_socks Q \<and>
    wb R = (ticked True (wb P))\<lparr>bytes := bytes (wb P) + sum_list ns\<rparr>"
  proof (cases "ns = []")
    case True
    then show ?thesis using cs(3) Q read_expired [of Q] by (intro exI [of _ Q]) (auto simp: ticked_def)
  next
    case False
    then obtain ms n where m: "\<not> rings as" "ns = ms @ [n]" "ds = quiet ms @ [(n, True)]" using cs(3) by blast
    then have "todo Q = quiet ms @ (n, True) # (c, b) # rest" using Q(2) by simp
    from reads_cut [OF this] show ?thesis
      using p(4) assms(5,6) small_reads [OF assms(6,7)] Q(4) m CutOff by (auto simp: ticked_def add.assoc)
  qed
  then obtain R where R: "read_answer Q = returns (True, R)" "todo R = (c, b) # rest" "open_socks R = open_socks Q"
    "wb R = (ticked True (wb P))\<lparr>bytes := bytes (wb P) + sum_list ns\<rparr>" by blast
  have r: "rings cs" using cs(1,3) by auto
  have "small (wb R)" "c = 0 \<Longrightarrow> speed (wb R) < INT_MAX" "c \<noteq> 0 \<Longrightarrow> failed (wb R) < INT_MAX"
    using assms(6,7) small_tally [OF assms(6,7)] CutOff R(4) by (auto simp: small_def tally_def)
  from finish_round [OF R(2) this, of s] R Q r CutOff show ?thesis
    by (auto simp: after_exchange_def tally_def ticked_def)
qed

section \<open>A whole run\<close>

fun tally_all :: "exchange list \<Rightarrow> webbench \<Rightarrow> webbench" where
  "tally_all [] B = B"
| "tally_all (x # xs) B = tally_all xs (tally x B)"

lemma tally_kept [simp]:
  "http10 (tally x B) = http10 B" "force (tally x B) = force B" "timerexpired (tally x B) = timerexpired B"
  by (simp_all add: tally_def)

lemma tally_all_counts:
  "speed (tally_all xs B) = speed B + int (length (filter good xs))"
  "failed (tally_all xs B) = failed B + int (length (filter (\<lambda>x. \<not> good x) xs))"
  "bytes (tally_all xs B) = bytes B + sum_list (map received_bytes xs)"
  by (induction xs arbitrary: B) (simp_all add: tally_def)

lemma calls_of_cong: "http10 B' = http10 B \<Longrightarrow> force B' = force B \<Longrightarrow> calls_of req B' x = calls_of req B x"
  by (cases x) (simp_all add: connected_def)

lemma proper_cong: "http10 B' = http10 B \<Longrightarrow> force B' = force B \<Longrightarrow> proper req B' x = proper req B x"
  by (cases x) simp_all

lemma timely_cong: "http10 B' = http10 B \<Longrightarrow> force B' = force B \<Longrightarrow> timely req B' x = timely req B x"
  by (cases x) (simp_all add: connected_def fun_eq_iff)

lemma positive_sum: "\<forall>n \<in> set ns. 0 < n \<Longrightarrow> 0 \<le> sum_list ns" for ns :: "int list"
  by (intro sum_list_nonneg) auto

lemma received_nonneg: "proper req B x \<Longrightarrow> 0 \<le> received_bytes x"
  by (cases x) (auto dest!: positive_sum)

lemma small_prefix:
  assumes "small B" and "small (tally_all (x # xs) B)" and "\<forall>y \<in> set (x # xs). proper req B y"
  shows "small (tally x B)"
proof -
  have "0 \<le> sum_list (map received_bytes xs)" using assms(3) received_nonneg by (intro sum_list_nonneg) auto
  moreover have "0 \<le> received_bytes x" using assms(3) received_nonneg [of req B x] by simp
  ultimately show ?thesis
    using assms(1,2) unfolding small_def tally_all.simps(2) tally_all_counts by (auto simp: tally_def)
qed

text \<open>Cut off by the signal: not before the last exchange.\<close>

fun cut :: "exchange \<Rightarrow> bool" where
  "cut (CutOff _ _ _ _) = True"
| "cut _ = False"

lemma timely_quiet: "\<not> cut x \<Longrightarrow> timely req B x (quiet rs)"
  by (cases x) (simp_all add: silent_def quiet_def rings_def take_map)

lemma bench_loop_exchanges:
  assumes "todo P = concat (map (\<lambda>x. quiet (calls_of req (wb P) x)) xs) @ cs @ rest"
    and "map fst cs = calls_of req (wb P) y" and "rings cs" and "timely req (wb P) y cs"
    and "\<forall>x \<in> set (xs @ [y]). proper req (wb P) x" and "\<forall>x \<in> set xs. \<not> cut x" and "\<not> timerexpired (wb P)"
    and "small (wb P)" and "small (tally_all (xs @ [y]) (wb P))"
  shows "\<exists>P'. bench_loop name port req P = returns (correct_failed P') \<and> todo P' = rest \<and>
    open_socks P' = concat (rev (map leaked (xs @ [y]))) @ open_socks P \<and>
    wb P' = (tally_all (xs @ [y]) (wb P))\<lparr>timerexpired := True\<rparr>"
  using assms
proof (induction xs arbitrary: P)
  case Nil
  have "small (tally y (wb P))" using Nil.prems(9) by simp
  with Nil.prems obtain Q where "attempt name port req P = Some (Inr Q)" "todo Q = rest" "after_exchange y True P Q"
    using attempt_exchange [of P cs rest req y name port] by auto
  then show ?case using Nil.prems(7)
    by (intro exI [of _ Q]) (simp add: bench_loop.simps [of _ _ _ P] bench_loop.simps [of _ _ _ Q] after_exchange_def)
next
  case (Cons x xs)
  have s: "small (tally x (wb P))" using small_prefix [of "wb P" x "xs @ [y]" req] Cons.prems(5,8,9) by simp
  have t: "timely req (wb P) x (quiet (calls_of req (wb P) x))" using Cons.prems(6) by (intro timely_quiet) simp
  obtain Q where Q: "attempt name port req P = Some (Inr Q)"
      "todo Q = concat (map (\<lambda>x. quiet (calls_of req (wb P) x)) xs) @ cs @ rest" "after_exchange x False P Q"
    using attempt_exchange [of P "quiet (calls_of req (wb P) x)" _ req x name port, OF _ _ t] Cons.prems s by auto
  have wb: "wb Q = tally x (wb P)" using Q(3) Cons.prems(7) not_expired [of "tally x (wb P)"] by (simp add: after_exchange_def)
  then have c: "calls_of req (wb Q) = calls_of req (wb P)" "proper req (wb Q) = proper req (wb P)"
    by (auto intro!: ext calls_of_cong proper_cong)
  have ty: "timely req (wb Q) y = timely req (wb P) y" by (rule timely_cong) (simp_all add: wb)
  have "\<exists>P'. bench_loop name port req Q = returns (correct_failed P') \<and> todo P' = rest \<and>
    open_socks P' = concat (rev (map leaked (xs @ [y]))) @ open_socks Q \<and>
    wb P' = (tally_all (xs @ [y]) (wb Q))\<lparr>timerexpired := True\<rparr>"
    using Q(2) Cons.prems c ty wb s by (intro Cons.IH) auto
  then obtain P' where "bench_loop name port req Q = returns (correct_failed P')" "todo P' = rest"
    "open_socks P' = concat (rev (map leaked (xs @ [y]))) @ open_socks Q"
    "wb P' = (tally_all (xs @ [y]) (wb Q))\<lparr>timerexpired := True\<rparr>" by blast
  then show ?case using Q(1,3) wb Cons.prems(7)
    by (intro exI [of _ P']) (simp add: bench_loop.simps [of _ _ _ P] after_exchange_def)
qed

text \<open>C36: a client counts what happened. Whatever the exchanges before the alarm are, and at whichever call of the last
  exchange the alarm comes, \<open>benchcore\<close> returns when that exchange is over; \<open>speed\<close> is the number of exchanges that went
  well, \<open>bytes\<close> what all of them read, and \<open>failed\<close> the number of the others, less one when there is any: the code takes the
  last failure for the work of the signal, whether or not the signal made a call fail. An exchange whose answer the
  alarm cuts off, even before the first read, counts as one that went well if its \<open>close\<close> succeeds. Every socket is closed
  except those whose \<open>connect\<close> failed.\<close>

theorem benchcore_counts:
  assumes "todo P = (0, False) # concat (map (\<lambda>x. quiet (calls_of req (wb P) x)) xs) @ cs @ rest"
    and "map fst cs = calls_of req (wb P) y" and "rings cs" and "timely req (wb P) y cs"
    and "\<forall>x \<in> set (xs @ [y]). proper req (wb P) x" and "\<forall>x \<in> set xs. \<not> cut x" and "\<not> timerexpired (wb P)"
    and "speed (wb P) = 0" and "failed (wb P) = 0" and "bytes (wb P) = 0"
    and "int (length (xs @ [y])) \<le> INT_MAX" and "sum_list (map received_bytes (xs @ [y])) \<le> INT_MAX"
  shows "\<exists>P'. benchcore name port req P = returns P' \<and> todo P' = rest \<and>
    speed (wb P') = int (length (filter good (xs @ [y]))) \<and>
    failed (wb P') = int (length (filter (\<lambda>x. \<not> good x) (xs @ [y])) - 1) \<and>
    bytes (wb P') = sum_list (map received_bytes (xs @ [y])) \<and>
    open_socks P' = concat (rev (map leaked (xs @ [y]))) @ open_socks P"
proof -
  let ?xs = "xs @ [y]" and ?P = "P\<lparr>todo := tl (todo P)\<rparr>"
  have "int (length (filter good ?xs)) \<le> INT_MAX" "int (length (filter (\<lambda>x. \<not> good x) ?xs)) \<le> INT_MAX"
    using assms(11) length_filter_le [of good ?xs] length_filter_le [of "\<lambda>x. \<not> good x" ?xs] by linarith+
  moreover have "0 \<le> sum_list (map received_bytes ?xs)" using assms(5) received_nonneg by (intro sum_list_nonneg) auto
  ultimately have s: "small (tally_all ?xs (wb P))" unfolding small_def tally_all_counts using assms(8-10,12) by simp
  have "small (wb P)" using assms(8-10) by (simp add: small_def INT_MAX_def)
  with s assms(1-7) obtain P' where P': "bench_loop name port req ?P = returns (correct_failed P')" "todo P' = rest"
    "open_socks P' = concat (rev (map leaked ?xs)) @ open_socks P"
    "wb P' = (tally_all ?xs (wb P))\<lparr>timerexpired := True\<rparr>"
    using bench_loop_exchanges [of ?P req xs cs rest y name port] by auto
  have "benchcore name port req P = returns (correct_failed P')" using assms(1) P'(1) by (simp add: benchcore_def)
  moreover have "wb P' = (tally_all ?xs (wb P))\<lparr>timerexpired := True\<rparr>" by (rule P'(4))
  then have "speed (wb P') = int (length (filter good ?xs))" "failed (wb P') = int (length (filter (\<lambda>x. \<not> good x) ?xs))"
    "bytes (wb P') = sum_list (map received_bytes ?xs)" using assms(8-10) by (simp_all add: tally_all_counts)
  ultimately show ?thesis using P'(2,3) by (auto simp: correct_failed_def of_nat_diff)
qed

text \<open>The witness: a good exchange with a host \<open>gethostbyname\<close> finds, one refused, one without a socket, and one in which the signal
  comes with \<open>connect\<close>. The answer is not read, and the exchange counts as good. One of the two failures there were is not
  counted, though the signal made no call fail.\<close>

definition demo_client :: bench_proc where
  "demo_client =
     \<lparr>wb = webbench_start, todo = (0, False) # concat (map (\<lambda>x. quiet (calls_of ''GET'' webbench_start x))
        [Served [-1, 1] 4 [100, 20], Refused [1] 4 (-1), NoSocket [1] (-1)]) @ [(1, False), (5, False), (0, True), (3, False), (0, False)],
      open_socks = [], connects = [], wrote = [], piped = [], printed = []\<rparr>"

theorem benchcore_counts_witness:
  "\<exists>P'. benchcore ''h'' 80 ''GET'' demo_client = returns P' \<and> todo P' = [] \<and> speed (wb P') = 2 \<and> failed (wb P') = 1 \<and>
     bytes (wb P') = 120 \<and> open_socks P' = [4]"
  using benchcore_counts [of demo_client "''GET''" "[Served [-1, 1] 4 [100, 20], Refused [1] 4 (-1), NoSocket [1] (-1)]"
      "[(1, False), (5, False), (0, True), (3, False), (0, False)]" "[]" "CutOff [1] 5 [] 0" "''h''" 80]
  by (simp add: demo_client_def webbench_start_def INT_MAX_def connected_def found_def silent_def rings_def)

section \<open>The parent's sums\<close>

lemma is_digit_digit_char: "\<forall>c \<in> set (show_nat n). is_digit c"
proof (induction n rule: show_nat.induct)
  case (1 n)
  then show ?case by (subst show_nat.simps) (auto simp: digit_char_is_digit)
qed

lemma show_nat_nonempty: "show_nat n \<noteq> []"
  by (subst show_nat.simps) simp

lemma digit_not_space: "is_digit c \<Longrightarrow> \<not> is_space c \<and> c \<noteq> CHR ''-'' \<and> c \<noteq> CHR ''+''"
  by (auto simp: is_digit_def is_space_def)

lemma scan_digits_show:
  assumes "\<not> is_digit c" and "in_int (sign * int n)"
  shows "scan_digits sign (show_nat n @ c # r) = returns (Some (sign * int n, c # r))"
proof -
  have "takeWhile is_digit (show_nat n @ c # r) = show_nat n" "dropWhile is_digit (show_nat n @ c # r) = c # r"
    using assms(1) is_digit_digit_char [of n] by (simp_all add: takeWhile_append_stop dropWhile_append3)
  then show ?thesis using assms(2) show_nat_nonempty [of n] digits_value_show_nat [of n]
    by (simp add: scan_digits_def Let_def returns_def)
qed

text \<open>\<open>%d\<close> reads what \<open>%d\<close> has written.\<close>

lemma scan_int_show:
  assumes "\<forall>c \<in> set sp. is_space c" and "\<not> is_digit c" and "in_int n"
  shows "scan_int (sp @ show_int n @ c # r) = returns (Some (n, c # r))"
proof (cases "n < 0")
  case True
  have "\<not> is_space CHR ''-''" by code_simp
  then have "dropWhile is_space (sp @ show_int n @ c # r) = CHR ''-'' # show_nat (nat (- n)) @ c # r"
    using assms(1) True by (simp add: show_int_def)
  then show ?thesis using scan_digits_show [OF assms(2), of "-1" "nat (- n)" r] True assms(3) by (simp add: scan_int_def)
next
  case False
  obtain d ds where d: "show_nat (nat n) = d # ds" using show_nat_nonempty by (cases "show_nat (nat n)") auto
  then have "is_digit d" using is_digit_digit_char [of "nat n"] by simp
  then have "dropWhile is_space (sp @ show_int n @ c # r) = d # ds @ c # r"
    using assms(1) False d digit_not_space by (simp add: show_int_def)
  then show ?thesis using scan_digits_show [OF assms(2), of 1 "nat n" r] False assms(3) d digit_not_space [OF \<open>is_digit d\<close>]
    by (simp add: scan_int_def)
qed

lemma scan_three_report:
  assumes "\<forall>c \<in> set sp. is_space c" and "in_int (speed B)" and "in_int (failed B)" and "in_int (bytes B)"
  shows "scan_three (sp @ report B @ r) vars = returns (3, (speed B, failed B, Set (bytes B)), LF # r)"
proof -
  have n: "\<not> is_digit SP" "\<not> is_digit LF" "\<forall>c \<in> set '' ''. is_space c" by code_simp+
  show ?thesis
    using scan_int_show [OF assms(1) n(1) assms(2)] scan_int_show [OF n(3,1) assms(3)] scan_int_show [OF n(3,2) assms(4)]
    by (cases vars) (simp add: scan_three_def report_def)
qed

lemma scan_three_waits: "\<forall>c \<in> set sp. is_space c \<Longrightarrow> scan_three sp vars = None"
proof -
  assume "\<forall>c \<in> set sp. is_space c"
  then have "scan_int sp = None" unfolding scan_int_def by (simp add: dropWhile_eq_Nil_conv [THEN iffD2])
  then show ?thesis by (cases vars) (simp add: scan_three_def)
qed

lemma small_in_int: "small B \<Longrightarrow> in_int (speed B) \<and> in_int (failed B) \<and> in_int (bytes B)"
  by (simp add: small_def in_int_def INT_MIN_def)

text \<open>Sums the parent can form.\<close>

definition summed :: "webbench list \<Rightarrow> webbench \<Rightarrow> webbench" where
  "summed Bs B = B\<lparr>speed := speed B + sum_list (map speed Bs), failed := failed B + sum_list (map failed Bs),
     bytes := bytes B + sum_list (map bytes Bs), clients := clients B - int (length Bs)\<rparr>"

lemma summed_small:
  assumes "\<forall>C \<in> set (D # Ds). small C" and "small B" and "small (summed (D # Ds) B)" and "0 < clients B" and "clients B \<le> INT_MAX"
  shows "add_report (speed D, failed D, Set (bytes D)) B = Inr (summed [D] B)" and "small (summed [D] B)"
proof -
  have "0 \<le> sum_list (map speed Ds)" "0 \<le> sum_list (map failed Ds)" "0 \<le> sum_list (map bytes Ds)"
    using assms(1) by (auto intro!: sum_list_nonneg simp: small_def)
  moreover have "small D" using assms(1) by simp
  ultimately show "small (summed [D] B)" using assms(2,3) by (auto simp: small_def summed_def)
  then show "add_report (speed D, failed D, Set (bytes D)) B = Inr (summed [D] B)"
    using assms(4,5) by (simp add: add_report_def add_int_def in_int_def INT_MIN_def small_def summed_def)
qed

lemma parent_loop_reports:
  assumes "\<forall>c \<in> set sp. is_space c" and "\<forall>C \<in> set Bs. small C" and "small B" and "small (summed Bs B)"
    and "int (length Bs) \<le> clients B" and "0 < clients B" and "clients B \<le> INT_MAX"
  shows "parent_loop vars B (sp @ concat (map report Bs)) =
    (if int (length Bs) = clients B then returns (speed (last Bs), summed Bs B) else None)"
  using assms
proof (induction Bs arbitrary: sp vars B)
  case Nil
  then show ?case by (simp add: parent_loop.simps [of vars] scan_three_waits)
next
  case (Cons D Ds)
  have D: "small D" using Cons.prems(2) by simp
  have sum: "summed Ds (summed [D] B) = summed (D # Ds) B" by (simp add: summed_def)
  note s = summed_small [OF Cons.prems(2-4,6,7)]
  have "parent_loop vars B (sp @ concat (map report (D # Ds))) =
      (if clients B = 1 then returns (speed D, summed [D] B)
       else parent_loop (speed D, failed D, Set (bytes D)) (summed [D] B) (LF # concat (map report Ds)))"
    using scan_three_report [OF Cons.prems(1), of D "concat (map report Ds)" vars] small_in_int [OF D] s(1)
    by (simp add: parent_loop.simps [of vars]) (simp add: returns_def summed_def)
  also have "\<dots> = (if int (length (D # Ds)) = clients B then returns (speed (last (D # Ds)), summed (D # Ds) B) else None)"
  proof (cases "clients B = 1")
    case True
    with Cons.prems(5) show ?thesis by (simp add: summed_def)
  next
    case False
    have "\<forall>c \<in> set [LF]. is_space c" by code_simp
    moreover have "small (summed Ds (summed [D] B))" using Cons.prems(4) sum by simp
    moreover have "int (length Ds) \<le> clients (summed [D] B)" "0 < clients (summed [D] B)" "clients (summed [D] B) \<le> INT_MAX"
      using Cons.prems(5-7) False by (simp_all add: summed_def)
    ultimately have "parent_loop (speed D, failed D, Set (bytes D)) (summed [D] B) ([LF] @ concat (map report Ds)) =
        (if int (length Ds) = clients (summed [D] B) then returns (speed (last Ds), summed Ds (summed [D] B)) else None)"
      using Cons.prems(2) s(2) by (intro Cons.IH) simp_all
    then show ?thesis using False Cons.prems(5,6) sum by (cases Ds) (auto simp: summed_def)
  qed
  finally show ?case .
qed

lemma fork_loop_all:
  assumes "todo P = quiet pids @ rest" and "\<forall>p \<in> set pids. 0 < p" and "i + int (length pids) = clients (wb P)"
  shows "\<exists>P'. fork_loop i pid P = returns (clients (wb P), last (pid # pids), P') \<and> todo P' = rest \<and> wb P' = wb P"
  using assms
proof (induction pids arbitrary: i pid P)
  case Nil
  then show ?case by (subst fork_loop.simps) (simp add: quiet_def)
next
  case (Cons p pids)
  then have "\<exists>P'. fork_loop (i + 1) p (P\<lparr>todo := quiet pids @ rest\<rparr>) =
      returns (clients (wb P), last (p # pids), P') \<and> todo P' = rest \<and> wb P' = wb P"
    using Cons.IH [of "P\<lparr>todo := quiet pids @ rest\<rparr>" "i + 1" p] by simp
  with Cons.prems show ?case by (simp add: fork_loop.simps [of i] quiet_def)
qed

text \<open>C37: the parent adds up exactly what the children counted, in whatever order their lines reach the pipe: \<open>fscanf\<close> reads
  the numbers \<open>fprintf\<close> wrote. It returns the speed of the child that reported last, not 0. When a child
  never reports, \<open>bench\<close> waits for ever: the parent holds the writing end of the pipe open, so the end of file the code tests
  for never comes.\<close>

theorem bench_sums:
  assumes "target_name (wb P) = Inr name" and "todo P = quiet ([addr, s, 0, c, 0] @ pids @ [f]) @ rest"
    and "addr \<noteq> -1" and "0 \<le> s" and "\<forall>p \<in> set pids. 0 < p" and "f \<noteq> 0"
    and "clients (wb P) = int (length pids)" and "pids \<noteq> []" and "int (length pids) \<le> INT_MAX"
    and "\<forall>B \<in> set Bs. small B" and "sum_list (map speed Bs) \<le> INT_MAX" and "sum_list (map failed Bs) \<le> INT_MAX"
    and "sum_list (map bytes Bs) \<le> INT_MAX"
  shows "(length Bs = length pids \<longrightarrow>
      (\<exists>P'. bench (concat (map report Bs)) P = returns (speed (last Bs), P') \<and> speed (wb P') = sum_list (map speed Bs) \<and>
        failed (wb P') = sum_list (map failed Bs) \<and> bytes (wb P') = sum_list (map bytes Bs))) \<and>
    (length Bs < length pids \<longrightarrow> bench (concat (map report Bs)) P = None)"
proof -
  let ?P = "P\<lparr>connects := connects P @ [(name, proxyport (wb P))], todo := quiet (pids @ [f]) @ rest\<rparr>"
  obtain Q where Q: "fork_loop 0 0 ?P = returns (clients (wb P), last (0 # pids), Q)" "todo Q = (f, False) # rest" "wb Q = wb P"
    using fork_loop_all [of ?P pids "(f, False) # rest" 0 0] assms(5,7) by (auto simp: quiet_def)
  have "last (0 # pids) \<in> set pids" using assms(8) by simp
  then have "0 < last (0 # pids)" using assms(5) by blast
  then have b: "bench r P = run_bench_parent r (clients (wb P)) Q" for r
    using Q(1) assms(1-4) by (simp add: bench_def Socket_def close_socket_def quiet_def)
  let ?B = "(wb P)\<lparr>speed := 0, failed := 0, bytes := 0\<rparr>"
  have "0 \<le> sum_list (map speed Bs)" "0 \<le> sum_list (map failed Bs)" "0 \<le> sum_list (map bytes Bs)"
    using assms(10) by (auto intro!: sum_list_nonneg simp: small_def)
  then have sm: "small ?B" "small (summed Bs ?B)" using assms(11-13) by (simp_all add: small_def summed_def INT_MAX_def)
  have loop: "parent_loop (clients (wb P), 0, Unset) ?B (concat (map report Bs)) =
      (if int (length Bs) = clients ?B then returns (speed (last Bs), summed Bs ?B) else None)" if "length Bs \<le> length pids"
    using parent_loop_reports [of "[]" Bs ?B "(clients (wb P), 0, Unset)"] sm assms(7-10) that by simp
  show ?thesis
  proof (intro conjI impI)
    assume "length Bs = length pids"
    with b loop Q(2,3) assms(6,7)
    show "\<exists>P'. bench (concat (map report Bs)) P = returns (speed (last Bs), P') \<and> speed (wb P') = sum_list (map speed Bs) \<and>
        failed (wb P') = sum_list (map failed Bs) \<and> bytes (wb P') = sum_list (map bytes Bs)"
      by (simp add: run_bench_parent_def summed_def)
  next
    assume "length Bs < length pids"
    with b loop Q(2,3) assms(6,7) show "bench (concat (map report Bs)) P = None" by (simp add: run_bench_parent_def)
  qed
qed

definition demo_parent :: bench_proc where
  "demo_parent =
     \<lparr>wb = webbench_start\<lparr>clients := 2, host := padded 64 ''h''\<rparr>, todo = quiet [1, 4, 0, 0, 0, 101, 102, 1],
      open_socks = [], connects = [], wrote = [], piped = [], printed = []\<rparr>"

theorem bench_sums_witness:
  "(\<exists>P'. bench (''7 1 700'' @ [LF] @ ''5 0 900'' @ [LF]) demo_parent = returns (5, P') \<and> speed (wb P') = 12 \<and> failed (wb P') = 1 \<and>
     bytes (wb P') = 1600) \<and> bench (''7 1 700'' @ [LF]) demo_parent = None"
proof -
  let ?B = "webbench_start\<lparr>speed := 7, failed := 1, bytes := 700\<rparr>" and ?C = "webbench_start\<lparr>speed := 5, failed := 0, bytes := 900\<rparr>"
  have t: "target_name (wb demo_parent) = Inr ''h''" "report ?B = ''7 1 700'' @ [LF]" "report ?C = ''5 0 900'' @ [LF]" by code_simp+
  have w: "todo demo_parent = quiet ([1, 4, 0, 0, 0] @ [101, 102] @ [1]) @ []" "clients (wb demo_parent) = int (length [101, 102 :: int])"
    by (simp_all add: demo_parent_def quiet_def)
  have s: "small ?B" "small ?C" by (simp_all add: small_def INT_MAX_def)
  have "\<exists>P'. bench (concat (map report [?B, ?C])) demo_parent = returns (5, P') \<and> speed (wb P') = 12 \<and> failed (wb P') = 1 \<and> bytes (wb P') = 1600"
    using bench_sums [OF t(1) w(1) _ _ _ _ w(2), of "[?B, ?C]"] s by (simp add: INT_MAX_def)
  moreover have "bench (concat (map report [?B])) demo_parent = None"
    using bench_sums [OF t(1) w(1) _ _ _ _ w(2), of "[?B]"] s by (simp add: INT_MAX_def)
  ultimately show ?thesis using t(2,3) by simp
qed

end
