(* ===== verification/WebBenchServer.thy ===== *)
theory WebBenchServer
  imports Session WebBenchCount
begin

text \<open>
  The load generator and the main server: what the requests of \<open>build_request\<close> look like to the server's parsers, and
  that a complete answer counts as a success whatever it says.
\<close>

section \<open>The request\<close>

lemma request_text_string:
  assumes "NUL \<notin> set target" and "NUL \<notin> set h" and "length target \<le> 1500" and "length h < MAXHOSTNAMELEN"
  shows "NUL \<notin> set (request_text m v target (Some h) reload)" and "length (request_text m v target (Some h) reload) < REQUEST_SIZE"
proof -
  have "length (method_name m) \<le> 7" "length (version_text v) \<le> 9" by (rule method_name_bound piece_bounds)+
  then show "length (request_text m v target (Some h) reload) < REQUEST_SIZE"
    using assms(3,4) by (simp add: request_text_def REQUEST_SIZE_def MAXHOSTNAMELEN_def piece_bounds(4,6,8,10))
  show "NUL \<notin> set (request_text m v target (Some h) reload)"
    using assms(1,2) method_name_bound(2) [of m] by (simp add: request_text_def piece_bounds)
qed

text \<open>A URL of this server that fits into the arrays of \<open>build_request\<close>, with its host and its path.\<close>

definition fits :: "string \<Rightarrow> string \<Rightarrow> string \<Rightarrow> bool" where
  "fits target h path \<longleftrightarrow> (\<exists>scheme port. target = scheme @ h @ port @ path \<and> same_nocase scheme ''http://'' \<and>
     authority h port \<and> length port \<le> 10) \<and> length h < MAXHOSTNAMELEN \<and> one_line target \<and> length target \<le> 1500 \<and> plain_url path"

lemma fits_request:
  assumes "fits target h path" and "proxyhost B = None"
  defines "req \<equiv> request_text (wb_method B) (http10 (raise_version B)) path (Some h) (force_reload B \<noteq> 0)"
  shows "\<exists>B'. build_request target B = Inr B' \<and> request_string B' = Inr req \<and> speed B' = speed B \<and> failed B' = failed B \<and>
    bytes B' = bytes B \<and> timerexpired B' = timerexpired B \<and> http10 B' = http10 (raise_version B)"
proof -
  obtain scheme port p where u: "target = scheme @ h @ port @ CHR ''/'' # p" "same_nocase scheme ''http://''" "authority h port"
    "length port \<le> 10" and path: "path = CHR ''/'' # p"
    using assms(1) by (cases path) (auto simp: fits_def plain_url_def)
  have n: "NUL \<notin> set target" "length target \<le> 1500" "length h < MAXHOSTNAMELEN"
    using assms(1) by (simp_all add: fits_def one_line_def)
  let ?B = "(raise_version B)\<lparr>host := padded MAXHOSTNAMELEN h, proxyport := port_of port (proxyport B), request := padded REQUEST_SIZE req\<rparr>"
  have b: "build_request target B = Inr ?B"
    using direct_request [OF u(1-3) n(1,2) assms(2)] u(4) n(3) by (simp add: req_def path)
  have "NUL \<notin> set path" "NUL \<notin> set h" "length path \<le> 1500" using n u(1) path by simp_all
  from request_text_string [OF this(1,2,3) n(3), of "wb_method B" "http10 (raise_version B)" "force_reload B \<noteq> 0"]
  have "request_string ?B = Inr req" using cstr_zeroed(1) [of req REQUEST_SIZE] by (simp add: request_string_def req_def)
  with b show ?thesis by (intro exI [of _ ?B]) simp
qed

section \<open>GET over HTTP/1.1\<close>

definition webbench_headers :: "string \<Rightarrow> string list" where
  "webbench_headers h = [''User-Agent: WebBench 1.5'', ''Host: '' @ h, ''Connection: close'']"

lemma get_text:
  "request_text METHOD_GET 2 path (Some h) reload = get_request path (webbench_headers h)"
  by (simp add: request_text_def get_request_def webbench_headers_def method_name_def METHOD_GET_def METHOD_HEAD_def METHOD_OPTIONS_def
      METHOD_TRACE_def version_text_def user_agent_line_def host_prefix_def close_line_def)

lemma header_shapes:
  assumes "one_line h"
  shows "\<forall>l \<in> set (webbench_headers h). plain_header l" and "\<not> (\<exists>l \<in> set (webbench_headers h). keeps_alive l)"
proof -
  have a: "plain_header ''User-Agent: WebBench 1.5''" "plain_header ''Connection: close''" "\<not> keeps_alive ''User-Agent: WebBench 1.5''"
    "\<not> keeps_alive ''Connection: close''" by code_simp+
  have lower: "tolower CHR ''H'' = CHR ''h''" "tolower CHR ''C'' = CHR ''c''" by code_simp+
  have "plain_header (''Host: '' @ h)" "\<not> keeps_alive (''Host: '' @ h)"
    using assms by (auto simp: plain_header_def keeps_alive_def same_nocase_def one_line_def lower)
  with a show "\<forall>l \<in> set (webbench_headers h). plain_header l" "\<not> (\<exists>l \<in> set (webbench_headers h). keeps_alive l)"
    by (simp_all add: webbench_headers_def)
qed

section \<open>Any other request\<close>

definition version_of :: "int \<Rightarrow> string option" where
  "version_of v = (if v = 1 then Some ''HTTP/1.0'' else if v = 2 then Some ''HTTP/1.1'' else None)"

lemma other_text:
  "\<exists>t. request_text m v path (Some h) reload = line_of (method_name m) path (version_of v) @ CR # LF # t"
  by (auto simp: request_text_def line_of_def version_of_def version_text_def)

lemma method_shapes:
  "no_blank (method_name m)" "one_line (method_name m)"
  "m \<in> {METHOD_HEAD, METHOD_OPTIONS, METHOD_TRACE} \<Longrightarrow>
     \<not> (same_nocase (method_name m) ''GET'' \<or> same_nocase (method_name m) ''POST'')"
proof -
  have "\<forall>s \<in> {''HEAD'', ''OPTIONS'', ''TRACE'', ''GET''}. no_blank s \<and> one_line s" by code_simp
  moreover have "\<forall>s \<in> {''HEAD'', ''OPTIONS'', ''TRACE''}. \<not> (same_nocase s ''GET'' \<or> same_nocase s ''POST'')" by code_simp
  ultimately show "no_blank (method_name m)" "one_line (method_name m)"
    "m \<in> {METHOD_HEAD, METHOD_OPTIONS, METHOD_TRACE} \<Longrightarrow>
     \<not> (same_nocase (method_name m) ''GET'' \<or> same_nocase (method_name m) ''POST'')"
    by (auto simp: method_name_def METHOD_HEAD_def METHOD_OPTIONS_def METHOD_TRACE_def)
qed

lemma version_shapes:
  "version_of v = Some s \<Longrightarrow> no_blank s \<and> one_line s" "v \<noteq> 2 \<Longrightarrow> version_of v = Some s \<Longrightarrow> \<not> same_nocase s ''HTTP/1.1''"
proof -
  have "\<forall>s \<in> {''HTTP/1.0'', ''HTTP/1.1''}. no_blank s \<and> one_line s" "\<not> same_nocase ''HTTP/1.0'' ''HTTP/1.1''" by code_simp+
  then show "version_of v = Some s \<Longrightarrow> no_blank s \<and> one_line s"
    "v \<noteq> 2 \<Longrightarrow> version_of v = Some s \<Longrightarrow> \<not> same_nocase s ''HTTP/1.1''"
    by (auto simp: version_of_def split: if_splits)
qed

lemma other_refused:
  assumes "plain_url path" and "m \<in> {METHOD_HEAD, METHOD_OPTIONS, METHOD_TRACE} \<or> v \<noteq> 2"
    and "request_text m v path (Some h) reload = req" and "length req < READ_BUFFER_SIZE" and "m_file_address c = Set None"
  shows "process_ready os (received req (init c)) bad_request_page [] False"
proof -
  obtain t where t: "req = line_of (method_name m) path (version_of v) @ CR # LF # t" using other_text assms(3) by metis
  have l: "one_line (line_of (method_name m) path (version_of v))"
    using method_shapes(2) [of m] version_shapes(1) [of v] assms(1)
    by (cases "version_of v") (auto simp: line_of_def one_line_def plain_url_def)
  have r: "refused (method_name m) (version_of v)"
    using assms(2) method_shapes(3) [of m] version_shapes(2) [of v] by (cases "version_of v") (auto simp: refused_def)
  have p: "no_blank path" "path \<noteq> []" using assms(1) by (simp_all add: plain_url_def no_blank_def)
  have "\<forall>s. version_of v = Some s \<longrightarrow> no_blank s" using version_shapes(1) by blast
  from refusal_ready [OF l r method_shapes(1) p this, of t c os] show ?thesis using assms(4,5) unfolding t by simp
qed

section \<open>The client's count\<close>

text \<open>A client that gets all of an answer and then the end of the stream counts one success and the bytes of the answer.\<close>

definition counts_success :: "string \<Rightarrow> webbench \<Rightarrow> string \<Rightarrow> bool" where
  "counts_success req B response \<longleftrightarrow> (\<forall>name port P addr s ns rest. wb P = B \<longrightarrow>
     todo P = quiet (calls_of req B (Served addr s ns)) @ rest \<longrightarrow> proper req B (Served addr s ns) \<longrightarrow>
     sum_list ns = int (length response) \<longrightarrow>
     (\<exists>P'. attempt name port req P = returns P' \<and> todo P' = rest \<and>
        wb P' = B\<lparr>speed := speed B + 1, bytes := bytes B + int (length response)\<rparr>))"

lemma success_counted:
  assumes "small B" and "\<not> timerexpired B" and "speed B < INT_MAX" and "bytes B + int (length response) \<le> INT_MAX"
  shows "counts_success req B response"
  unfolding counts_success_def
proof (intro allI impI)
  fix name port addr s ns rest and P :: bench_proc
  assume P: "wb P = B" "todo P = quiet (calls_of req B (Served addr s ns)) @ rest" "proper req B (Served addr s ns)"
    "sum_list ns = int (length response)"
  have "small (tally (Served addr s ns) B)" using assms P(4) by (simp add: small_def tally_def)
  from attempt_exchange [of P "quiet (calls_of req B (Served addr s ns))" rest req "Served addr s ns" name port, OF _ _ timely_quiet]
    P assms(1,2) this obtain P' where
    "attempt name port req P = Some (Inr P')" "todo P' = rest" "after_exchange (Served addr s ns) False P P'" by auto
  moreover from this(3) have "wb P' = B\<lparr>speed := speed B + 1, bytes := bytes B + int (length response)\<rparr>"
    using P(1,4) assms(2) by (auto simp: after_exchange_def tally_def intro!: webbench.equality)
  ultimately show "\<exists>P'. attempt name port req P = returns P' \<and> todo P' = rest \<and>
      wb P' = B\<lparr>speed := speed B + 1, bytes := bytes B + int (length response)\<rparr>" by (auto simp: returns_def)
qed

end
