(* ===== verification/CgiConn.thy ===== *)
theory CgiConn
  imports HttpConn
begin

text \<open>
  The CGI server of \<open>src/CGI-Learn\<close>, its connection: \<open>cgi_conn\<close> of \<open>pool_cgi.cpp\<close> and the helpers on
  descriptors of \<open>processpool.h\<close>. Each process has one epoll instance, whose interest list is a set here
  since every entry has the same mask. What a process writes to its terminal is left out.
\<close>

section \<open>A process and its descriptors\<close>

datatype effect =
    Closed int              \<comment> \<open>\<open>close\<close>\<close>
  | RunCgi int string       \<comment> \<open>a forked child runs the program with the socket as its output\<close>
  | Notified int nat        \<comment> \<open>the parent writes to the pipe of a child\<close>
  | Killed int              \<comment> \<open>\<open>kill(pid, SIGTERM)\<close>\<close>

record proc =
  pp_epoll :: "int set"
  pp_nonblock :: "int set"
  effects :: "effect list"

definition effect :: "effect \<Rightarrow> proc \<Rightarrow> proc" where
  "effect e p = p\<lparr>effects := effects p @ [e]\<rparr>"

definition pp_setnonblocking :: "int \<Rightarrow> proc \<Rightarrow> proc" where
  "pp_setnonblocking fd p = p\<lparr>pp_nonblock := insert fd (pp_nonblock p)\<rparr>"

definition pp_addfd :: "int \<Rightarrow> proc \<Rightarrow> proc" where
  "pp_addfd fd p = pp_setnonblocking fd (p\<lparr>pp_epoll := insert fd (pp_epoll p)\<rparr>)"

definition pp_removefd :: "int \<Rightarrow> proc \<Rightarrow> proc" where
  "pp_removefd fd p = effect (Closed fd) (p\<lparr>pp_epoll := pp_epoll p - {fd}\<rparr>)"

section \<open>The connection\<close>

definition BUFFER_SIZE :: nat where "BUFFER_SIZE = 1024"

record cgi_conn =
  cgi_sockfd :: int
  cgi_address :: nat
  cgi_buf :: buffer
  cgi_read_idx :: nat

definition cgi_init :: "int \<Rightarrow> nat \<Rightarrow> cgi_conn \<Rightarrow> cgi_conn" where
  "cgi_init sockfd client_addr h =
     h\<lparr>cgi_sockfd := sockfd, cgi_address := client_addr, cgi_buf := replicate BUFFER_SIZE NUL\<rparr>"

text \<open>The search for CR LF: the index of the LF, or \<open>n\<close>.\<close>

function find_crlf :: "buffer \<Rightarrow> nat \<Rightarrow> nat \<Rightarrow> nat res" where
  "find_crlf buf idx n =
     (if idx < n then
        if idx \<ge> 1 then
          andThen (rd buf (idx - 1)) (\<lambda>c.
            if c = CR then
              andThen (rd buf idx) (\<lambda>d. if d = LF then Inr idx else find_crlf buf (idx + 1) n)
            else find_crlf buf (idx + 1) n)
        else find_crlf buf (idx + 1) n
      else Inr idx)"
  by pat_completeness auto
termination
  by (relation "measure (\<lambda>(buf, idx, n). n - idx)") auto

declare find_crlf.simps [simp del]

text \<open>The loop. \<open>exists\<close> is \<open>access(file, F_OK)\<close>, \<open>forks\<close> whether \<open>fork\<close> succeeds. After a failed \<open>fork\<close> the
  loop goes on with the socket it has closed, on which \<open>recv\<close> fails.\<close>

function cgi_loop :: "(string \<Rightarrow> bool) \<Rightarrow> bool \<Rightarrow> recv_result list \<Rightarrow> cgi_conn \<Rightarrow> proc \<Rightarrow> (cgi_conn \<times> proc) res" where
  "cgi_loop exists forks sock h p =
     (case recv (BUFFER_SIZE - 1 - cgi_read_idx h) sock of
        (RecvAgain, _) \<Rightarrow> Inr (h, p)
      | (RecvError, _) \<Rightarrow> Inr (h, pp_removefd (cgi_sockfd h) p)
      | (Data [], _) \<Rightarrow> Inr (h, pp_removefd (cgi_sockfd h) p)
      | (Data (c # s), sock) \<Rightarrow>
          andThen (put (cgi_buf h) (cgi_read_idx h) (c # s)) (\<lambda>b.
          let n = cgi_read_idx h + length (c # s) in
          andThen (find_crlf b (cgi_read_idx h) n) (\<lambda>idx.
            if idx = n then cgi_loop exists forks sock (h\<lparr>cgi_buf := b, cgi_read_idx := n\<rparr>) p
            else
              andThen (wr b (idx - 1) NUL) (\<lambda>b.
              let h = h\<lparr>cgi_buf := b, cgi_read_idx := n\<rparr> in
              andThen (cstr b 0) (\<lambda>file_name.
                if \<not> exists file_name then Inr (h, pp_removefd (cgi_sockfd h) p)
                else if forks then
                  Inr (h, pp_removefd (cgi_sockfd h) (effect (RunCgi (cgi_sockfd h) file_name) p))
                else cgi_loop exists forks [RecvError] h (pp_removefd (cgi_sockfd h) p))))))"
  by pat_completeness auto
termination
  by (relation "measure (\<lambda>(exists, forks, sock, h, p). sock_size sock)")
    (auto dest!: recv_size [OF sym])

declare cgi_loop.simps [simp del]

definition cgi_process :: "(string \<Rightarrow> bool) \<Rightarrow> bool \<Rightarrow> recv_result list \<Rightarrow> cgi_conn \<Rightarrow> proc \<Rightarrow> (cgi_conn \<times> proc) res" where
  "cgi_process exists forks sock h p =
     cgi_loop exists forks sock (h\<lparr>cgi_read_idx := 0, cgi_buf := replicate BUFFER_SIZE NUL\<rparr>) p"

section \<open>The first line\<close>

text \<open>The bytes a socket delivers before it pauses, fails or ends.\<close>

fun arrived :: "recv_result list \<Rightarrow> string" where
  "arrived (Data (c # s) # sock) = (c # s) @ arrived sock"
| "arrived _ = []"

lemma recv_arrived: "recv n sock = (Data (c # s), sock') \<Longrightarrow> arrived sock = (c # s) @ arrived sock'"
proof (cases "(n, sock)" rule: recv.cases)
  case (5 m d rest)
  assume r: "recv n sock = (Data (c # s), sock')"
  with 5 have d: "take (Suc m) d = c # s" by simp
  then obtain e es where e: "d = e # es" by (cases d) auto
  show ?thesis
  proof (cases "Suc m < length d")
    case True
    then obtain x xs where x: "drop (Suc m) d = x # xs" by (cases "drop (Suc m) d") auto
    have "d = (c # s) @ x # xs" using append_take_drop_id [of "Suc m" d] by (simp only: d x)
    moreover have "sock' = Data (x # xs) # rest" using 5 r True x by simp
    ultimately show ?thesis using 5 by simp
  next
    case False
    with 5 r d show ?thesis by auto
  qed
qed auto

lemma recv_bound: "recv n sock = (Data s, sock') \<Longrightarrow> length s \<le> n"
  by (cases "(n, sock)" rule: recv.cases) auto

lemma recv_pos:
  "0 < n \<Longrightarrow> recv n (RecvAgain # sock) = (RecvAgain, sock)"
  "0 < n \<Longrightarrow> recv n (Data s # sock) = (Data (take n s), if n < length s then Data (drop n s) # sock else sock)"
  by (cases n; simp)+

lemma recv_waiting:
  assumes "arrived sock \<noteq> []" and "0 < n"
  obtains c s sock' where "recv n sock = (Data (c # s), sock')" "length (c # s) \<le> n"
proof -
  from assms(1) obtain e es rest where "sock = Data (e # es) # rest"
    by (cases sock rule: arrived.cases) auto
  moreover from assms(2) obtain m where "n = Suc m" by (cases n) auto
  ultimately show thesis using that by auto
qed

definition crlf_at :: "string \<Rightarrow> nat \<Rightarrow> bool" where
  "crlf_at t k \<longleftrightarrow> 1 \<le> k \<and> k < length t \<and> t ! (k - 1) = CR \<and> t ! k = LF"

definition crlf_free :: "string \<Rightarrow> bool" where
  "crlf_free t \<longleftrightarrow> (\<forall>k < length t. \<not> crlf_at t k)"

lemma crlf_at_append: "k < length t \<Longrightarrow> crlf_at (t @ u) k = crlf_at t k"
  by (auto simp: crlf_at_def nth_append)

lemma find_crlf_result:
  assumes "n \<le> length buf" and "idx \<le> n"
  shows "\<exists>k. find_crlf buf idx n = Inr k \<and> idx \<le> k \<and> k \<le> n \<and> (k < n \<longrightarrow> crlf_at buf k) \<and>
    (\<forall>j. idx \<le> j \<and> j < k \<longrightarrow> \<not> crlf_at buf j)"
  using assms
proof (induction buf idx n rule: find_crlf.induct)
  case (1 buf idx n)
  show ?case
  proof (cases "idx < n")
    case False
    with 1 show ?thesis by (subst find_crlf.simps) auto
  next
    case lt: True
    show ?thesis
    proof (cases "crlf_at buf idx")
      case True
      with 1 lt show ?thesis
        by (intro exI [of _ idx]) (subst find_crlf.simps, auto simp: crlf_at_def rd_ok)
    next
      case False
      have step: "find_crlf buf idx n = find_crlf buf (idx + 1) n"
        using 1 lt False by (subst find_crlf.simps) (auto simp: crlf_at_def rd_ok)
      have "\<exists>k. find_crlf buf (idx + 1) n = Inr k \<and> idx + 1 \<le> k \<and> k \<le> n \<and> (k < n \<longrightarrow> crlf_at buf k) \<and>
          (\<forall>j. idx + 1 \<le> j \<and> j < k \<longrightarrow> \<not> crlf_at buf j)"
      proof (cases "idx \<ge> 1")
        case True
        show ?thesis
        proof (cases "buf ! (idx - 1) = CR")
          case c: True
          have "buf ! idx \<noteq> LF" using False True c 1(5) lt 1(4) by (auto simp: crlf_at_def)
          with 1(1) [OF lt True _ c] 1(4,5) lt True show ?thesis by (simp add: rd_ok)
        next
          case c: False
          with 1(2) [OF lt True _ c] 1(4) lt True show ?thesis by (simp add: rd_ok)
        qed
      next
        case z: False
        with 1(3) [OF lt z] 1(4) lt show ?thesis by simp
      qed
      then obtain k where k: "find_crlf buf (idx + 1) n = Inr k" "idx + 1 \<le> k" "k \<le> n" "k < n \<longrightarrow> crlf_at buf k"
        "\<forall>j. idx + 1 \<le> j \<and> j < k \<longrightarrow> \<not> crlf_at buf j" by blast
      have "\<not> crlf_at buf j" if "idx \<le> j" "j < k" for j using that k(5) False by (cases "j = idx") auto
      with k step show ?thesis by auto
    qed
  qed
qed

section \<open>A request\<close>

text \<open>The connection has read \<open>t\<close> in this call.\<close>

definition cgi_holds :: "cgi_conn \<Rightarrow> string \<Rightarrow> bool" where
  "cgi_holds h t \<longleftrightarrow> cgi_buf h = t @ replicate (BUFFER_SIZE - length t) NUL \<and> cgi_read_idx h = length t \<and>
     length t < BUFFER_SIZE"

text \<open>What becomes of a request for program \<open>f\<close>: in every case the connection is closed, after a failed \<open>fork\<close>
  twice.\<close>

definition cgi_outcome :: "(string \<Rightarrow> bool) \<Rightarrow> bool \<Rightarrow> int \<Rightarrow> string \<Rightarrow> proc \<Rightarrow> proc" where
  "cgi_outcome exists forks fd f p =
     (if \<not> exists f then pp_removefd fd p
      else if forks then pp_removefd fd (effect (RunCgi fd f) p)
      else pp_removefd fd (pp_removefd fd p))"

lemma crlf_line_end:
  assumes "crlf_free t" and "t @ u = name @ CR # LF # rest"
  shows "length t \<le> length name + 1"
proof (rule ccontr)
  assume "\<not> ?thesis"
  then have l: "length name + 1 < length t" by simp
  have "crlf_at (t @ u) (length name + 1)" unfolding assms(2) by (simp add: crlf_at_def nth_append)
  with l assms(1) show False by (auto simp: crlf_at_append crlf_free_def)
qed

lemma crlf_first:
  assumes "t @ u = name @ CR # LF # rest" and "crlf_free (name @ [CR])" and "crlf_at t k" and "\<forall>j < k. \<not> crlf_at t j"
  shows "k = length name + 1"
proof (rule ccontr)
  assume ne: "k \<noteq> length name + 1"
  have k: "k < length t" using assms(3) by (simp add: crlf_at_def)
  then have at: "crlf_at (name @ CR # LF # rest) k" using assms(3) crlf_at_append [OF k, of u] by (simp add: assms(1))
  show False
  proof (cases "k < length name + 1")
    case True
    then have "crlf_at (name @ [CR]) k" using at crlf_at_append [of k "name @ [CR]" "LF # rest"] by simp
    with True assms(2) show False by (simp add: crlf_free_def)
  next
    case False
    with ne have l: "length name + 1 < k" by simp
    have "crlf_at (t @ u) (length name + 1)" unfolding assms(1) by (simp add: crlf_at_def nth_append)
    then have "crlf_at t (length name + 1)" using l k by (simp add: crlf_at_append)
    with l assms(4) show False by blast
  qed
qed

lemma cgi_fork_failed:
  "cgi_loop exists forks [RecvError] h p = Inr (h, pp_removefd (cgi_sockfd h) p)"
  by (subst cgi_loop.simps) (cases "BUFFER_SIZE - 1 - cgi_read_idx h"; simp)

lemma cgi_loop_line:
  assumes "cgi_holds h t" and "crlf_free t" and "t @ arrived sock = name @ CR # LF # rest"
    and "crlf_free (name @ [CR])" and "length name \<le> 1021"
  shows "\<exists>h'. cgi_loop exists forks sock h p =
    Inr (h', cgi_outcome exists forks (cgi_sockfd h) (takeWhile (\<lambda>c. c \<noteq> NUL) name) p)"
  using assms(1,2,3)
proof (induction "sock_size sock" arbitrary: sock h t rule: less_induct)
  case less
  note line = crlf_line_end [OF less.prems(2,3)]
  have len: "length t < 1024" and idx: "cgi_read_idx h = length t"
    and buf: "cgi_buf h = t @ replicate (1024 - length t) NUL"
    using less.prems(1) by (auto simp: cgi_holds_def BUFFER_SIZE_def)
  have "length (name @ CR # LF # rest) > length t" using line by simp
  then have "arrived sock \<noteq> []" using less.prems(3) by (metis append_Nil2 less_irrefl)
  moreover have "0 < 1023 - length t" using line assms(5) by simp
  ultimately obtain c s sock1 where r: "recv (1023 - length t) sock = (Data (c # s), sock1)"
    "length (c # s) \<le> 1023 - length t" by (rule recv_waiting)
  define t1 where "t1 = t @ c # s"
  let ?b = "t1 @ replicate (1024 - length t1) NUL"
  have l1: "length t1 < 1024" using r(2) len by (simp add: t1_def)
  have b: "put (cgi_buf h) (length t) (c # s) = Inr ?b"
    using l1 by (simp add: put_def buf t1_def)
  have split: "t1 @ arrived sock1 = name @ CR # LF # rest"
    using less.prems(3) recv_arrived [OF r(1)] by (simp add: t1_def)
  have at: "crlf_at ?b j = crlf_at t1 j" if "j < length t1" for j using that by (rule crlf_at_append)
  obtain k where k: "find_crlf ?b (length t) (length t1) = Inr k" "length t \<le> k" "k \<le> length t1"
    "k < length t1 \<longrightarrow> crlf_at ?b k" "\<forall>j. length t \<le> j \<and> j < k \<longrightarrow> \<not> crlf_at ?b j"
    using find_crlf_result [of "length t1" ?b "length t"] by (auto simp: t1_def)
  have before: "\<not> crlf_at t1 j" if "j < k" for j
  proof (cases "j < length t")
    case True
    then show ?thesis using less.prems(2) by (simp add: t1_def crlf_at_append crlf_free_def)
  next
    case False
    with that k(3,5) at [of j] show ?thesis by auto
  qed
  let ?h = "h\<lparr>cgi_buf := ?b, cgi_read_idx := length t1\<rparr>"
  have n: "length t + length (c # s) = length t1" by (simp add: t1_def)
  show ?case
  proof (cases "k = length t1")
    case True
    have h1: "cgi_holds ?h t1" using l1 by (simp add: cgi_holds_def BUFFER_SIZE_def)
    have "crlf_free t1" using before True by (simp add: crlf_free_def)
    from less.hyps [OF recv_size [OF r(1)] h1 this split] obtain h' where
      "cgi_loop exists forks sock1 ?h p = Inr (h', cgi_outcome exists forks (cgi_sockfd h) (takeWhile (\<lambda>c. c \<noteq> NUL) name) p)"
      by auto
    with r b k True n show ?thesis
      by (subst cgi_loop.simps) (simp add: BUFFER_SIZE_def idx Let_def del: length_Cons)
  next
    case False
    with k at [of k] have "crlf_at t1 k" by simp
    from crlf_first [OF split assms(4) this] before have kk: "k = length name + 1" by blast
    have lt: "length name + 1 < length t1" using False k(3) kk by simp
    have "take (length name + 1) t1 = name @ [CR]"
      using lt split by (metis append_eq_append_conv_if append_take_drop_id length_append_singleton Suc_eq_plus1 append.assoc append_Cons append_Nil less_imp_le take_append nat_less_le append_eq_conv_conj)
    then obtain T where T: "t1 = name @ CR # T" by (metis append.assoc append_Cons append_Nil append_take_drop_id)
    have "wr ?b (k - 1) NUL = Inr (name @ NUL # T @ replicate (1024 - length t1) NUL)"
      using kk by (simp add: wr_def T list_update_append)
    moreover have "cstr (name @ NUL # T @ replicate (1024 - length t1) NUL) 0 = Inr (takeWhile (\<lambda>c. c \<noteq> NUL) name)"
      by (simp add: cstr_ok takeWhile_tail)
    ultimately show ?thesis using r b k(1) False n
      by (subst cgi_loop.simps) (auto simp: BUFFER_SIZE_def idx Let_def cgi_outcome_def cgi_fork_failed simp del: length_Cons)
  qed
qed

section \<open>Termination\<close>

lemma cgi_loop_total:
  assumes "cgi_holds h t"
  shows "\<exists>h' p'. cgi_loop exists forks sock h p = Inr (h', p') \<and> cgi_sockfd h' = cgi_sockfd h \<and>
    length (cgi_buf h') = BUFFER_SIZE \<and> (p' = p \<or> cgi_sockfd h \<notin> pp_epoll p')"
  using assms
proof (induction "sock_size sock" arbitrary: sock h t rule: less_induct)
  case less
  have len: "length t < 1024" and idx: "cgi_read_idx h = length t"
    and buf: "cgi_buf h = t @ replicate (1024 - length t) NUL"
    using less.prems(1) by (auto simp: cgi_holds_def BUFFER_SIZE_def)
  obtain d sock1 where r: "recv (1023 - length t) sock = (d, sock1)" by fastforce
  show ?case
  proof (cases "\<exists>c s. d = Data (c # s)")
    case False
    then show ?thesis using r idx buf len
      by (subst cgi_loop.simps)
        (cases d rule: recv_result.exhaust; auto simp: BUFFER_SIZE_def pp_removefd_def effect_def split: list.splits)
  next
    case True
    then obtain c s where d: "d = Data (c # s)" by blast
    have room: "length (c # s) \<le> 1023 - length t"
      using recv_bound [OF r [unfolded d]] .
    define t1 where "t1 = t @ c # s"
    let ?b = "t1 @ replicate (1024 - length t1) NUL"
    have l1: "length t1 < 1024" using room len by (simp add: t1_def)
    have b: "put (cgi_buf h) (length t) (c # s) = Inr ?b"
      using l1 by (simp add: put_def buf t1_def)
    obtain k where k: "find_crlf ?b (length t) (length t1) = Inr k" "k \<le> length t1" "k < length t1 \<longrightarrow> crlf_at ?b k"
      using find_crlf_result [of "length t1" ?b "length t"] by (auto simp: t1_def)
    let ?h = "h\<lparr>cgi_buf := ?b, cgi_read_idx := length t1\<rparr>"
    have n: "length t + length (c # s) = length t1" by (simp add: t1_def)
    show ?thesis
    proof (cases "k = length t1")
      case True
      have h1: "cgi_holds ?h t1" using l1 by (simp add: cgi_holds_def BUFFER_SIZE_def)
      have "sock_size sock1 < sock_size sock" using recv_size r d by simp
      from less.hyps [OF this h1] show ?thesis using r d b k True n
        by (subst cgi_loop.simps) (simp add: BUFFER_SIZE_def idx Let_def del: length_Cons)
    next
      case False
      then have "k - 1 < length ?b" using k(2) by simp
      then obtain b1 where b1: "wr ?b (k - 1) NUL = Inr b1" "NUL \<in> set b1" "length b1 = length ?b"
        by (simp add: wr_ok set_update_memI)
      obtain f where f: "cstr b1 0 = Inr f" using cstr_ok [of 0 b1] b1(2) by auto
      have "length b1 = 1024" using b1(3) l1 by simp
      with r d b k False n b1(1) f show ?thesis
        by (subst cgi_loop.simps)
          (auto simp: BUFFER_SIZE_def idx Let_def cgi_fork_failed pp_removefd_def effect_def simp del: length_Cons)
    qed
  qed
qed

lemma cgi_holds_start: "cgi_holds (h\<lparr>cgi_read_idx := 0, cgi_buf := replicate BUFFER_SIZE NUL\<rparr>) []"
  by (simp add: cgi_holds_def BUFFER_SIZE_def)

section \<open>Properties\<close>

definition demo_cgi :: cgi_conn where
  "demo_cgi = \<lparr>cgi_sockfd = 9, cgi_address = 0, cgi_buf = [], cgi_read_idx = 0\<rparr>"

definition demo_proc :: proc where
  "demo_proc = \<lparr>pp_epoll = {9}, pp_nonblock = {9}, effects = []\<rparr>"

text \<open>C21: a call of \<open>process\<close> that finds a complete first line serves it, however the socket cuts the bytes: the
  program is the line without its CR LF (up to the first NUL), it is run exactly when it exists and
  \<open>fork\<close> succeeds, with the client's socket as its output, and the connection is closed. The bytes behind
  the line do not matter. When \<open>fork\<close> fails the socket is closed twice. The closing of the connection for a program that does
  not exist is not what \<open>src/readme.md\<close> (line 4) says, that the server then receives anew.\<close>

theorem cgi_request_runs:
  assumes "arrived sock = name @ CR # LF # rest" and "crlf_free (name @ [CR])" and "length name \<le> 1021"
  shows "\<exists>h'. cgi_process exists forks sock h p =
    Inr (h', cgi_outcome exists forks (cgi_sockfd h) (takeWhile (\<lambda>c. c \<noteq> NUL) name) p)"
  using cgi_loop_line [OF cgi_holds_start, of sock name rest exists forks h p] assms
  by (simp add: cgi_process_def crlf_free_def)

theorem cgi_request_runs_witness:
  "\<exists>h'. cgi_process (\<lambda>f. f = ''ls'') True [Data ''l'', Data (''s'' @ [CR]), Data (LF # ''xyz'')] demo_cgi demo_proc =
    Inr (h', pp_removefd 9 (effect (RunCgi 9 ''ls'') demo_proc))"
proof -
  have "crlf_free (''ls'' @ [CR])" by (auto simp: crlf_free_def crlf_at_def less_Suc_eq)
  from cgi_request_runs [of "[Data ''l'', Data (''s'' @ [CR]), Data (LF # ''xyz'')]" "''ls''" "''xyz''" "\<lambda>f. f = ''ls''" True
      demo_cgi demo_proc, OF _ this]
  show ?thesis by (simp add: cgi_outcome_def demo_cgi_def)
qed

text \<open>C22: \<open>process\<close> always returns, whatever the client sends: the loop ends, no access leaves the buffer, and
  either nothing happened or the socket is no longer watched.\<close>

theorem cgi_process_returns:
  "\<exists>h' p'. cgi_process exists forks sock h p = Inr (h', p') \<and> length (cgi_buf h') = BUFFER_SIZE \<and>
     (p' = p \<or> cgi_sockfd h \<notin> pp_epoll p')"
  using cgi_loop_total [OF cgi_holds_start, of exists forks sock h p] by (auto simp: cgi_process_def)

theorem cgi_process_returns_witness:
  "\<exists>h' p'. cgi_process (\<lambda>f. True) True [Data ''ls'', RecvError] demo_cgi demo_proc = Inr (h', p') \<and>
     length (cgi_buf h') = BUFFER_SIZE"
  using cgi_process_returns [of "\<lambda>f. True" True "[Data ''ls'', RecvError]" demo_cgi demo_proc] by blast

text \<open>A request that arrives in two pieces with a pause between them is lost. \<open>process\<close> starts every call with
  an empty buffer, so the call for the second piece takes what that piece alone holds as the request.\<close>

lemma cgi_split_request_lost:
  assumes "cgi_process exists forks sock1 h p = Inr (h1, p1)"
    and "arrived sock2 = name2 @ CR # LF # rest" and "crlf_free (name2 @ [CR])" and "length name2 \<le> 1021"
  shows "\<exists>h2. cgi_process exists forks sock2 h1 p1 =
    Inr (h2, cgi_outcome exists forks (cgi_sockfd h) (takeWhile (\<lambda>c. c \<noteq> NUL) name2) p1)"
proof -
  have "cgi_sockfd h1 = cgi_sockfd h"
    using cgi_loop_total [OF cgi_holds_start, of exists forks sock1 h p] assms(1) by (auto simp: cgi_process_def)
  moreover have "cgi_holds (h1\<lparr>cgi_read_idx := 0, cgi_buf := replicate BUFFER_SIZE NUL\<rparr>) []" by (rule cgi_holds_start)
  ultimately show ?thesis
    using cgi_loop_line [OF cgi_holds_start, of sock2 name2 rest exists forks h1 p1] assms(2-4)
    by (simp add: cgi_process_def crlf_free_def)
qed

lemma cgi_split_request_lost_witness:
  "\<exists>h1 h2. cgi_process (\<lambda>f. f \<noteq> []) True [Data ''l'', RecvAgain] demo_cgi demo_proc = Inr (h1, demo_proc) \<and>
     cgi_process (\<lambda>f. f \<noteq> []) True [Data (''s'' @ [CR, LF])] h1 demo_proc =
       Inr (h2, pp_removefd 9 (effect (RunCgi 9 ''s'') demo_proc))"
proof -
  have "\<exists>h1. cgi_process (\<lambda>f. f \<noteq> []) True [Data ''l'', RecvAgain] demo_cgi demo_proc = Inr (h1, demo_proc)"
    by (simp add: cgi_process_def demo_cgi_def BUFFER_SIZE_def cgi_loop.simps recv_pos put_def find_crlf.simps Let_def)
  then obtain h1 where 1: "cgi_process (\<lambda>f. f \<noteq> []) True [Data ''l'', RecvAgain] demo_cgi demo_proc = Inr (h1, demo_proc)" ..
  have "crlf_free (''s'' @ [CR])" by (auto simp: crlf_free_def crlf_at_def less_Suc_eq)
  from cgi_split_request_lost [OF 1 _ this, of "[Data (''s'' @ [CR, LF])]" "[]"] 1 show ?thesis
    by (simp add: cgi_outcome_def demo_cgi_def)
qed

end
