(* ===== verification/ProcessPool.thy ===== *)
theory ProcessPool
  imports CgiConn
begin

text \<open>
  The pool of processes of \<open>src/CGI-Learn/processpool.h\<close>: its creation, the parent, which hands new
  connections to the children in turn and reaps them, and the children, which accept and serve them.
  Parent and children share nothing but pipes: each is a state of its own.
\<close>

section \<open>The class\<close>

definition MAX_PROCESS_NUMBER :: nat where "MAX_PROCESS_NUMBER = 16"
definition USER_PER_PROCESS :: nat where "USER_PER_PROCESS = 65536"

record pp_process =
  m_pid :: int
  m_pipefd :: "(int \<times> int) cell"

definition process_new :: pp_process where
  "process_new = \<lparr>m_pid = -1, m_pipefd = Unset\<rparr>"

record processpool =
  m_process_number :: nat
  m_idx :: int
  m_listenfd :: int
  m_stopped :: bool
  m_sub_process :: "pp_process list"

text \<open>The loop of the constructor: \<open>pair i\<close> is what \<open>socketpair\<close> makes for child \<open>i\<close>, \<open>fork i\<close> the result of
  \<open>fork\<close>. The parent runs the loop to its end; in child \<open>i\<close> it ends with \<open>m_idx = i\<close>.\<close>

fun create_children :: "(nat \<Rightarrow> (int \<times> int) option) \<Rightarrow> (nat \<Rightarrow> int) \<Rightarrow> nat \<Rightarrow> nat \<Rightarrow>
    processpool \<Rightarrow> proc \<Rightarrow> (processpool \<times> proc) res" where
  "create_children pair fork 0 i P p = Inr (P, p)"
| "create_children pair fork (Suc n) i P p =
     (case pair i of
        None \<Rightarrow> Inl AssertFailed
      | Some fds \<Rightarrow>
          let P = P\<lparr>m_sub_process := (m_sub_process P)[i := \<lparr>m_pid = fork i, m_pipefd = Set fds\<rparr>]\<rparr> in
          if fork i < 0 then Inl AssertFailed
          else if fork i > 0 then create_children pair fork n (i + 1) P (effect (Closed (snd fds)) p)
          else Inr (P\<lparr>m_idx := int i\<rparr>, effect (Closed (fst fds)) p))"

definition processpool_new :: "(nat \<Rightarrow> (int \<times> int) option) \<Rightarrow> (nat \<Rightarrow> int) \<Rightarrow> int \<Rightarrow> int \<Rightarrow> proc \<Rightarrow> (processpool \<times> proc) res" where
  "processpool_new pair fork listenfd process_number p =
     (if process_number > 0 \<and> process_number \<le> int MAX_PROCESS_NUMBER
      then create_children pair fork (nat process_number) 0
             \<lparr>m_process_number = nat process_number, m_idx = -1, m_listenfd = listenfd, m_stopped = False,
              m_sub_process = replicate (nat process_number) process_new\<rparr> p
      else Inl AssertFailed)"

text \<open>The single instance.\<close>

definition create_pool :: "(nat \<Rightarrow> (int \<times> int) option) \<Rightarrow> (nat \<Rightarrow> int) \<Rightarrow> int \<Rightarrow> int \<Rightarrow> processpool option \<Rightarrow> proc \<Rightarrow>
    (processpool \<times> proc) res" where
  "create_pool pair fork listenfd process_number m_instance p =
     (case m_instance of
        None \<Rightarrow> processpool_new pair fork listenfd process_number p
      | Some P \<Rightarrow> Inr (P, p))"

text \<open>The epoll instance and the signal pipe \<open>(r, w)\<close>.\<close>

definition setup_sig_pipe :: "int \<Rightarrow> int \<Rightarrow> proc \<Rightarrow> proc" where
  "setup_sig_pipe r w p = pp_addfd r (pp_setnonblocking w (p\<lparr>pp_epoll := {}\<rparr>))"

section \<open>The parent\<close>

text \<open>The search for a live child from \<open>j\<close> on, once around. The result is a dead child only when all are.\<close>

lemma mod_before: "j < c \<Longrightarrow> c < n \<Longrightarrow> (c + n - 1 - j) mod n = c - 1 - (j :: nat)"
proof -
  assume a: "j < c" "c < n"
  then have "c + n - 1 - j = (c - 1 - j) + n" by simp
  then have "(c + n - 1 - j) mod n = (c - 1 - j) mod n" by (simp only: mod_add_self2)
  with a show ?thesis by simp
qed

function next_child :: "pp_process list \<Rightarrow> nat \<Rightarrow> nat \<Rightarrow> nat \<Rightarrow> nat res" where
  "next_child procs n counter j =
     (if j < length procs \<and> j < n \<and> counter < n then
        if m_pid (procs ! j) \<noteq> -1 then Inr j
        else let j' = (j + 1) mod n in
             if j' \<noteq> counter then next_child procs n counter j' else Inr j'
      else Inl OutOfBounds)"
  by pat_completeness auto
termination
proof (relation "measure (\<lambda>(procs, n, counter, j). (counter + n - 1 - j) mod n)", goal_cases)
  case (2 procs n counter j j')
  then have j: "j < n" "counter < n" "(j + 1) mod n \<noteq> counter" "j' = (j + 1) mod n" by auto
  show ?case
  proof (cases "j + 1 = n")
    case True
    then have "j' = 0" "(counter + n - 1 - j) mod n = counter" using j by simp_all
    moreover have "(counter + n - 1) mod n = counter - 1" using j True \<open>j' = 0\<close>
      by (cases counter) simp_all
    ultimately show ?thesis using j by simp
  next
    case False
    then have j': "j' = j + 1" using j by simp
    show ?thesis
    proof (cases "j < counter")
      case True
      with j j' have l: "j + 1 < counter" by simp
      show ?thesis using mod_before [OF l j(2)] mod_before [OF True j(2)] l by (simp add: j')
    next
      case ge: False
      then have "(counter + n - 1 - j) mod n = counter + n - 1 - j" "(counter + n - 1 - (j + 1)) mod n = counter + n - 1 - (j + 1)"
        using j by simp_all
      then show ?thesis using j j' False by simp
    qed
  qed
qed simp

declare next_child.simps [simp del]

text \<open>The parent in its loop: the pool, \<open>sub_process_counter\<close> and its process.\<close>

record parent =
  par_pool :: processpool
  sub_process_counter :: nat
  par_proc :: proc

definition parent_start :: "int \<Rightarrow> int \<Rightarrow> processpool \<Rightarrow> proc \<Rightarrow> parent" where
  "parent_start r w P p =
     \<lparr>par_pool = P, sub_process_counter = 0, par_proc = pp_addfd (m_listenfd P) (setup_sig_pipe r w p)\<rparr>"

text \<open>A new connection: a byte block to the next live child; without one the pool stops, and the true result
  ends the round.\<close>

definition dispatch :: "parent \<Rightarrow> (bool \<times> parent) res" where
  "dispatch s =
     (let P = par_pool s in
      andThen (next_child (m_sub_process P) (m_process_number P) (sub_process_counter s) (sub_process_counter s)) (\<lambda>j.
        let c = m_sub_process P ! j in
        if m_pid c = -1 then Inr (True, s\<lparr>par_pool := P\<lparr>m_stopped := True\<rparr>\<rparr>)
        else
          andThen (fetch (m_pipefd c)) (\<lambda>fds.
            Inr (False, s\<lparr>sub_process_counter := (j + 1) mod m_process_number P,
                          par_proc := effect (Notified (fst fds) j) (par_proc s)\<rparr>))))"

text \<open>A child has exited: its entry is found by its pid. \<open>n\<close> entries from \<open>i\<close> on.\<close>

fun close_child :: "int \<Rightarrow> nat \<Rightarrow> nat \<Rightarrow> pp_process list \<Rightarrow> proc \<Rightarrow> (pp_process list \<times> proc) res" where
  "close_child pid 0 i procs p = Inr (procs, p)"
| "close_child pid (Suc n) i procs p =
     (if i \<ge> length procs then Inl OutOfBounds
      else if m_pid (procs ! i) = pid then
        andThen (fetch (m_pipefd (procs ! i))) (\<lambda>fds.
          close_child pid n (i + 1) (procs[i := (procs ! i)\<lparr>m_pid := -1\<rparr>]) (effect (Closed (fst fds)) p))
      else close_child pid n (i + 1) procs p)"

text \<open>\<open>SIGCHLD\<close>: the loop over the pids \<open>waitpid\<close> returns, and whether all children are gone.\<close>

fun reap :: "int list \<Rightarrow> nat \<Rightarrow> pp_process list \<Rightarrow> proc \<Rightarrow> (pp_process list \<times> proc) res" where
  "reap [] n procs p = Inr (procs, p)"
| "reap (pid # pids) n procs p =
     (if pid \<le> 0 then Inr (procs, p)
      else andThen (close_child pid n 0 procs p) (\<lambda>(procs, p). reap pids n procs p))"

definition child_exited :: "int list \<Rightarrow> parent \<Rightarrow> parent res" where
  "child_exited pids s =
     (let P = par_pool s in
      andThen (reap pids (m_process_number P) (m_sub_process P) (par_proc s)) (\<lambda>(procs, p).
        Inr (s\<lparr>par_pool := P\<lparr>m_sub_process := procs,
                             m_stopped := list_all (\<lambda>c. m_pid c = -1) (take (m_process_number P) procs)\<rparr>,
               par_proc := p\<rparr>)))"

text \<open>\<open>SIGTERM\<close> and \<open>SIGINT\<close>: every live child is told to end.\<close>

definition kill_children :: "parent \<Rightarrow> parent" where
  "kill_children s =
     (let P = par_pool s;
          live = filter (\<lambda>c. m_pid c \<noteq> -1) (take (m_process_number P) (m_sub_process P))
      in s\<lparr>par_proc := fold (\<lambda>c. effect (Killed (m_pid c))) live (par_proc s)\<rparr>)"

text \<open>The signals read from the pipe, each with what \<open>waitpid\<close> returns while it is handled.\<close>

fun parent_signals :: "(int \<times> int list) list \<Rightarrow> parent \<Rightarrow> parent res" where
  "parent_signals [] s = Inr s"
| "parent_signals ((sig, pids) # sigs) s =
     andThen (if sig = 17 then child_exited pids s
              else Inr (if sig = 15 \<or> sig = 2 then kill_children s else s))
       (parent_signals sigs)"

datatype parent_event =
    NewConnection                           \<comment> \<open>on the listening socket\<close>
  | ParentSignals "(int \<times> int list) list"   \<comment> \<open>on the signal pipe; none when \<open>recv\<close> fails\<close>
  | OtherEvent

fun parent_round :: "parent_event list \<Rightarrow> parent \<Rightarrow> parent res" where
  "parent_round [] s = Inr s"
| "parent_round (NewConnection # es) s =
     andThen (dispatch s) (\<lambda>(last, s). if last then Inr s else parent_round es s)"
| "parent_round (ParentSignals sigs # es) s = andThen (parent_signals sigs s) (parent_round es)"
| "parent_round (OtherEvent # es) s = parent_round es s"

text \<open>\<open>None\<close>: \<open>epoll_wait\<close> fails other than by a signal. At the end the epoll instance is closed.\<close>

fun run_parent :: "parent_event list option list \<Rightarrow> parent \<Rightarrow> parent res" where
  "run_parent [] s = Inr s"
| "run_parent (r # rs) s =
     (if m_stopped (par_pool s) then Inr s
      else case r of None \<Rightarrow> Inr s | Some es \<Rightarrow> andThen (parent_round es s) (run_parent rs))"

section \<open>A child\<close>

record child =
  ch_pool :: processpool
  ch_proc :: proc
  ch_users :: "nat \<Rightarrow> cgi_conn"
  ch_pipefd :: int
  ch_sig_pipe :: int

text \<open>What \<open>recv\<close> of the notification returns, and what \<open>accept\<close> returns then.\<close>

datatype notice = NoticeRead | NoticeAgain | NoticeEnd | NoticeError

definition accept_client :: "(int \<times> nat) option \<Rightarrow> child \<Rightarrow> child res" where
  "accept_client acc s =
     (case acc of
        None \<Rightarrow> Inr s
      | Some (connfd, client_address) \<Rightarrow>
          (if connfd < 0 then Inr s
           else if connfd \<ge> int USER_PER_PROCESS then Inl OutOfBounds
           else Inr (s\<lparr>ch_proc := pp_addfd connfd (ch_proc s),
                       ch_users := (ch_users s)(nat connfd :=
                          cgi_init connfd client_address (ch_users s (nat connfd)))\<rparr>)))"

definition notified :: "notice \<Rightarrow> (int \<times> nat) option \<Rightarrow> child \<Rightarrow> child res" where
  "notified n acc s =
     (case n of NoticeError \<Rightarrow> Inr s | NoticeEnd \<Rightarrow> Inr s | _ \<Rightarrow> accept_client acc s)"

definition child_signals :: "int list \<Rightarrow> child \<Rightarrow> child" where
  "child_signals sigs s =
     (if 15 \<in> set sigs \<or> 2 \<in> set sigs then s\<lparr>ch_pool := (ch_pool s)\<lparr>m_stopped := True\<rparr>\<rparr> else s)"

datatype child_event =
    OnPipe notice "(int \<times> nat) option"
  | OnSignals "int list"
  | OnClient int "recv_result list" bool    \<comment> \<open>the socket, what it holds, whether \<open>fork\<close> succeeds\<close>
  | OtherChildEvent

definition handle_child_event :: "(string \<Rightarrow> bool) \<Rightarrow> child_event \<Rightarrow> child \<Rightarrow> child res" where
  "handle_child_event exists e s =
     (case e of
        OnPipe n acc \<Rightarrow> notified n acc s
      | OnSignals sigs \<Rightarrow> Inr (child_signals sigs s)
      | OnClient fd sock forks \<Rightarrow>
          (if fd < 0 \<or> fd \<ge> int USER_PER_PROCESS then Inl OutOfBounds
           else andThen (cgi_process exists forks sock (ch_users s (nat fd)) (ch_proc s)) (\<lambda>(h, p).
                  Inr (s\<lparr>ch_users := (ch_users s)(nat fd := h), ch_proc := p\<rparr>)))
      | OtherChildEvent \<Rightarrow> Inr s)"

fun child_round :: "(string \<Rightarrow> bool) \<Rightarrow> child_event list \<Rightarrow> child \<Rightarrow> child res" where
  "child_round exists [] s = Inr s"
| "child_round exists (e # es) s = andThen (handle_child_event exists e s) (child_round exists es)"

fun child_loop :: "(string \<Rightarrow> bool) \<Rightarrow> child_event list option list \<Rightarrow> child \<Rightarrow> child res" where
  "child_loop exists [] s = Inr s"
| "child_loop exists (r # rs) s =
     (if m_stopped (ch_pool s) then Inr s
      else case r of None \<Rightarrow> Inr s | Some es \<Rightarrow> andThen (child_round exists es s) (child_loop exists rs))"

text \<open>The child finds its pipe by its index, and closes it with its epoll instance at the end.\<close>

definition run_child :: "(string \<Rightarrow> bool) \<Rightarrow> (nat \<Rightarrow> cgi_conn) \<Rightarrow> int \<times> int \<Rightarrow> child_event list option list \<Rightarrow>
    processpool \<Rightarrow> proc \<Rightarrow> child res" where
  "run_child exists us sig_pipefd rs P p =
     (if m_idx P < 0 \<or> m_idx P \<ge> int (length (m_sub_process P)) then Inl OutOfBounds
      else
        andThen (fetch (m_pipefd (m_sub_process P ! nat (m_idx P)))) (\<lambda>fds.
        let p = pp_addfd (snd fds) (setup_sig_pipe (fst sig_pipefd) (snd sig_pipefd) p) in
        andThen (child_loop exists rs \<lparr>ch_pool = P, ch_proc = p, ch_users = us, ch_pipefd = snd fds,
            ch_sig_pipe = fst sig_pipefd\<rparr>) (\<lambda>s.
          Inr (s\<lparr>ch_proc := effect (Closed (ch_pipefd s)) (ch_proc s)\<rparr>))))"

section \<open>Round robin\<close>

definition dead :: "pp_process \<Rightarrow> bool" where
  "dead c \<longleftrightarrow> m_pid c = -1"

text \<open>The parent's pool: the table is complete, every entry has its pipe, the counter is in range.\<close>

definition parent_ok :: "parent \<Rightarrow> bool" where
  "parent_ok s \<longleftrightarrow>
     length (m_sub_process (par_pool s)) = m_process_number (par_pool s) \<and>
     sub_process_counter s < m_process_number (par_pool s) \<and>
     (\<forall>c \<in> set (m_sub_process (par_pool s)). \<exists>fds. m_pipefd c = Set fds)"

text \<open>The parent's end of the pipe of child \<open>j\<close>.\<close>

definition pipe_of :: "parent \<Rightarrow> nat \<Rightarrow> int" where
  "pipe_of s j = (case m_pipefd (m_sub_process (par_pool s) ! j) of Set fds \<Rightarrow> fst fds | Unset \<Rightarrow> -1)"

lemma mod_once_around: "c < n \<Longrightarrow> 0 < e \<Longrightarrow> e < n \<Longrightarrow> (c + e) mod n \<noteq> (c :: nat)"
proof
  assume a: "c < n" "0 < e" "e < n" "(c + e) mod n = c"
  show False
  proof (cases "c + e < n")
    case True
    with a show False by simp
  next
    case False
    then have "(c + e) mod n = c + e - n" using a by (metis add_less_mono le_mod_geq linorder_not_le mod_less less_diff_conv2 add_less_cancel_right not_less)
    with a False show False by simp
  qed
qed

lemma next_child_finds:
  assumes "length procs = n" and "c < n" and "e \<le> d0" and "d0 < n" and "\<not> dead (procs ! ((c + d0) mod n))"
    and "\<forall>e' < e. dead (procs ! ((c + e') mod n))"
  shows "\<exists>d < n. next_child procs n c ((c + e) mod n) = Inr ((c + d) mod n) \<and>
    \<not> dead (procs ! ((c + d) mod n)) \<and> (\<forall>e' < d. dead (procs ! ((c + e') mod n)))"
  using assms(3,6)
proof (induction "n - e" arbitrary: e rule: less_induct)
  case less
  let ?j = "(c + e) mod n"
  have n: "0 < n" "?j < n" using assms(2) by simp_all
  show ?case
  proof (cases "dead (procs ! ?j)")
    case False
    then have "next_child procs n c ?j = Inr ?j"
      using assms(1,2) n by (subst next_child.simps) (simp add: dead_def)
    with False less.prems assms(4) show ?thesis by (intro exI [of _ e]) simp
  next
    case True
    then have ne: "e \<noteq> d0" using assms(5) by metis
    with less.prems(1) have e: "e + 1 \<le> d0" by simp
    have j: "(?j + 1) mod n = (c + (e + 1)) mod n" by (simp add: mod_Suc_eq)
    have "(c + (e + 1)) mod n \<noteq> c" using mod_once_around [OF assms(2), of "e + 1"] e assms(4) by simp
    then have step: "next_child procs n c ?j = next_child procs n c ((c + (e + 1)) mod n)"
      using True assms(1,2) n j by (subst next_child.simps) (simp add: dead_def Let_def)
    have "\<forall>e' < e + 1. dead (procs ! ((c + e') mod n))" using less.prems(2) True by (auto simp: less_Suc_eq)
    from less.hyps [OF _ e this] e assms(4) step show ?thesis by simp
  qed
qed

lemma next_child_all_dead:
  assumes "length procs = n" and "c < n" and "\<forall>i < n. dead (procs ! i)" and "e < n"
  shows "next_child procs n c ((c + e) mod n) = Inr c"
  using assms(4)
proof (induction "n - e" arbitrary: e rule: less_induct)
  case less
  let ?j = "(c + e) mod n"
  have n: "0 < n" "?j < n" using assms(2) by simp_all
  have j: "(?j + 1) mod n = (c + (e + 1)) mod n" by (simp add: mod_Suc_eq)
  show ?case
  proof (cases "e + 1 < n")
    case False
    then have "e + 1 = n" using less.prems by simp
    then have "(?j + 1) mod n = c" unfolding j using assms(2) by simp
    then show ?thesis using n assms(1,2,3) by (subst next_child.simps) (simp add: dead_def Let_def)
  next
    case True
    have "(c + (e + 1)) mod n \<noteq> c" using mod_once_around [OF assms(2), of "e + 1"] True by simp
    then have "next_child procs n c ?j = next_child procs n c ((c + (e + 1)) mod n)"
      using assms(1,2,3) n j by (subst next_child.simps) (simp add: dead_def Let_def)
    with less.hyps [OF _ True] less.prems show ?thesis by simp
  qed
qed

section \<open>Exits\<close>

text \<open>The entry of a child after the children \<open>pids\<close> have exited, and the pipes the parent closes for it.\<close>

definition exited :: "int set \<Rightarrow> pp_process \<Rightarrow> pp_process" where
  "exited pids c = (if m_pid c \<in> pids then c\<lparr>m_pid := -1\<rparr> else c)"

definition piped :: "pp_process \<Rightarrow> bool" where
  "piped c \<longleftrightarrow> (\<exists>fds. m_pipefd c = Set fds)"

lemma exited_piped [simp]: "piped (exited pids c) = piped c"
  by (simp add: piped_def exited_def)

lemma exited_exited: "-1 \<notin> B \<Longrightarrow> exited B (exited A c) = exited (A \<union> B) c"
  by (simp add: exited_def)

lemma close_child_result:
  assumes "list_all piped procs" and "i + n = length procs" and "pid \<noteq> -1"
  shows "\<exists>p'. close_child pid n i procs p = Inr (take i procs @ map (exited {pid}) (drop i procs), p')"
  using assms(1,2)
proof (induction n arbitrary: i procs p)
  case 0
  then show ?case by simp
next
  case (Suc n)
  then have i: "i < length procs" by simp
  then have d: "drop i procs = procs ! i # drop (i + 1) procs" by (simp add: Cons_nth_drop_Suc)
  have t: "take (i + 1) procs = take i procs @ [procs ! i]" using i by (simp add: take_Suc_conv_app_nth)
  show ?case
  proof (cases "m_pid (procs ! i) = pid")
    case False
    with Suc.IH [OF Suc.prems(1), of "i + 1" p] Suc.prems(2) i d t show ?thesis by (auto simp: exited_def)
  next
    case True
    let ?procs = "procs[i := (procs ! i)\<lparr>m_pid := -1\<rparr>]"
    obtain fds where f: "m_pipefd (procs ! i) = Set fds"
      using Suc.prems(1) i by (auto simp: list_all_length piped_def)
    have "list_all piped ?procs" using Suc.prems(1) i by (auto simp: list_all_length nth_list_update piped_def)
    from Suc.IH [OF this, of "i + 1" "effect (Closed (fst fds)) p"] Suc.prems(2) i f True d
    show ?thesis by (auto simp: exited_def take_Suc_conv_app_nth nth_list_update)
  qed
qed

lemma reap_result:
  assumes "list_all piped procs" and "n = length procs" and "\<forall>pid \<in> set pids. 0 < pid"
  shows "\<exists>p'. reap pids n procs p = Inr (map (exited (set pids)) procs, p')"
  using assms
proof (induction pids arbitrary: procs p)
  case Nil
  then show ?case by (simp add: exited_def)
next
  case (Cons pid pids)
  obtain p1 where 1: "close_child pid n 0 procs p = Inr (map (exited {pid}) procs, p1)"
    using close_child_result [of procs 0 n pid p] Cons.prems by auto
  have "list_all piped (map (exited {pid}) procs)" using Cons.prems(1) by (simp add: list_all_iff)
  from Cons.IH [OF this, of p1] Cons.prems obtain p2 where
    2: "reap pids n (map (exited {pid}) procs) p1 = Inr (map (exited (set pids)) (map (exited {pid}) procs), p2)" by auto
  have "-1 \<notin> set pids" using Cons.prems(3) by auto
  then have "map (exited (set pids)) (map (exited {pid}) procs) = map (exited (set (pid # pids))) procs"
    by (simp add: exited_exited)
  with 1 2 Cons.prems(3) show ?case by auto
qed

lemma child_exited_result:
  assumes "parent_ok s" and "\<forall>pid \<in> set pids. 0 < pid"
  shows "\<exists>p'. child_exited pids s = Inr (s\<lparr>par_pool := (par_pool s)\<lparr>
      m_sub_process := map (exited (set pids)) (m_sub_process (par_pool s)),
      m_stopped := (\<forall>c \<in> set (m_sub_process (par_pool s)). dead (exited (set pids) c))\<rparr>, par_proc := p'\<rparr>)"
proof -
  have "list_all piped (m_sub_process (par_pool s))"
    using assms(1) by (auto simp: parent_ok_def list_all_iff piped_def)
  from reap_result [OF this _ assms(2), of "m_process_number (par_pool s)" "par_proc s"] assms(1) show ?thesis
    by (auto simp: parent_ok_def child_exited_def Let_def list_all_iff dead_def)
qed

lemma parent_ok_child_exited:
  assumes "parent_ok s" and "\<forall>pid \<in> set pids. 0 < pid"
  shows "\<exists>s'. child_exited pids s = Inr s' \<and> parent_ok s'"
  using child_exited_result [OF assms] assms(1) by (auto simp: parent_ok_def exited_def)

section \<open>Dispatching\<close>

lemma dispatch_next:
  assumes "parent_ok s"
  defines "n \<equiv> m_process_number (par_pool s)" and "c \<equiv> sub_process_counter s"
    and "at \<equiv> \<lambda>d. m_sub_process (par_pool s) ! ((sub_process_counter s + d) mod m_process_number (par_pool s))"
  shows "if list_all dead (m_sub_process (par_pool s))
    then dispatch s = Inr (True, s\<lparr>par_pool := (par_pool s)\<lparr>m_stopped := True\<rparr>\<rparr>)
    else \<exists>d < n. \<not> dead (at d) \<and> (\<forall>e < d. dead (at e)) \<and>
      dispatch s = Inr (False, s\<lparr>sub_process_counter := (c + d + 1) mod n,
        par_proc := effect (Notified (pipe_of s ((c + d) mod n)) ((c + d) mod n)) (par_proc s)\<rparr>)"
proof -
  let ?procs = "m_sub_process (par_pool s)"
  have ok: "length ?procs = n" "c < n" "\<forall>c \<in> set ?procs. \<exists>fds. m_pipefd c = Set fds"
    using assms(1) by (simp_all add: parent_ok_def n_def c_def)
  show ?thesis
  proof (cases "list_all dead ?procs")
    case True
    then have "\<forall>i < n. dead (?procs ! i)" using ok(1) by (simp add: list_all_length)
    from next_child_all_dead [OF ok(1,2) this, of 0] ok(2) have "next_child ?procs n c c = Inr c" by simp
    moreover have "dead (?procs ! c)" using True ok(1,2) by (simp add: list_all_length)
    ultimately show ?thesis using True by (simp add: dispatch_def Let_def dead_def n_def c_def)
  next
    case False
    then obtain i where i: "i < n" "\<not> dead (?procs ! i)" using ok(1) by (auto simp: list_all_length)
    have "(c + (i + n - c) mod n) mod n = i" using ok(2) i(1) by (simp add: mod_add_right_eq)
    moreover have "(i + n - c) mod n < n" using ok(2) by simp
    ultimately obtain d where d: "d < n" "next_child ?procs n c c = Inr ((c + d) mod n)"
      "\<not> dead (?procs ! ((c + d) mod n))" "\<forall>e < d. dead (?procs ! ((c + e) mod n))"
      using next_child_finds [OF ok(1,2), of 0 "(i + n - c) mod n"] ok(2) i(2) by auto
    have j: "(c + d) mod n < length ?procs" using ok(1,2) by simp
    then obtain fds where f: "m_pipefd (?procs ! ((c + d) mod n)) = Set fds" using ok(3) nth_mem by metis
    have "((c + d) mod n + 1) mod n = (c + d + 1) mod n" by (simp add: mod_Suc_eq)
    with d f have "dispatch s = Inr (False, s\<lparr>sub_process_counter := (c + d + 1) mod n,
        par_proc := effect (Notified (pipe_of s ((c + d) mod n)) ((c + d) mod n)) (par_proc s)\<rparr>)"
      by (simp add: dispatch_def Let_def dead_def n_def c_def pipe_of_def)
    with d False show ?thesis by (auto simp: at_def n_def c_def)
  qed
qed

lemma parent_ok_dispatch:
  assumes "parent_ok s"
  shows "\<exists>b s'. dispatch s = Inr (b, s') \<and> parent_ok s'"
proof (cases "list_all dead (m_sub_process (par_pool s))")
  case True
  with dispatch_next [OF assms] assms show ?thesis by (auto simp: parent_ok_def)
next
  case False
  with dispatch_next [OF assms] obtain d where
    "dispatch s = Inr (False, s\<lparr>sub_process_counter := (sub_process_counter s + d + 1) mod m_process_number (par_pool s),
        par_proc := effect (Notified (pipe_of s ((sub_process_counter s + d) mod m_process_number (par_pool s)))
          ((sub_process_counter s + d) mod m_process_number (par_pool s))) (par_proc s)\<rparr>)" by auto
  moreover have "0 < m_process_number (par_pool s)" using assms by (auto simp: parent_ok_def)
  ultimately show ?thesis using assms by (auto simp: parent_ok_def)
qed

section \<open>Properties\<close>

text \<open>C18: a new connection goes to the first live child at or after the counter, once around the table, and
  the counter moves behind it; a dead child is never chosen. Without a live child the pool stops. The
  search always ends and never leaves the table.\<close>

theorem dispatch_round_robin:
  assumes "parent_ok s"
  defines "n \<equiv> m_process_number (par_pool s)" and "c \<equiv> sub_process_counter s"
    and "at \<equiv> \<lambda>d. m_sub_process (par_pool s) ! ((sub_process_counter s + d) mod m_process_number (par_pool s))"
  shows "if list_all dead (m_sub_process (par_pool s))
    then dispatch s = Inr (True, s\<lparr>par_pool := (par_pool s)\<lparr>m_stopped := True\<rparr>\<rparr>)
    else \<exists>d < n. \<not> dead (at d) \<and> (\<forall>e < d. dead (at e)) \<and>
      dispatch s = Inr (False, s\<lparr>sub_process_counter := (c + d + 1) mod n,
        par_proc := effect (Notified (pipe_of s ((c + d) mod n)) ((c + d) mod n)) (par_proc s)\<rparr>)"
  using dispatch_next [OF assms(1)] unfolding n_def c_def at_def .

text \<open>A pool of three children of which the second has exited.\<close>

definition demo_parent :: parent where
  "demo_parent = \<lparr>par_pool = \<lparr>m_process_number = 3, m_idx = -1, m_listenfd = 3, m_stopped = False,
       m_sub_process = [\<lparr>m_pid = 101, m_pipefd = Set (10, 11)\<rparr>, \<lparr>m_pid = -1, m_pipefd = Set (12, 13)\<rparr>,
         \<lparr>m_pid = 103, m_pipefd = Set (14, 15)\<rparr>]\<rparr>,
     sub_process_counter = 1, par_proc = demo_proc\<rparr>"

lemma demo_parent_ok: "parent_ok demo_parent"
  by (simp add: parent_ok_def demo_parent_def)

theorem dispatch_round_robin_witness:
  "dispatch demo_parent = Inr (False, demo_parent\<lparr>sub_process_counter := 0,
     par_proc := effect (Notified 14 2) demo_proc\<rparr>)"
proof -
  have "\<not> list_all dead (m_sub_process (par_pool demo_parent))" by (simp add: demo_parent_def dead_def)
  with dispatch_round_robin [OF demo_parent_ok] obtain d where d: "d < 3"
    "\<not> dead (m_sub_process (par_pool demo_parent) ! ((1 + d) mod 3))"
    "\<forall>e < d. dead (m_sub_process (par_pool demo_parent) ! ((1 + e) mod 3))"
    "dispatch demo_parent = Inr (False, demo_parent\<lparr>sub_process_counter := (1 + d + 1) mod 3,
        par_proc := effect (Notified (pipe_of demo_parent ((1 + d) mod 3)) ((1 + d) mod 3)) (par_proc demo_parent)\<rparr>)"
    by (auto simp: demo_parent_def)
  have "d = 1"
  proof (cases d)
    case 0
    with d(2) show ?thesis by (simp add: demo_parent_def dead_def)
  next
    case (Suc m)
    have "\<not> 1 < d" using d(3) [rule_format, of 1] by (auto simp: demo_parent_def dead_def)
    with Suc show ?thesis by simp
  qed
  with d(4) show ?thesis by (simp add: pipe_of_def demo_parent_def numeral_2_eq_2)
qed

text \<open>C19: when children exit, exactly their entries are marked, whatever other children are still running, and
  the parent stops exactly when no child is left.\<close>

theorem exited_children_marked:
  assumes "parent_ok s" and "list_all (\<lambda>pid. 0 < pid) pids"
  shows "\<exists>s'. child_exited pids s = Inr s' \<and> parent_ok s' \<and>
    m_sub_process (par_pool s') =
      map (\<lambda>c. if m_pid c \<in> set pids then c\<lparr>m_pid := -1\<rparr> else c) (m_sub_process (par_pool s)) \<and>
    m_stopped (par_pool s') = list_all (\<lambda>c. m_pid c = -1 \<or> m_pid c \<in> set pids) (m_sub_process (par_pool s))"
proof -
  have pos: "\<forall>pid \<in> set pids. 0 < pid" using assms(2) by (simp add: list_all_iff)
  from child_exited_result [OF assms(1) pos] obtain p' where
    r: "child_exited pids s = Inr (s\<lparr>par_pool := (par_pool s)\<lparr>
      m_sub_process := map (exited (set pids)) (m_sub_process (par_pool s)),
      m_stopped := (\<forall>c \<in> set (m_sub_process (par_pool s)). dead (exited (set pids) c))\<rparr>, par_proc := p'\<rparr>)" by blast
  have "exited (set pids) = (\<lambda>c. if m_pid c \<in> set pids then c\<lparr>m_pid := -1\<rparr> else c)"
    by (simp add: exited_def fun_eq_iff)
  moreover have "dead (exited (set pids) c) \<longleftrightarrow> m_pid c = -1 \<or> m_pid c \<in> set pids" for c
    by (simp add: dead_def exited_def)
  ultimately show ?thesis using r parent_ok_child_exited [OF assms(1) pos] by (auto simp: list_all_iff)
qed

theorem exited_children_marked_witness:
  "\<exists>s'. child_exited [103, 101] demo_parent = Inr s' \<and> m_stopped (par_pool s') \<and>
     map m_pid (m_sub_process (par_pool s')) = [-1, -1, -1]"
  using exited_children_marked [OF demo_parent_ok, of "[103, 101]"] by (force simp: demo_parent_def)

section \<open>The parent does not fault\<close>

definition pids_ok :: "parent_event \<Rightarrow> bool" where
  "pids_ok e = (case e of ParentSignals sigs \<Rightarrow> list_all (\<lambda>(_, pids). list_all (\<lambda>pid. 0 < pid) pids) sigs | _ \<Rightarrow> True)"

lemma parent_ok_signals:
  "parent_ok s \<Longrightarrow> list_all (\<lambda>(_, pids). list_all (\<lambda>pid. 0 < pid) pids) sigs \<Longrightarrow>
     \<exists>s'. parent_signals sigs s = Inr s' \<and> parent_ok s'"
proof (induction sigs s rule: parent_signals.induct)
  case (2 sig pids sigs s)
  have "\<exists>s1. (if sig = 17 then child_exited pids s
              else Inr (if sig = 15 \<or> sig = 2 then kill_children s else s)) = Inr s1 \<and> parent_ok s1"
    using 2(2,3) parent_ok_child_exited [of s pids] by (auto simp: list_all_iff kill_children_def parent_ok_def Let_def)
  then obtain s1 where "(if sig = 17 then child_exited pids s
              else Inr (if sig = 15 \<or> sig = 2 then kill_children s else s)) = Inr s1" "parent_ok s1" by blast
  with 2 show ?case by auto
qed simp

lemma parent_ok_round: "parent_ok s \<Longrightarrow> list_all pids_ok es \<Longrightarrow> \<exists>s'. parent_round es s = Inr s' \<and> parent_ok s'"
proof (induction es s rule: parent_round.induct)
  case (2 es s)
  from parent_ok_dispatch [OF 2(2)] obtain b s1 where "dispatch s = Inr (b, s1)" "parent_ok s1" by blast
  with 2 show ?case by (cases b) auto
next
  case (3 sigs es s)
  from parent_ok_signals [OF 3(2), of sigs] 3(3) obtain s1 where "parent_signals sigs s = Inr s1" "parent_ok s1"
    by (auto simp: pids_ok_def)
  with 3 show ?case by auto
qed auto

lemma run_parent_ok:
  "parent_ok s \<Longrightarrow> list_all (\<lambda>r. case r of None \<Rightarrow> True | Some es \<Rightarrow> list_all pids_ok es) rs \<Longrightarrow>
     \<exists>s'. run_parent rs s = Inr s' \<and> parent_ok s'"
proof (induction rs arbitrary: s)
  case (Cons r rs)
  show ?case
  proof (cases "m_stopped (par_pool s)")
    case False
    show ?thesis
    proof (cases r)
      case (Some es)
      with parent_ok_round [OF Cons.prems(1), of es] Cons.prems(2) obtain s1 where
        "parent_round es s = Inr s1" "parent_ok s1" by auto
      with Cons.IH [of s1] Cons.prems(2) Some False show ?thesis by auto
    qed (use Cons.prems in auto)
  qed (use Cons.prems in auto)
qed simp

text \<open>A parent that has created all its children starts in order.\<close>

lemma create_children_pipes:
  "\<lbrakk>create_children pair fork n i P p = Inr (P', p'); m_idx P' = -1; i + n = length (m_sub_process P);
    \<forall>k < i. \<exists>fds. m_pipefd (m_sub_process P ! k) = Set fds\<rbrakk> \<Longrightarrow>
   length (m_sub_process P') = length (m_sub_process P) \<and> m_process_number P' = m_process_number P \<and>
   (\<forall>k < i + n. \<exists>fds. m_pipefd (m_sub_process P' ! k) = Set fds)"
proof (induction n arbitrary: i P p)
  case (Suc n)
  from Suc.prems(1) obtain fds where f: "pair i = Some fds" "\<not> fork i < 0" by (auto split: option.splits if_splits simp: Let_def)
  let ?P = "P\<lparr>m_sub_process := (m_sub_process P)[i := \<lparr>m_pid = fork i, m_pipefd = Set fds\<rparr>]\<rparr>"
  show ?case
  proof (cases "fork i > 0")
    case True
    with Suc.prems(1) f have c: "create_children pair fork n (i + 1) ?P (effect (Closed (snd fds)) p) = Inr (P', p')" by simp
    have "\<forall>k < i + 1. \<exists>fds. m_pipefd (m_sub_process ?P ! k) = Set fds"
      using Suc.prems(3,4) by (auto simp: nth_list_update less_Suc_eq)
    with Suc.IH [OF c Suc.prems(2)] Suc.prems(3) show ?thesis by simp
  next
    case False
    with Suc.prems(1,2) f show ?thesis by auto
  qed
qed simp

lemma parent_start_ok:
  assumes "processpool_new pair fork listenfd n p = Inr (P, p')" and "m_idx P = -1"
  shows "parent_ok (parent_start r w P p')"
proof -
  from assms(1) have n: "0 < n" "create_children pair fork (nat n) 0
      \<lparr>m_process_number = nat n, m_idx = -1, m_listenfd = listenfd, m_stopped = False,
       m_sub_process = replicate (nat n) process_new\<rparr> p = Inr (P, p')"
    by (auto simp: processpool_new_def split: if_splits)
  from create_children_pipes [OF n(2) assms(2)] n(1) show ?thesis
    by (auto simp: parent_ok_def parent_start_def in_set_conv_nth)
qed

end
