(* ===== verification/Signals.thy ===== *)
theory Signals
  imports Prelude
begin

text \<open>
  Signals and assertions, as the \<open>main\<close> functions use them: the disposition of a signal, the handler that passes it into a
  pipe, and what the loop reads from there. The three servers have the same \<open>addsig\<close>, the main server and the CGI server the
  same \<open>sig_handler\<close> but for the name of its pipe.
\<close>

datatype disposition = DefaultAction | Ignored | Handled

text \<open>The disposition of a signal and its flag \<open>SA_RESTART\<close>.\<close>

type_synonym sigactions = "int \<Rightarrow> disposition \<times> bool"

definition addsig :: "bool \<Rightarrow> int \<Rightarrow> disposition \<Rightarrow> bool \<Rightarrow> sigactions \<Rightarrow> sigactions res" where
  "addsig allowed sig handler restart sa =
     (if allowed then Inr (sa(sig := (handler, restart))) else Inl AssertFailed)"

text \<open>A \<open>char\<close> is signed.\<close>

definition to_char :: "int \<Rightarrow> int" where
  "to_char n = (n + 128) mod 256 - 128"

text \<open>The handler: one byte into a pipe that holds \<open>limit\<close> bytes; a full one refuses it with \<open>EAGAIN\<close>. The second result is
  \<open>errno\<close>.\<close>

definition sig_handler :: "nat \<Rightarrow> int \<Rightarrow> int list \<Rightarrow> int \<Rightarrow> int list \<times> int" where
  "sig_handler limit sig pipe errno =
     (let save_errno = errno; msg = sig;
          (pipe, errno) = (if length pipe < limit then (pipe @ [to_char msg], errno) else (pipe, 11));
          errno = save_errno
      in (pipe, errno))"

text \<open>The signals of a stretch of time, and the \<open>recv\<close> of the loop, which takes up to 1024 of them.\<close>

fun deliver :: "nat \<Rightarrow> int list \<Rightarrow> int list \<Rightarrow> int list" where
  "deliver limit [] pipe = pipe"
| "deliver limit (sig # sigs) pipe = deliver limit sigs (fst (sig_handler limit sig pipe 0))"

definition recv_signals :: "int list \<Rightarrow> int list option \<times> int list" where
  "recv_signals pipe = (if pipe = [] then (None, []) else (Some (take 1024 pipe), drop 1024 pipe))"

text \<open>\<open>assert\<close>.\<close>

definition check :: "bool \<Rightarrow> unit res" where
  "check b = (if b then Inr () else Inl AssertFailed)"

lemma to_char_small: "0 \<le> n \<Longrightarrow> n < 128 \<Longrightarrow> to_char n = n"
  by (simp add: to_char_def)

lemma deliver_result:
  "\<forall>s\<in>set sigs. 0 \<le> s \<and> s < 128 \<Longrightarrow> deliver limit sigs pipe =
     (if length pipe \<le> limit then take limit (pipe @ sigs) else pipe)"
proof (induction sigs arbitrary: pipe)
  case (Cons a sigs)
  show ?case
  proof (cases "length pipe < limit")
    case True
    then obtain k where "limit - length pipe = Suc k" by (metis Suc_diff_Suc)
    moreover from this have "limit - Suc (length pipe) = k" by simp
    ultimately show ?thesis using Cons True by (simp add: sig_handler_def to_char_small)
  next
    case False
    with Cons show ?thesis by (auto simp: sig_handler_def)
  qed
qed simp

end
