(* ===== verification/CgiServer.thy ===== *)
theory CgiServer
  imports ProcessPool Signals
begin

text \<open>
  The whole CGI server: \<open>setup_sig_pipe\<close> with its checks and signals, \<open>processpool::run\<close> and \<open>main\<close> of \<open>pool_cgi.cpp\<close>. Every
  process of the pool runs \<open>main\<close> to its end; what \<open>fork\<close> returned in it decides whether it is the parent. What the system
  answers is the record \<open>cgi_sys\<close>.
\<close>

section \<open>The program\<close>

record cgi_sys =
  cs_socket :: int
  cs_bind :: int
  cs_listen :: int
  cs_pair :: "nat \<Rightarrow> (int \<times> int) option"   \<comment> \<open>\<open>socketpair\<close> for child \<open>i\<close>\<close>
  cs_fork :: "nat \<Rightarrow> int"
  cs_epoll :: int
  cs_sig_pair :: "(int \<times> int) option"
  cs_sigaction :: "int \<Rightarrow> bool"

definition setup_signals :: "cgi_sys \<Rightarrow> sigactions \<Rightarrow> ((int \<times> int) \<times> sigactions) res" where
  "setup_signals B sa =
     andThen (check (cs_epoll B \<noteq> -1)) (\<lambda>_.
     case cs_sig_pair B of
       None \<Rightarrow> Inl AssertFailed
     | Some sig_pipefd \<Rightarrow>
         andThen (addsig (cs_sigaction B 17) 17 Handled True sa) (\<lambda>sa.
         andThen (addsig (cs_sigaction B 15) 15 Handled True sa) (\<lambda>sa.
         andThen (addsig (cs_sigaction B 2) 2 Handled True sa) (\<lambda>sa.
         andThen (addsig (cs_sigaction B 13) 13 Ignored True sa) (\<lambda>sa. Inr (sig_pipefd, sa))))))"

text \<open>Which branch the process took, and its end.\<close>

datatype cgi_end = ChildRan child | ParentRan parent

text \<open>\<open>ces\<close> and \<open>pes\<close> are the results of \<open>epoll_wait\<close> in a child and in the parent.\<close>

definition pool_run :: "cgi_sys \<Rightarrow> (string \<Rightarrow> bool) \<Rightarrow> (nat \<Rightarrow> cgi_conn) \<Rightarrow> child_event list option list \<Rightarrow>
    parent_event list option list \<Rightarrow> processpool \<Rightarrow> proc \<Rightarrow> sigactions \<Rightarrow> (cgi_end \<times> sigactions) res" where
  "pool_run B exists us ces pes P p sa =
     andThen (setup_signals B sa) (\<lambda>(sig_pipefd, sa).
       if m_idx P \<noteq> -1 then
         andThen (run_child exists us sig_pipefd ces P p) (\<lambda>s. Inr (ChildRan s, sa))
       else
         andThen (run_parent pes (parent_start (fst sig_pipefd) (snd sig_pipefd) P p)) (\<lambda>s. Inr (ParentRan s, sa)))"

fun ending :: "effect \<Rightarrow> cgi_end \<Rightarrow> cgi_end" where
  "ending e (ChildRan s) = ChildRan (s\<lparr>ch_proc := effect e (ch_proc s)\<rparr>)"
| "ending e (ParentRan s) = ParentRan (s\<lparr>par_proc := effect e (par_proc s)\<rparr>)"

definition cgi_main :: "cgi_sys \<Rightarrow> (string \<Rightarrow> bool) \<Rightarrow> (nat \<Rightarrow> cgi_conn) \<Rightarrow> child_event list option list \<Rightarrow>
    parent_event list option list \<Rightarrow> proc \<Rightarrow> sigactions \<Rightarrow> (cgi_end \<times> sigactions) res" where
  "cgi_main B exists us ces pes p sa =
     andThen (check (cs_socket B \<ge> 0)) (\<lambda>_.
     andThen (check (cs_bind B \<noteq> -1)) (\<lambda>_.
     andThen (check (cs_listen B \<noteq> -1)) (\<lambda>_.
     andThen (create_pool (cs_pair B) (cs_fork B) (cs_socket B) 8 None p) (\<lambda>(P, p).
     andThen (pool_run B exists us ces pes P p sa) (\<lambda>(r, sa).
       Inr (ending (Closed (cs_socket B)) r, sa))))))"

section \<open>The processes of the pool\<close>

text \<open>The parent: every child in its entry, the other ends of the pipes closed.\<close>

lemma create_children_parent:
  assumes "\<forall>k < n. fork (i + k) > 0 \<and> pair (i + k) = Some (f (i + k))" and "i + n = length (m_sub_process P)"
  shows "\<exists>procs p'. create_children pair fork n i P p = Inr (P\<lparr>m_sub_process := procs\<rparr>, p') \<and>
    length procs = length (m_sub_process P) \<and> (\<forall>k < i. procs ! k = m_sub_process P ! k) \<and>
    (\<forall>k. i \<le> k \<and> k < i + n \<longrightarrow> procs ! k = \<lparr>m_pid = fork k, m_pipefd = Set (f k)\<rparr>) \<and>
    pp_epoll p' = pp_epoll p \<and>
    set (effects p') = set (effects p) \<union> (\<lambda>k. Closed (snd (f k))) ` {i..<i + n}"
  using assms
proof (induction n arbitrary: i P p)
  case 0
  then show ?case by (intro exI [of _ "m_sub_process P"] exI [of _ p]) auto
next
  case (Suc n)
  let ?P = "P\<lparr>m_sub_process := (m_sub_process P)[i := \<lparr>m_pid = fork i, m_pipefd = Set (f i)\<rparr>]\<rparr>"
  have 0: "fork i > 0" "pair i = Some (f i)" using Suc.prems(1) [rule_format, of 0] by simp_all
  have "\<forall>k < n. fork (i + 1 + k) > 0 \<and> pair (i + 1 + k) = Some (f (i + 1 + k))"
    using Suc.prems(1) [rule_format, of "Suc k" for k] by simp
  from Suc.IH [OF this, of ?P "effect (Closed (snd (f i))) p"] Suc.prems(2) obtain procs p' where
    r: "create_children pair fork n (i + 1) ?P (effect (Closed (snd (f i))) p) = Inr (P\<lparr>m_sub_process := procs\<rparr>, p')"
      "length procs = length (m_sub_process P)" "\<forall>k < i + 1. procs ! k = m_sub_process ?P ! k"
      "\<forall>k. i + 1 \<le> k \<and> k < i + 1 + n \<longrightarrow> procs ! k = \<lparr>m_pid = fork k, m_pipefd = Set (f k)\<rparr>"
      "pp_epoll p' = pp_epoll p"
      "set (effects p') = insert (Closed (snd (f i))) (set (effects p)) \<union> (\<lambda>k. Closed (snd (f k))) ` {i + 1..<i + 1 + n}"
    by (auto simp: effect_def)
  have "{i..<i + Suc n} = insert i {i + 1..<i + 1 + n}" by auto
  then have e: "(\<lambda>k. Closed (snd (f k))) ` {i..<i + Suc n} =
      insert (Closed (snd (f i))) ((\<lambda>k. Closed (snd (f k))) ` {i + 1..<i + 1 + n})" by (simp only: image_insert)
  have eff: "set (effects p') = set (effects p) \<union> (\<lambda>k. Closed (snd (f k))) ` {i..<i + Suc n}"
    unfolding r(6) e by simp
  have "procs ! k = \<lparr>m_pid = fork k, m_pipefd = Set (f k)\<rparr>" if "i \<le> k" "k < i + Suc n" for k
    using r(3,4) that Suc.prems(2) by (cases "k = i") (simp_all add: nth_list_update)
  moreover have "\<forall>k < i. procs ! k = m_sub_process P ! k" using r(3) by simp
  ultimately show ?case
    using r(1,2,5) eff 0 by (intro exI [of _ procs] exI [of _ p']) (simp add: Let_def)
qed

section \<open>What the parent leaves behind\<close>

text \<open>Every entry has its pipe \<open>f k\<close>, whose end in the parent is closed when the child is gone.\<close>

definition tidy :: "(nat \<Rightarrow> int \<times> int) \<Rightarrow> pp_process list \<Rightarrow> proc \<Rightarrow> bool" where
  "tidy f procs p \<longleftrightarrow> (\<forall>k < length procs. m_pipefd (procs ! k) = Set (f k) \<and>
     (dead (procs ! k) \<longrightarrow> Closed (fst (f k)) \<in> set (effects p)))"

lemma tidy_mono: "tidy f procs p \<Longrightarrow> set (effects p) \<subseteq> set (effects p') \<Longrightarrow> tidy f procs p'"
  by (auto simp: tidy_def)

lemma set_effect [simp]: "set (effects (effect e p)) = insert e (set (effects p))"
  by (simp add: effect_def)

lemma close_child_tidy:
  "close_child pid n i procs p = Inr (procs', p') \<Longrightarrow> tidy f procs p \<Longrightarrow>
     tidy f procs' p' \<and> length procs' = length procs \<and> set (effects p) \<subseteq> set (effects p')"
proof (induction n arbitrary: i procs p)
  case (Suc n)
  from Suc.prems(1) have i: "i < length procs" by (auto split: if_splits)
  show ?case
  proof (cases "m_pid (procs ! i) = pid")
    case True
    have f: "m_pipefd (procs ! i) = Set (f i)" using Suc.prems(2) i by (simp add: tidy_def)
    let ?procs = "procs[i := (procs ! i)\<lparr>m_pid := -1\<rparr>]"
    have "tidy f ?procs (effect (Closed (fst (f i))) p)"
      unfolding tidy_def
    proof (intro allI impI)
      fix k assume "k < length ?procs"
      then show "m_pipefd (?procs ! k) = Set (f k) \<and>
          (dead (?procs ! k) \<longrightarrow> Closed (fst (f k)) \<in> set (effects (effect (Closed (fst (f i))) p)))"
        using Suc.prems(2) f by (cases "k = i") (auto simp: tidy_def)
    qed
    from Suc.IH [OF _ this, of "i + 1"] Suc.prems(1) i True f show ?thesis by auto
  next
    case False
    with Suc.IH [OF _ Suc.prems(2), of "i + 1"] Suc.prems(1) i show ?thesis by auto
  qed
qed simp

lemma reap_tidy:
  "reap pids n procs p = Inr (procs', p') \<Longrightarrow> tidy f procs p \<Longrightarrow>
     tidy f procs' p' \<and> length procs' = length procs \<and> set (effects p) \<subseteq> set (effects p')"
proof (induction pids arbitrary: procs p)
  case (Cons pid pids)
  show ?case
  proof (cases "pid \<le> 0")
    case False
    with Cons.prems(1) obtain procs1 p1 where 1: "close_child pid n 0 procs p = Inr (procs1, p1)"
      "reap pids n procs1 p1 = Inr (procs', p')" by auto
    from close_child_tidy [OF 1(1) Cons.prems(2)] Cons.IH [OF 1(2)] show ?thesis by auto
  qed (use Cons.prems in auto)
qed simp

text \<open>The invariant of the parent; \<open>E\<close> is what it had done when it entered its loop.\<close>

definition parent_tidy :: "(nat \<Rightarrow> int \<times> int) \<Rightarrow> nat \<Rightarrow> effect set \<Rightarrow> parent \<Rightarrow> bool" where
  "parent_tidy f n E s \<longleftrightarrow> parent_ok s \<and> tidy f (m_sub_process (par_pool s)) (par_proc s) \<and>
     m_process_number (par_pool s) = n \<and> E \<subseteq> set (effects (par_proc s)) \<and>
     (m_stopped (par_pool s) \<longrightarrow> list_all dead (m_sub_process (par_pool s)))"

lemma parent_tidy_exited:
  assumes "parent_tidy f n E s" and "child_exited pids s = Inr s'" and "\<forall>pid \<in> set pids. 0 < pid"
  shows "parent_tidy f n E s'"
proof -
  obtain procs p where r: "reap pids (m_process_number (par_pool s)) (m_sub_process (par_pool s)) (par_proc s) = Inr (procs, p)"
    "s' = s\<lparr>par_pool := (par_pool s)\<lparr>m_sub_process := procs,
       m_stopped := list_all (\<lambda>c. m_pid c = -1) (take (m_process_number (par_pool s)) procs)\<rparr>, par_proc := p\<rparr>"
    using assms(2) by (auto simp: child_exited_def Let_def)
  have ok: "parent_ok s" using assms(1) by (simp add: parent_tidy_def)
  from reap_tidy [OF r(1)] assms(1) have t: "tidy f procs p" "length procs = m_process_number (par_pool s)"
    "set (effects (par_proc s)) \<subseteq> set (effects p)" by (auto simp: parent_tidy_def parent_ok_def)
  moreover have "parent_ok s'" using parent_ok_child_exited [OF ok assms(3)] assms(2) by auto
  ultimately show ?thesis using assms(1) unfolding parent_tidy_def r(2) by (auto simp: dead_def list_all_iff)
qed

lemma parent_tidy_effect:
  "parent_tidy f n E s \<Longrightarrow> parent_tidy f n E (s\<lparr>par_proc := effect e (par_proc s)\<rparr>)"
  by (auto simp: parent_tidy_def parent_ok_def intro: tidy_mono)

lemma parent_tidy_kill: "parent_tidy f n E s \<Longrightarrow> parent_tidy f n E (kill_children s)"
proof -
  have fold: "set (effects p) \<subseteq> set (effects (fold (\<lambda>c. effect (Killed (m_pid c))) cs p))" for cs p
    by (induction cs arbitrary: p) (auto, fastforce)
  assume "parent_tidy f n E s"
  with fold tidy_mono show ?thesis
    unfolding parent_tidy_def kill_children_def Let_def parent_ok_def by (simp, blast)
qed

lemma parent_tidy_signals:
  "parent_tidy f n E s \<Longrightarrow> list_all (\<lambda>(_, pids). list_all (\<lambda>pid. 0 < pid) pids) sigs \<Longrightarrow>
     parent_signals sigs s = Inr s' \<Longrightarrow> parent_tidy f n E s'"
proof (induction sigs s rule: parent_signals.induct)
  case (2 sig pids sigs s)
  from 2(4) obtain s1 where 1: "(if sig = 17 then child_exited pids s
      else Inr (if sig = 15 \<or> sig = 2 then kill_children s else s)) = Inr s1" "parent_signals sigs s1 = Inr s'" by auto
  have "parent_tidy f n E s1"
    using 1(1) 2(2,3) parent_tidy_exited [OF 2(2), of pids s1] parent_tidy_kill [OF 2(2)]
    by (auto simp: list_all_iff split: if_splits)
  with 2(1) [OF 1(1)] 2(3) 1(2) show ?case by simp
qed simp

lemma parent_tidy_dispatch:
  assumes "parent_tidy f n E s" and "dispatch s = Inr (b, s')"
  shows "parent_tidy f n E s'"
proof -
  have ok: "parent_ok s" using assms(1) by (simp add: parent_tidy_def)
  then have ok': "parent_ok s'" using parent_ok_dispatch assms(2) by fastforce
  show ?thesis
  proof (cases "list_all dead (m_sub_process (par_pool s))")
    case True
    with dispatch_next [OF ok] assms have "s' = s\<lparr>par_pool := (par_pool s)\<lparr>m_stopped := True\<rparr>\<rparr>" by simp
    with True assms(1) ok' show ?thesis by (simp add: parent_tidy_def)
  next
    case False
    with dispatch_next [OF ok] assms obtain c e where "s' = s\<lparr>sub_process_counter := c, par_proc := effect e (par_proc s)\<rparr>" by auto
    with assms(1) ok' show ?thesis by (auto simp: parent_tidy_def intro: tidy_mono)
  qed
qed

lemma parent_tidy_round:
  "parent_tidy f n E s \<Longrightarrow> list_all pids_ok es \<Longrightarrow> parent_round es s = Inr s' \<Longrightarrow> parent_tidy f n E s'"
proof (induction es s rule: parent_round.induct)
  case (2 es s)
  from 2(4) obtain b s1 where 1: "dispatch s = Inr (b, s1)" "(if b then Inr s1 else parent_round es s1) = Inr s'" by auto
  with parent_tidy_dispatch [OF 2(2) 1(1)] 2(1) [OF 1(1) refl] 2(3) show ?case by (auto split: if_splits)
next
  case (3 sigs es s)
  from 3(4) obtain s1 where 1: "parent_signals sigs s = Inr s1" "parent_round es s1 = Inr s'" by auto
  with 3 parent_tidy_signals [OF 3(2) _ 1(1)] show ?case by (auto simp: pids_ok_def)
qed auto

lemma run_parent_tidy:
  "parent_tidy f n E s \<Longrightarrow> list_all (\<lambda>r. case r of None \<Rightarrow> True | Some es \<Rightarrow> list_all pids_ok es) rs \<Longrightarrow>
     run_parent rs s = Inr s' \<Longrightarrow> parent_tidy f n E s'"
proof (induction rs arbitrary: s)
  case (Cons r rs)
  show ?case
  proof (cases "m_stopped (par_pool s) \<or> r = None")
    case False
    then obtain es where r: "r = Some es" by auto
    with Cons.prems(3) False obtain s1 where "parent_round es s = Inr s1" "run_parent rs s1 = Inr s'" by auto
    with Cons.IH [of s1] Cons.prems(1,2) parent_tidy_round [OF Cons.prems(1), of es s1] r show ?thesis by auto
  next
    case True
    with Cons.prems(1,3) have "s' = s" by (auto split: if_splits)
    with Cons.prems(1) show ?thesis by simp
  qed
qed simp

text \<open>A child finds itself at its index, with its own end of its pipe.\<close>

lemma create_children_child:
  assumes "\<forall>j < k. fork (i + j) > 0 \<and> pair (i + j) = Some (f (i + j))" and "fork (i + k) = 0"
    and "pair (i + k) = Some (f (i + k))" and "k < n" and "i + n = length (m_sub_process P)"
  shows "\<exists>procs p'. create_children pair fork n i P p = Inr (P\<lparr>m_sub_process := procs, m_idx := int (i + k)\<rparr>, p') \<and>
    length procs = length (m_sub_process P) \<and> m_pipefd (procs ! (i + k)) = Set (f (i + k))"
  using assms
proof (induction n arbitrary: i k P p)
  case (Suc n)
  show ?case
  proof (cases k)
    case 0
    with Suc.prems show ?thesis by (auto simp: Let_def)
  next
    case (Suc l)
    let ?P = "P\<lparr>m_sub_process := (m_sub_process P)[i := \<lparr>m_pid = fork i, m_pipefd = Set (f i)\<rparr>]\<rparr>"
    have 0: "fork i > 0" "pair i = Some (f i)" using Suc.prems(1) [rule_format, of 0] Suc by simp_all
    have "\<forall>j < l. fork (i + 1 + j) > 0 \<and> pair (i + 1 + j) = Some (f (i + 1 + j))"
      using Suc.prems(1) [rule_format, of "Suc j" for j] Suc by simp
    from Suc.IH [OF this, of ?P "effect (Closed (snd (f i))) p"] Suc.prems Suc 0 show ?thesis
      by (fastforce simp: Let_def)
  qed
qed simp

lemma cgi_child_starts:
  assumes "\<forall>j < k. cs_fork B j > 0 \<and> cs_pair B j = Some (f j)" and "cs_fork B k = 0" and "cs_pair B k = Some (f k)" and "k < 8"
  shows "\<exists>P p'. create_pool (cs_pair B) (cs_fork B) (cs_socket B) 8 None p = Inr (P, p') \<and>
    m_idx P = int k \<and> \<not> m_stopped P \<and> m_pipefd (m_sub_process P ! k) = Set (f k)"
  using create_children_child [of k "cs_fork B" 0 "cs_pair B" f 8
      "\<lparr>m_process_number = 8, m_idx = -1, m_listenfd = cs_socket B, m_stopped = False,
        m_sub_process = replicate 8 process_new\<rparr>" p] assms
  by (auto simp: create_pool_def processpool_new_def MAX_PROCESS_NUMBER_def)

section \<open>Properties\<close>

text \<open>C20: the life of the parent. When the system grants what it asks for, the parent sets its signals, creates its eight
  children and never faults, whatever events come; and if it stops of its own accord, every child has exited and both
  ends of every pipe that it held, and the listening socket, are closed.\<close>

theorem cgi_parent_lifetime:
  assumes "cs_socket B \<ge> 0" and "cs_bind B \<noteq> -1" and "cs_listen B \<noteq> -1" and "cs_epoll B \<noteq> -1"
    and "cs_sig_pair B = Some sp" and "\<forall>sig. cs_sigaction B sig"
    and "\<forall>k < 8. cs_fork B k > 0 \<and> cs_pair B k = Some (f k)"
    and "list_all (\<lambda>r. case r of None \<Rightarrow> True | Some es \<Rightarrow> list_all pids_ok es) pes"
  shows "\<exists>s sa'. cgi_main B exists us ces pes p sa = Inr (ParentRan s, sa') \<and>
    (\<forall>sig \<in> {17, 15, 2}. sa' sig = (Handled, True)) \<and> sa' 13 = (Ignored, True) \<and>
    (m_stopped (par_pool s) \<longrightarrow> (\<forall>k < 8. dead (m_sub_process (par_pool s) ! k) \<and>
       {Closed (fst (f k)), Closed (snd (f k)), Closed (cs_socket B)} \<subseteq> set (effects (par_proc s))))"
proof -
  let ?P0 = "\<lparr>m_process_number = 8, m_idx = -1, m_listenfd = cs_socket B, m_stopped = False,
        m_sub_process = replicate 8 process_new\<rparr>"
  obtain procs p1 where c: "create_children (cs_pair B) (cs_fork B) 8 0 ?P0 p = Inr (?P0\<lparr>m_sub_process := procs\<rparr>, p1)"
    "length procs = 8" "\<forall>k < 8. procs ! k = \<lparr>m_pid = cs_fork B k, m_pipefd = Set (f k)\<rparr>"
    "set (effects p1) = set (effects p) \<union> (\<lambda>k. Closed (snd (f k))) ` {0..<8}"
    using create_children_parent [of 8 "cs_fork B" 0 "cs_pair B" f ?P0 p] assms(7) by auto
  let ?P = "?P0\<lparr>m_sub_process := procs\<rparr>" and ?E = "(\<lambda>k. Closed (snd (f k))) ` {0..<8}"
  let ?s0 = "parent_start (fst sp) (snd sp) ?P p1"
  let ?sa = "sa(17 := (Handled, True), 15 := (Handled, True), 2 := (Handled, True), 13 := (Ignored, True))"
  have new: "create_pool (cs_pair B) (cs_fork B) (cs_socket B) 8 None p = Inr (?P, p1)"
    using c(1) by (simp add: create_pool_def processpool_new_def MAX_PROCESS_NUMBER_def)
  then have "parent_ok ?s0" by (intro parent_start_ok) (simp_all add: create_pool_def)
  moreover have "\<not> dead (procs ! k)" if "k < 8" for k
    using assms(7) c(3) that by (metis dead_def neg_0_less_iff_less not_one_less_zero pp_process.select_convs(1))
  then have "tidy f procs (par_proc ?s0)" using c(2,3) by (simp add: tidy_def)
  ultimately have t0: "parent_tidy f 8 ?E ?s0"
    using c(4) by (auto simp: parent_tidy_def parent_start_def setup_sig_pipe_def pp_addfd_def pp_setnonblocking_def)
  then obtain s where s: "run_parent pes ?s0 = Inr s"
    using run_parent_ok [OF _ assms(8), of ?s0] by (auto simp: parent_tidy_def)
  have t: "parent_tidy f 8 ?E s" by (rule run_parent_tidy [OF t0 assms(8) s])
  have len: "length (m_sub_process (par_pool s)) = 8" using t by (simp add: parent_tidy_def parent_ok_def)
  let ?s = "s\<lparr>par_proc := effect (Closed (cs_socket B)) (par_proc s)\<rparr>"
  have "pool_run B exists us ces pes ?P p1 sa = Inr (ParentRan s, ?sa)"
    using assms(4-6) s by (simp add: pool_run_def setup_signals_def check_def addsig_def)
  then have "cgi_main B exists us ces pes p sa = Inr (ParentRan ?s, ?sa)"
    using assms(1-3) new by (simp add: cgi_main_def check_def)
  moreover have "dead (m_sub_process (par_pool s) ! k) \<and>
       {Closed (fst (f k)), Closed (snd (f k)), Closed (cs_socket B)} \<subseteq> set (effects (par_proc ?s))"
    if "m_stopped (par_pool s)" "k < 8" for k
  proof -
    have "dead (m_sub_process (par_pool s) ! k)" using t that len by (simp add: parent_tidy_def list_all_length)
    moreover have "Closed (snd (f k)) \<in> set (effects (par_proc s))"
      using t that(2) unfolding parent_tidy_def by (meson atLeastLessThan_iff image_eqI subsetD zero_le)
    ultimately show ?thesis using t that len by (auto simp: parent_tidy_def tidy_def)
  qed
  ultimately show ?thesis by (intro exI [of _ ?s] exI [of _ ?sa]) simp
qed

definition demo_cgi_sys :: cgi_sys where
  "demo_cgi_sys = \<lparr>cs_socket = 3, cs_bind = 0, cs_listen = 0, cs_pair = (\<lambda>i. Some (10 + 2 * int i, 11 + 2 * int i)),
     cs_fork = (\<lambda>i. 101 + int i), cs_epoll = 4, cs_sig_pair = Some (5, 6), cs_sigaction = (\<lambda>_. True)\<rparr>"

theorem cgi_parent_lifetime_witness:
  "\<exists>s sa'. cgi_main demo_cgi_sys (\<lambda>_. False) (\<lambda>_. demo_cgi) []
       [Some [ParentSignals [(17, [101, 102, 103, 104, 105, 106, 107, 108])]], None] demo_proc (\<lambda>_. (DefaultAction, False)) =
       Inr (ParentRan s, sa') \<and>
     m_stopped (par_pool s) \<and> sa' 15 = (Handled, True) \<and> {Closed 3, Closed 24, Closed 25} \<subseteq> set (effects (par_proc s))"
proof -
  let ?run = "cgi_main demo_cgi_sys (\<lambda>_. False) (\<lambda>_. demo_cgi) []
       [Some [ParentSignals [(17, [101, 102, 103, 104, 105, 106, 107, 108])]], None] demo_proc (\<lambda>_. (DefaultAction, False))"
  have "\<exists>s sa'. ?run = Inr (ParentRan s, sa') \<and>
    (\<forall>sig \<in> {17, 15, 2}. sa' sig = (Handled, True)) \<and> sa' 13 = (Ignored, True) \<and>
    (m_stopped (par_pool s) \<longrightarrow> (\<forall>k < 8. dead (m_sub_process (par_pool s) ! k) \<and>
       {Closed (fst (10 + 2 * int k, 11 + 2 * int k)), Closed (snd (10 + 2 * int k, 11 + 2 * int k)),
        Closed (cs_socket demo_cgi_sys)} \<subseteq> set (effects (par_proc s))))"
    by (rule cgi_parent_lifetime [where sp = "(5, 6)"]) (simp_all add: demo_cgi_sys_def pids_ok_def)
  then obtain s sa' where r: "?run = Inr (ParentRan s, sa')" "sa' 15 = (Handled, True)"
    "m_stopped (par_pool s) \<Longrightarrow> k < 8 \<Longrightarrow> {Closed (10 + 2 * int k), Closed (11 + 2 * int k), Closed 3} \<subseteq> set (effects (par_proc s))" for k
    by (auto simp: demo_cgi_sys_def)
  have "case ?run of Inr (ParentRan s, _) \<Rightarrow> m_stopped (par_pool s) | _ \<Rightarrow> False" by code_simp
  then have "m_stopped (par_pool s)" by (simp add: r(1))
  with r(1,2) r(3) [of 7] show ?thesis by auto
qed

end
