(* ===== verification/UserTable.thy ===== *)
theory UserTable
  imports SqlPool HttpRequest
begin

text \<open>
  \<open>http_conn::initmysql_result\<close> of \<open>src/http/http_conn.cpp\<close>, which fills the table of accounts at the start of the
  server over a connection from the pool. A row of the result is the list of its columns, \<open>None\<close> for a null column;
  \<open>store\<close> is \<open>mysql_store_result\<close> with the fetching of the rows, \<open>None\<close> for a null result.
\<close>

definition column :: "string option list \<Rightarrow> nat \<Rightarrow> string res" where
  "column row i = (if i < length row then deref (row ! i) else Inl OutOfBounds)"

fun load_rows :: "string option list list \<Rightarrow> (string \<rightharpoonup> string) \<Rightarrow> (string \<rightharpoonup> string) res" where
  "load_rows [] table = Inr table"
| "load_rows (row # rows) table =
     andThen (column row 0) (\<lambda>temp1.
     andThen (column row 1) (\<lambda>temp2. load_rows rows (table(temp1 \<mapsto> temp2))))"

definition select_users :: string where
  "select_users = ''SELECT username,passwd FROM user''"

text \<open>\<open>None\<close>: the constructor of \<open>mysqlcon\<close> waits for a connection.\<close>

definition initmysql_result :: "('m, 'd) os \<Rightarrow> ('m option \<Rightarrow> 'd \<Rightarrow> string) \<Rightarrow>
    ('m option \<Rightarrow> 'd \<Rightarrow> string option list list option) \<Rightarrow> 'm connection_pool \<Rightarrow> 'd world \<Rightarrow>
    ('m connection_pool \<times> 'd world) res option" where
  "initmysql_result os mysql_error store connPool w =
     map_option (\<lambda>r.
       andThen r (\<lambda>(con, P).
       let (err, d) = mysql_query os con select_users (db w);
           w = emit (Query select_users) (w\<lparr>db := d\<rparr>);
           w = (if err \<noteq> 0 then emit (LogError (''SELECT error:'' @ mysql_error con d @ [LF])) w else w)
       in andThen (deref (store con d)) (\<lambda>rows.
          andThen (load_rows rows (users w)) (\<lambda>table.
          andThen (connectionRAII_delete con P) (\<lambda>P. Inr (P, w\<lparr>users := table\<rparr>))))))
       (connectionRAII_new connPool)"

section \<open>The accounts after the start\<close>

definition account_row :: "string \<times> string \<Rightarrow> string option list" where
  "account_row a = [Some (fst a), Some (snd a)]"

lemma load_rows_accounts: "load_rows (map account_row as) table = Inr (table ++ map_of (rev as))"
proof (induction as arbitrary: table)
  case (Cons a as)
  then show ?case
    by (auto simp: account_row_def column_def map_add_def fun_upd_def fun_eq_iff split: option.split)
qed simp

text \<open>A row of the table that is not two strings faults: \<open>string(NULL)\<close>.\<close>

lemma load_rows_null: "load_rows (map account_row as @ [Some n, None] # rows) table = Inl NullPointer"
proof (induction as arbitrary: table)
  case (Cons a as)
  then show ?case by (cases a) (simp add: account_row_def column_def)
qed (simp add: column_def)

text \<open>The start as a whole, on a pool with a free connection: the connection comes back to the end of the list.\<close>

lemma initmysql_result_loads:
  assumes "lock P = Free" and "reserve P = length (connList P)" and "connList P = con # cs"
    and "mysql_query os (Some con) select_users (db w) = (0, d)"
    and "store (Some con) d = Some (map account_row as)"
  shows "initmysql_result os mysql_error store P w = Some (Inr (P\<lparr>connList := cs @ [con]\<rparr>,
    w\<lparr>db := d, trace := trace w @ [Query select_users], users := users w ++ map_of (rev as)\<rparr>))"
  using connectionRAII_roundtrip [OF assms(1,2)] assms(3-)
  by (simp add: initmysql_result_def emit_def load_rows_accounts)

text \<open>C29: the accounts of the database are those \<open>login\<close> accepts. After \<open>initmysql_result\<close> on a table with one row per
  name, a name with a password leads to the welcome page exactly when the pair is a row, and the pool has its
  connection back.\<close>

theorem accounts_loaded:
  assumes "lock P = Free" and "reserve P = length (connList P)" and "connList P \<noteq> []"
    and "users w = Map.empty" and "distinct (map fst as)"
    and "\<forall>con. mysql_query os con select_users (db w) = (0, d) \<and> store con d = Some (map account_row as)"
  shows "\<exists>P' w'. initmysql_result os mysql_error store P w = Some (Inr (P', w')) \<and>
    P' = P\<lparr>connList := rotate1 (connList P)\<rparr> \<and>
    (\<forall>name password. login name password w' =
       (if (name, password) \<in> set as then ''/welcome.html'' else ''/loginError.html''))"
proof -
  obtain con cs where c: "connList P = con # cs" using assms(3) by (cases "connList P") auto
  have "distinct (map fst (rev as))" using assms(5) by (simp add: rev_map [symmetric])
  then have "map_of (rev as) name = Some password \<longleftrightarrow> (name, password) \<in> set as" for name password
    by simp
  then show ?thesis
    using initmysql_result_loads [OF assms(1,2) c, of os w d store as mysql_error] assms(4,6) c
    by (simp add: login_def)
qed

theorem accounts_loaded_witness:
  "\<exists>P' w'. initmysql_result \<lparr>stat = (\<lambda>_. None), mmap_file = (\<lambda>_ _. MapFailed), mysql_query = (\<lambda>_ _ d. (0, d))\<rparr>
       (\<lambda>_ _. []) (\<lambda>_ _. Some [[Some ''ann'', Some ''1''], [Some ''bob'', Some ''2'']]) demo_pool
       \<lparr>m_epollfd = 3, m_user_count = 0, users = Map.empty, m_lock = locker_new, epoll = (\<lambda>_ _. None),
        fd_flags = (\<lambda>_. 0), db = (), trace = []\<rparr> = Some (Inr (P', w')) \<and>
     connList P' = [11, 10] \<and> login ''bob'' ''2'' w' = ''/welcome.html'' \<and> login ''bob'' ''1'' w' = ''/loginError.html''"
proof -
  let ?os = "\<lparr>stat = (\<lambda>_. None), mmap_file = (\<lambda>_ _. MapFailed), mysql_query = (\<lambda>_ _ d. (0, d))\<rparr> :: (nat, unit) os"
  let ?w = "\<lparr>m_epollfd = 3, m_user_count = 0, users = Map.empty, m_lock = locker_new, epoll = (\<lambda>_ _. None),
        fd_flags = (\<lambda>_. 0), db = (), trace = []\<rparr> :: unit world"
  let ?as = "[(''ann'', ''1''), (''bob'', ''2'')]"
  have "\<forall>con. mysql_query ?os con select_users (db ?w) = (0, ()) \<and>
      Some [[Some ''ann'', Some ''1''], [Some ''bob'', Some ''2'']] = Some (map account_row ?as)"
    by (simp add: account_row_def)
  from accounts_loaded [OF _ _ _ _ _ this, of demo_pool "\<lambda>_ _. []"] show ?thesis
    by (auto simp: demo_pool_def connection_pool_new_def locker_new_def)
qed

end
