(* ===== verification/AsyncLog.thy ===== *)
theory AsyncLog
  imports CString BlockQueue
begin

text \<open>
  The logger of \<open>inc/log.h\<close> and \<open>src/log/log.cpp\<close>: \<open>init\<close>, \<open>write_log\<close> with its change of files, \<open>flush\<close> and the thread
  that takes lines from the queue. The object is a local static, so its members start as zeros. A \<open>FILE\<close> is the name it
  was opened with; the disk maps a name to the text its file holds once the buffers of the library are written, which
  \<open>fflush\<close> does not change. The date comes from the caller's clock, and the formatted text of a message is given.
\<close>

section \<open>The class\<close>

record log =
  dir_name :: buffer
  log_name :: buffer
  m_split_lines :: int
  m_count :: int
  m_today :: int
  m_fp :: "string option"
  m_buf :: "buffer option"
  m_log_buf_size :: int
  m_log_queue :: "string block_queue option"
  m_is_async :: bool
  log_mutex :: locker

definition log_new :: log where
  "log_new = \<lparr>dir_name = replicate 128 NUL, log_name = replicate 128 NUL, m_split_lines = 0, m_count = 0,
     m_today = 0, m_fp = None, m_buf = None, m_log_buf_size = 0, m_log_queue = None, m_is_async = False,
     log_mutex = locker_new\<rparr>"

text \<open>\<open>struct tm\<close>, with the microseconds of \<open>gettimeofday\<close>.\<close>

record tm =
  tm_year :: int
  tm_mon :: nat
  tm_mday :: nat
  tm_hour :: nat
  tm_min :: nat
  tm_sec :: nat
  tv_usec :: nat

text \<open>What is open, and the contents of the files; the library's \<open>fopen\<close> may refuse a name.\<close>

type_synonym disk = "string \<Rightarrow> string"

definition fopen_append :: "(string \<Rightarrow> bool) \<Rightarrow> string \<Rightarrow> string option" where
  "fopen_append can_open name = (if can_open name then Some name else None)"

text \<open>\<open>snprintf\<close> into a fresh array of zeros, read back as a string.\<close>

definition local_text :: "nat \<Rightarrow> nat \<Rightarrow> string \<Rightarrow> string res" where
  "local_text len n s = andThen (snprintf (replicate len NUL) 0 n s) (\<lambda>(_, b). cstr b 0)"

text \<open>\<open>%d_%02d_%02d_\<close>\<close>

definition date_text :: "tm \<Rightarrow> string" where
  "date_text t = show_int (tm_year t + 1900) @ ''_'' @ show_02d (tm_mon t + 1) @ ''_'' @ show_02d (tm_mday t) @ ''_''"

section \<open>init\<close>

definition log_init :: "(string \<Rightarrow> bool) \<Rightarrow> tm \<Rightarrow> string \<Rightarrow> int \<Rightarrow> int \<Rightarrow> int \<Rightarrow> log \<Rightarrow> (bool \<times> log) res" where
  "log_init can_open my_tm file_name log_buf_size split_lines max_queue_size L =
     andThen (if max_queue_size \<ge> 1
              then andThen (block_queue_new [] max_queue_size) (\<lambda>q. Inr (L\<lparr>m_is_async := True, m_log_queue := Some q\<rparr>))
              else Inr L) (\<lambda>L.
     if log_buf_size < 0 then Inl Thrown else
     let L = L\<lparr>m_log_buf_size := log_buf_size, m_buf := Some (replicate (nat log_buf_size) NUL),
               dir_name := replicate 128 NUL, log_name := replicate 128 NUL, m_split_lines := split_lines\<rparr> in
     andThen (strrchr (file_name @ [NUL]) 0 (CHR ''/'')) (\<lambda>p.
     andThen
       (case p of
          None \<Rightarrow>
            andThen (strcpy (log_name L) 0 file_name) (\<lambda>name.
            andThen (local_text 256 255 (date_text my_tm @ file_name)) (\<lambda>full.
              Inr (L\<lparr>log_name := name\<rparr>, full)))
        | Some p \<Rightarrow>
            andThen (strcpy (log_name L) 0 (drop (p + 1) file_name)) (\<lambda>name.
            andThen (strncpy (dir_name L) 0 file_name (p + 1)) (\<lambda>dir.
            andThen (cstr dir 0) (\<lambda>d.
            andThen (cstr name 0) (\<lambda>f.
            andThen (local_text 256 255 (d @ date_text my_tm @ f)) (\<lambda>full.
              Inr (L\<lparr>dir_name := dir, log_name := name\<rparr>, full)))))))
       (\<lambda>(L, full).
          let fp = fopen_append can_open full
          in Inr (fp \<noteq> None, L\<lparr>m_today := int (tm_mday my_tm), m_fp := fp\<rparr>))))"

section \<open>write\_log\<close>

definition level_text :: "int \<Rightarrow> string" where
  "level_text level =
     (if level = 0 then ''[debug]:'' else if level = 1 then ''[info]:'' else if level = 2 then ''[warn]:''
      else if level = 3 then ''[erro]:'' else ''[info]:'')"

text \<open>C's \<open>/\<close>, which truncates towards zero, and the two operations with their check of the divisor.\<close>

definition c_div :: "int \<Rightarrow> int \<Rightarrow> int" where
  "c_div a b = sgn a * sgn b * (\<bar>a\<bar> div \<bar>b\<bar>)"

definition rem_checked :: "int \<Rightarrow> int \<Rightarrow> int res" where
  "rem_checked a b = (if b = 0 then Inl DivideByZero else Inr (c_mod a b))"

text \<open>The name of the next file: a new day starts its count again, and a full file gets a number.\<close>

definition new_log_name :: "tm \<Rightarrow> log \<Rightarrow> (string \<times> log) res" where
  "new_log_name my_tm L =
     andThen (local_text 16 16 (date_text my_tm)) (\<lambda>tail.
     andThen (cstr (dir_name L) 0) (\<lambda>dir.
     andThen (cstr (log_name L) 0) (\<lambda>name.
       if m_today L \<noteq> int (tm_mday my_tm) then
         andThen (local_text 256 255 (dir @ tail @ name)) (\<lambda>new_log.
           Inr (new_log, L\<lparr>m_today := int (tm_mday my_tm), m_count := 0\<rparr>))
       else
         andThen (local_text 256 255 (dir @ tail @ name @ ''.'' @ show_int (c_div (m_count L) (m_split_lines L)))) (\<lambda>new_log.
           Inr (new_log, L)))))"

text \<open>The first critical section. \<open>fflush\<close> and \<open>fclose\<close> of a null \<open>m_fp\<close> are a fault.\<close>

definition change_file :: "(string \<Rightarrow> bool) \<Rightarrow> tm \<Rightarrow> log \<Rightarrow> log res" where
  "change_file can_open my_tm L =
     andThen (locker_lock (log_mutex L)) (\<lambda>l.
     let L = L\<lparr>log_mutex := l, m_count := m_count L + 1\<rparr> in
     andThen (if m_today L \<noteq> int (tm_mday my_tm) then Inr True
              else andThen (rem_checked (m_count L) (m_split_lines L)) (\<lambda>r. Inr (r = 0))) (\<lambda>change.
     andThen (if change then
                andThen (deref (m_fp L)) (\<lambda>_.
                andThen (new_log_name my_tm L) (\<lambda>(new_log, L).
                  Inr (L\<lparr>m_fp := fopen_append can_open new_log\<rparr>)))
              else Inr L) (\<lambda>L.
     andThen (locker_unlock (log_mutex L)) (\<lambda>l. Inr (L\<lparr>log_mutex := l\<rparr>)))))"

text \<open>\<open>%d-%02d-%02d %02d:%02d:%02d.%06ld %s \<close>\<close>

definition show_06d :: "nat \<Rightarrow> string" where
  "show_06d n = replicate (6 - length (show_nat n)) (CHR ''0'') @ show_nat n"

definition stamp :: "int \<Rightarrow> tm \<Rightarrow> string" where
  "stamp level t =
     show_int (tm_year t + 1900) @ ''-'' @ show_02d (tm_mon t + 1) @ ''-'' @ show_02d (tm_mday t) @ '' '' @
     show_02d (tm_hour t) @ '':'' @ show_02d (tm_min t) @ '':'' @ show_02d (tm_sec t) @ ''.'' @
     show_06d (tv_usec t) @ '' '' @ level_text level @ '' ''"

text \<open>The bytes stored in \<open>m_buf\<close>: stamp, message, line end and NUL; the result is the line read back.\<close>

definition format_buf :: "nat \<Rightarrow> string \<Rightarrow> string \<Rightarrow> buffer \<Rightarrow> (string \<times> buffer) res" where
  "format_buf room st msg b =
     andThen (snprintf b 0 48 st) (\<lambda>(n, b).
     andThen (snprintf b n room msg) (\<lambda>(m, b).
     andThen (wr b (n + m) LF) (\<lambda>b.
     andThen (wr b (n + m + 1) NUL) (\<lambda>b.
     andThen (cstr b 0) (\<lambda>log_str. Inr (log_str, b))))))"

text \<open>The second critical section.\<close>

definition format_line :: "int \<Rightarrow> tm \<Rightarrow> string \<Rightarrow> log \<Rightarrow> (string \<times> log) res" where
  "format_line level my_tm msg L =
     andThen (locker_lock (log_mutex L)) (\<lambda>l.
     andThen (deref (m_buf L)) (\<lambda>b.
     andThen (format_buf (nat (m_log_buf_size L - 1)) (stamp level my_tm) msg b) (\<lambda>(log_str, b).
     andThen (locker_unlock l) (\<lambda>l. Inr (log_str, L\<lparr>log_mutex := l, m_buf := Some b\<rparr>)))))"

text \<open>\<open>fputs\<close> under the mutex, of \<open>write_log\<close> without a queue and of the thread.\<close>

definition put_line :: "string \<Rightarrow> log \<Rightarrow> disk \<Rightarrow> (log \<times> disk) res" where
  "put_line s L D =
     andThen (locker_lock (log_mutex L)) (\<lambda>l.
     andThen (deref (m_fp L)) (\<lambda>f.
     andThen (locker_unlock l) (\<lambda>l. Inr (L\<lparr>log_mutex := l\<rparr>, D(f := D f @ s)))))"

text \<open>The queue calls of \<open>write_log\<close>: one test of the wait for room, and the push, whose result is dropped. In \<open>queue_line\<close> no
  other thread runs between the two; \<open>None\<close>: the queue is full, and the loop tests again.\<close>

definition queue_full :: "log \<Rightarrow> (bool \<times> log) res" where
  "queue_full L =
     andThen (deref (m_log_queue L)) (\<lambda>q.
     andThen (bq_full q) (\<lambda>(full, q). Inr (full, L\<lparr>m_log_queue := Some q\<rparr>)))"

definition queue_push :: "string \<Rightarrow> log \<Rightarrow> log res" where
  "queue_push s L =
     andThen (deref (m_log_queue L)) (\<lambda>q.
     andThen (bq_push s q) (\<lambda>(_, q). Inr (L\<lparr>m_log_queue := Some q\<rparr>)))"

definition queue_line :: "string \<Rightarrow> log \<Rightarrow> log option res" where
  "queue_line s L =
     andThen (queue_full L) (\<lambda>(full, L).
       if full then Inr None else andThen (queue_push s L) (\<lambda>L. Inr (Some L)))"

definition write_log :: "(string \<Rightarrow> bool) \<Rightarrow> int \<Rightarrow> tm \<Rightarrow> string \<Rightarrow> log \<Rightarrow> disk \<Rightarrow> (log \<times> disk) option res" where
  "write_log can_open level my_tm msg L D =
     andThen (change_file can_open my_tm L) (\<lambda>L.
     andThen (format_line level my_tm msg L) (\<lambda>(log_str, L).
       if m_is_async L then andThen (queue_line log_str L) (\<lambda>r. Inr (map_option (\<lambda>L. (L, D)) r))
       else andThen (put_line log_str L D) (\<lambda>(L, D). Inr (Some (L, D)))))"

definition log_flush :: "log \<Rightarrow> log res" where
  "log_flush L =
     andThen (locker_lock (log_mutex L)) (\<lambda>l.
     andThen (deref (m_fp L)) (\<lambda>_.
     andThen (locker_unlock l) (\<lambda>l. Inr (L\<lparr>log_mutex := l\<rparr>))))"

text \<open>The destructor closes the file.\<close>

definition log_delete :: "log \<Rightarrow> log" where
  "log_delete L = (case m_fp L of None \<Rightarrow> L | Some _ \<Rightarrow> L\<lparr>m_fp := None\<rparr>)"

text \<open>
  The call of \<open>pop\<close> by the thread that writes, thread 0 of the queue, up to its return or its sleep, and the return of its
  wait. One round of the thread's loop: the first line of the queue goes to the file that is open now. \<open>None\<close>: it waits.
\<close>

definition log_pop :: "log \<Rightarrow> (string pop_out \<times> log) res" where
  "log_pop L =
     andThen (deref (m_log_queue L)) (\<lambda>q.
     andThen (bq_pop 0 q) (\<lambda>(r, q). Inr (r, L\<lparr>m_log_queue := Some q\<rparr>)))"

definition log_pop_wake :: "bool \<Rightarrow> log \<Rightarrow> (string pop_out \<times> log) res option" where
  "log_pop_wake woken L =
     (case m_log_queue L of
        None \<Rightarrow> Some (Inl NullPointer)
      | Some q \<Rightarrow> map_option (\<lambda>r. andThen r (\<lambda>(r, q). Inr (r, L\<lparr>m_log_queue := Some q\<rparr>))) (bq_pop_wake 0 woken q))"

definition async_write_log :: "log \<Rightarrow> disk \<Rightarrow> (log \<times> disk) option res" where
  "async_write_log L D =
     andThen (log_pop L) (\<lambda>(r, L).
       case r of
         Popped single_log \<Rightarrow> andThen (put_line single_log L D) (\<lambda>(L, D). Inr (Some (L, D)))
       | _ \<Rightarrow> Inr None)"


section \<open>The line\<close>

text \<open>What \<open>localtime\<close> and \<open>gettimeofday\<close> return between the years 1 and 9999.\<close>

definition tm_ok :: "tm \<Rightarrow> bool" where
  "tm_ok t \<longleftrightarrow> 0 < tm_year t + 1900 \<and> tm_year t + 1900 < 10000 \<and> tm_mon t < 12 \<and> 1 \<le> tm_mday t \<and> tm_mday t \<le> 31 \<and>
     tm_hour t < 24 \<and> tm_min t < 60 \<and> tm_sec t \<le> 60 \<and> tv_usec t < 1000000"

lemma length_show_02d: "n < 100 \<Longrightarrow> length (show_02d n) = 2"
proof -
  assume n: "n < 100"
  show ?thesis
  proof (cases "n < 10")
    case True
    then show ?thesis by (simp add: show_02d_def show_nat.simps [of n])
  next
    case False
    moreover from n have "n div 10 < 10" by simp
    ultimately have "show_nat n = [digit_char (n div 10), digit_char (n mod 10)]"
      by (simp add: show_nat.simps [of n] show_nat.simps [of "n div 10"])
    with False show ?thesis by (simp add: show_02d_def)
  qed
qed

lemma show_02d_NUL: "NUL \<notin> set (show_02d n)"
  by (simp add: show_02d_def show_nat_NUL)

lemma show_06d_NUL: "NUL \<notin> set (show_06d n)"
  by (simp add: show_06d_def show_nat_NUL)

lemma length_show_06d: "n < 1000000 \<Longrightarrow> length (show_06d n) = 6"
  using length_show_nat [of 6 n] by (simp add: show_06d_def)

lemma length_year: "0 < y \<Longrightarrow> y < 10000 \<Longrightarrow> length (show_int y) \<le> 4"
  using length_show_nat [of 4 "nat y"] by (simp add: show_int_def)

lemma stamp_length: "tm_ok t \<Longrightarrow> length (stamp level t) \<le> 36"
  using length_year [of "tm_year t + 1900"]
  by (simp add: tm_ok_def stamp_def length_show_02d length_show_06d level_text_def)

lemma stamp_NUL: "NUL \<notin> set (stamp level t)"
  by (simp add: stamp_def show_int_NUL show_02d_NUL show_06d_NUL level_text_def)

lemma date_text_NUL: "NUL \<notin> set (date_text t)"
  by (simp add: date_text_def show_int_NUL show_02d_NUL)

lemma date_text_length: "tm_ok t \<Longrightarrow> length (date_text t) \<le> 11"
  using length_year [of "tm_year t + 1900"] by (simp add: tm_ok_def date_text_def length_show_02d)

text \<open>The log is ready to format: a buffer of the size it has recorded.\<close>

definition buf_ready :: "log \<Rightarrow> bool" where
  "buf_ready L \<longleftrightarrow> log_mutex L = Free \<and> 48 \<le> m_log_buf_size L \<and>
     (\<exists>b. m_buf L = Some b \<and> int (length b) = m_log_buf_size L)"

text \<open>The bytes of \<open>m_buf\<close> after the stamp and a message that fits.\<close>

lemma format_text:
  assumes "length st \<le> 36" "NUL \<notin> set st" "NUL \<notin> set msg" "48 \<le> length b" "length st + length msg + 2 \<le> length b"
  shows "\<exists>b'. format_buf (length b - 1) st msg b = Inr (st @ msg @ [LF], b') \<and> length b' = length b"
proof -
  let ?n = "length st" and ?m = "length msg"
  define b1 where "b1 = st @ NUL # drop (Suc ?n) b"
  have 1: "snprintf b 0 48 st = Inr (?n, b1)" and l1: "length b1 = length b"
    using assms snprintf_fits [of st 48 0 b] by (simp_all add: b1_def)
  define b2 where "b2 = st @ msg @ NUL # drop (Suc (?n + ?m)) b1"
  have "snprintf b1 ?n (length b1 - 1) msg = andThen (put b1 ?n (msg @ [NUL])) (\<lambda>b. Inr (?m, b))"
    using assms(5) l1 by (simp add: snprintf_def)
  moreover have "put b1 ?n (msg @ [NUL]) = Inr b2"
    using assms(5) l1 by (simp add: put_def b2_def b1_def)
  ultimately have 2: "snprintf b1 ?n (length b1 - 1) msg = Inr (?m, b2)" by simp
  have l2: "length b2 = length b" using assms(5) l1 by (simp add: b2_def)
  define b3 where "b3 = b2[?n + ?m := LF, ?n + ?m + 1 := NUL]"
  obtain x rest where r: "drop (Suc (?n + ?m)) b1 = x # rest"
    using assms(5) l1 by (cases "drop (Suc (?n + ?m)) b1") auto
  have b3: "b3 = (st @ msg @ [LF]) @ NUL # rest"
    unfolding b3_def b2_def r by (simp add: list_update_append)
  have "cstr b3 0 = Inr (st @ msg @ [LF])"
    unfolding b3 using assms(2,3) by (simp add: cstr_def takeWhile_neq_append del: append_assoc) 
  then have "format_buf (length b - 1) st msg b = Inr (st @ msg @ [LF], b3)"
    using 1 2 l1 l2 assms(5) by (simp add: format_buf_def wr_ok b3_def)
  moreover have "length b3 = length b" by (simp add: b3_def l2)
  ultimately show ?thesis by blast
qed


text \<open>Every byte of the line must fit. \<open>vsnprintf\<close> is given the size of the whole buffer although the stamp is in
  front, and the two bytes behind the message are stored wherever its full length says.\<close>

lemma format_outside:
  assumes "length st \<le> 36" "48 \<le> length b" "length b < length st + length msg + 2"
  shows "format_buf (length b - 1) st msg b = Inl OutOfBounds"
proof -
  let ?n = "length st"
  obtain b1 where 1: "snprintf b 0 48 st = Inr (?n, b1)" and l1: "length b1 = length b"
    using assms(1,2) snprintf_fits [of st 48 0 b] by simp
  show ?thesis
  proof (cases "snprintf b1 ?n (length b - 1) msg")
    case (Inl e)
    then have "e = OutOfBounds" by (auto simp: snprintf_def put_def split: if_splits)
    with Inl 1 show ?thesis by (simp add: format_buf_def)
  next
    case (Inr r)
    then have "fst r = length msg" "length (snd r) = length b"
      using l1 by (auto simp: snprintf_def dest: put_length split: if_splits)
    with Inr 1 assms(3) show ?thesis by (cases r) (auto simp: format_buf_def wr_def)
  qed
qed

lemma format_line_unfold:
  assumes "log_mutex L = Free" "m_buf L = Some b" "int (length b) = m_log_buf_size L" "48 \<le> m_log_buf_size L"
  shows "format_line level t msg L =
    andThen (format_buf (length b - 1) (stamp level t) msg b) (\<lambda>(log_str, b). Inr (log_str, L\<lparr>m_buf := Some b\<rparr>))"
proof -
  have sz: "nat (m_log_buf_size L - 1) = length b - 1" using assms(3,4) by simp
  have L: "L\<lparr>log_mutex := Free, m_buf := x\<rparr> = L\<lparr>m_buf := x\<rparr>" for x using assms(1) by (cases L) simp
  show ?thesis using assms(1,2) by (simp add: format_line_def sz L)
qed

text \<open>C32: a log line is the stamp, the level and the message, and is put together inside \<open>m_buf\<close> exactly when stamp,
  message, line end and NUL fit into it; a longer message makes \<open>write_log\<close> write behind the buffer.\<close>

theorem log_line:
  assumes "buf_ready L" and "tm_ok t" and "NUL \<notin> set msg"
  shows "if int (length (stamp level t) + length msg) + 2 \<le> m_log_buf_size L
     then \<exists>b. format_line level t msg L = Inr (stamp level t @ msg @ [LF], L\<lparr>m_buf := Some b\<rparr>) \<and>
       buf_ready (L\<lparr>m_buf := Some b\<rparr>)
     else format_line level t msg L = Inl OutOfBounds"
proof -
  from assms(1) obtain b where b: "log_mutex L = Free" "m_buf L = Some b" "int (length b) = m_log_buf_size L" "48 \<le> m_log_buf_size L"
    by (auto simp: buf_ready_def)
  note st = stamp_length [OF assms(2), of level] stamp_NUL [of level t]
  show ?thesis
  proof (cases "int (length (stamp level t) + length msg) + 2 \<le> m_log_buf_size L")
    case True
    with b(3) have "length (stamp level t) + length msg + 2 \<le> length b" by linarith
    moreover have "48 \<le> length b" using b(3,4) by linarith
    ultimately obtain b' where
      "format_buf (length b - 1) (stamp level t) msg b = Inr (stamp level t @ msg @ [LF], b')" "length b' = length b"
      using format_text [OF st assms(3), of b] by blast
    then have "format_line level t msg L = Inr (stamp level t @ msg @ [LF], L\<lparr>m_buf := Some b'\<rparr>)"
      unfolding format_line_unfold [OF b] by simp
    moreover have "buf_ready (L\<lparr>m_buf := Some b'\<rparr>)"
      using b \<open>length b' = length b\<close> by (simp add: buf_ready_def)
    ultimately show ?thesis unfolding if_P [OF True] by blast
  next
    case False
    have "48 \<le> length b" "length b < length (stamp level t) + length msg + 2" using b(3,4) False by linarith+
    from format_outside [OF st(1) this] show ?thesis
      unfolding format_line_unfold [OF b] if_not_P [OF False] by simp
  qed
qed


theorem log_line_witness:
  "format_line 1 \<lparr>tm_year = 124, tm_mon = 4, tm_mday = 7, tm_hour = 9, tm_min = 5, tm_sec = 1, tv_usec = 42\<rparr>
     (replicate 30 (CHR ''x'')) (log_new\<lparr>m_buf := Some (replicate 64 NUL), m_log_buf_size := 64\<rparr>) = Inl OutOfBounds"
proof -
  let ?t = "\<lparr>tm_year = 124, tm_mon = 4, tm_mday = 7, tm_hour = 9, tm_min = 5, tm_sec = 1, tv_usec = 42\<rparr> :: tm"
  let ?L = "log_new\<lparr>m_buf := Some (replicate 64 NUL), m_log_buf_size := 64\<rparr>"
  have "length (show_int 2024) = 4" by (simp add: show_int_def show_nat.simps)
  then have "length (stamp 1 ?t) = 35"
    by (simp add: stamp_def length_show_02d length_show_06d level_text_def)
  moreover have "buf_ready ?L" by (simp add: buf_ready_def log_new_def locker_new_def)
  moreover have "tm_ok ?t" by (simp add: tm_ok_def)
  ultimately show ?thesis using log_line [of ?L ?t "replicate 30 (CHR ''x'')" 1] by (simp add: log_new_def)
qed

section \<open>The files of a day\<close>

lemma show_nat_inj: "show_nat m = show_nat n \<longleftrightarrow> m = n"
  by (metis digits_value_show_nat of_nat_eq_iff)

text \<open>The name of the \<open>k\<close>-th file of a day.\<close>

definition day_file :: "string \<Rightarrow> string \<Rightarrow> tm \<Rightarrow> nat \<Rightarrow> string" where
  "day_file dir name t k = dir @ date_text t @ name @ (if k = 0 then [] else ''.'' @ show_nat k)"

lemma day_file_inj: "day_file dir name t j = day_file dir name t k \<longleftrightarrow> j = k"
  by (auto simp: day_file_def show_nat_inj)

lemma local_text_fits: "NUL \<notin> set s \<Longrightarrow> length s < n \<Longrightarrow> n \<le> len \<Longrightarrow> local_text len n s = Inr s"
proof -
  assume s: "NUL \<notin> set s" "length s < n" "n \<le> len"
  then obtain m where m: "len - length s = Suc m" by (metis Suc_diff_Suc less_le_trans)
  from s have "snprintf (replicate len NUL) 0 n s = Inr (length s, s @ NUL # drop (Suc (length s)) (replicate len NUL))"
    using snprintf_fits [of s n 0 "replicate len NUL"] by simp
  with s show ?thesis by (simp add: local_text_def cstr_def takeWhile_neq_append)
qed

text \<open>The log writes on day \<open>t\<close> and has counted \<open>c\<close> lines.\<close>

definition log_at :: "string \<Rightarrow> string \<Rightarrow> tm \<Rightarrow> nat \<Rightarrow> int \<Rightarrow> nat \<Rightarrow> log \<Rightarrow> bool" where
  "log_at dir name t s B c L \<longleftrightarrow>
     buf_ready L \<and> m_log_buf_size L = B \<and> cstr (dir_name L) 0 = Inr dir \<and>
     cstr (log_name L) 0 = Inr name \<and> m_split_lines L = int s \<and> m_count L = int c \<and>
     m_today L = int (tm_mday t) \<and> m_fp L = Some (day_file dir name t (c div s))"

lemma day_file_NUL: "cstr b 0 = Inr dir \<Longrightarrow> cstr b' 0 = Inr name \<Longrightarrow> NUL \<notin> set (day_file dir name t k)"
  by (auto simp: day_file_def date_text_NUL show_nat_NUL dest: cstr_NUL_free)

lemma day_file_length:
  "tm_ok t \<Longrightarrow> length dir + length name \<le> 220 \<Longrightarrow> k < 10 ^ 18 \<Longrightarrow> length (day_file dir name t k) < 255"
  using date_text_length [of t] length_show_nat [of 18 k] by (simp add: day_file_def)

lemma tail_text: "tm_ok t \<Longrightarrow> local_text 16 16 (date_text t) = Inr (date_text t)"
  using date_text_length [of t] by (simp add: local_text_fits date_text_NUL)

lemma c_div_nat: "c_div (int a) (int b) = int (a div b)"
  by (cases "a = 0"; cases "b = 0") (auto simp: c_div_def zdiv_int)

lemma c_mod_nat: "c_mod (int a) (int b) = int (a mod b)"
  by (cases "a = 0") (auto simp: c_mod_def zmod_int)

text \<open>The queue, or its absence, is not touched while a line is counted and put together.\<close>

definition same_queue :: "log \<Rightarrow> log \<Rightarrow> bool" where
  "same_queue L L' \<longleftrightarrow> m_is_async L' = m_is_async L \<and> m_log_queue L' = m_log_queue L"

text \<open>The next line of the same day.\<close>

lemma change_file_same_day:
  assumes "log_at dir name t s B c L" and "tm_ok t" and "0 < s" and "length dir + length name \<le> 220"
    and "Suc c < 10 ^ 18" and "\<forall>k. can_open (day_file dir name t k)"
  shows "\<exists>L'. change_file can_open t L = Inr L' \<and> log_at dir name t s B (Suc c) L' \<and> same_queue L L'"
proof -
  have cm: "c_mod (int c + 1) (int s) = int (Suc c mod s)"
    using c_mod_nat [of "Suc c" s] by (simp add: add.commute)
  have cd: "c_div (int c + 1) (int s) = int (Suc c div s)"
    using c_div_nat [of "Suc c" s] by (simp add: add.commute)
  show ?thesis
  proof (cases "Suc c mod s = 0")
    case False
    then have "Suc c div s = c div s" by (metis div_Suc)
    moreover have "int (Suc c mod s) \<noteq> 0" using False by linarith
    ultimately show ?thesis using assms(1,3)
      by (auto simp: change_file_def log_at_def buf_ready_def rem_checked_def cm Let_def same_queue_def)
  next
    case True
    let ?k = "Suc c div s"
    have "Suc c = s * ?k" using True by (metis mult_div_mod_eq add_0_right)
    then have "?k \<noteq> 0" by (metis mult_0_right nat.distinct(1))
    then have f: "day_file dir name t ?k = dir @ date_text t @ name @ ''.'' @ show_int (int ?k)"
      by (simp add: day_file_def show_int_def)
    have "?k < 10 ^ 18" using assms(5) by (meson div_le_dividend le_less_trans)
    then have len: "length (day_file dir name t ?k) < 255" using assms(2,4) by (intro day_file_length)
    have "NUL \<notin> set (day_file dir name t ?k)" using assms(1) day_file_NUL by (auto simp: log_at_def)
    then have lt: "local_text 256 255 (day_file dir name t ?k) = Inr (day_file dir name t ?k)"
      using len by (intro local_text_fits) auto
    have op: "fopen_append can_open (day_file dir name t ?k) = Some (day_file dir name t ?k)"
      using assms(6) by (simp add: fopen_append_def)
    show ?thesis using assms(1,2,3) True lt [unfolded f] op [unfolded f]
      by (auto simp: change_file_def log_at_def buf_ready_def rem_checked_def new_log_name_def tail_text
          cm cd f Let_def same_queue_def)
  qed
qed


definition same_day :: "tm \<Rightarrow> tm \<Rightarrow> bool" where
  "same_day t t' \<longleftrightarrow> tm_year t = tm_year t' \<and> tm_mon t = tm_mon t' \<and> tm_mday t = tm_mday t'"

lemma day_file_same_day: "same_day t t' \<Longrightarrow> day_file dir name t' = day_file dir name t"
  by (simp add: same_day_def day_file_def date_text_def fun_eq_iff)

lemma log_at_same_day: "same_day t t' \<Longrightarrow> log_at dir name t' s B c L = log_at dir name t s B c L"
  by (simp add: log_at_def day_file_same_day) (simp add: same_day_def)

lemma put_line_at:
  "log_mutex L = Free \<Longrightarrow> m_fp L = Some f \<Longrightarrow> put_line s L D = Inr (L\<lparr>log_mutex := Free\<rparr>, D(f := D f @ s))"
  by (simp add: put_line_def)

lemma log_at_mutex: "log_at dir name t s B c L \<Longrightarrow> L\<lparr>log_mutex := Free\<rparr> = L"
  by (cases L) (simp add: log_at_def buf_ready_def)

text \<open>The line is put together, and put into the file.\<close>

lemma format_line_at:
  assumes "log_at dir name t s B c L" and "tm_ok t" and "NUL \<notin> set msg" and "int (length msg) + 38 \<le> B"
  shows "\<exists>L'. format_line level t msg L = Inr (stamp level t @ msg @ [LF], L') \<and> log_at dir name t s B c L' \<and> same_queue L L'"
proof -
  have "buf_ready L" and B: "m_log_buf_size L = B" using assms(1) by (simp_all add: log_at_def)
  then obtain b0 where b0: "log_mutex L = Free" "m_buf L = Some b0" "int (length b0) = m_log_buf_size L" "48 \<le> m_log_buf_size L"
    by (auto simp: buf_ready_def)
  note st = stamp_length [OF assms(2), of level] stamp_NUL [of level t]
  have "48 \<le> length b0" "length (stamp level t) + length msg + 2 \<le> length b0" using b0(3,4) B assms(4) st(1) by linarith+
  from format_text [OF st assms(3) this] obtain b where
    b: "format_buf (length b0 - 1) (stamp level t) msg b0 = Inr (stamp level t @ msg @ [LF], b)" "length b = length b0" by blast
  have "format_line level t msg L = Inr (stamp level t @ msg @ [LF], L\<lparr>m_buf := Some b\<rparr>)"
    unfolding format_line_unfold [OF b0] b(1) by simp
  moreover have "log_at dir name t s B c (L\<lparr>m_buf := Some b\<rparr>)"
    using assms(1) b(2) b0 by (simp add: log_at_def buf_ready_def)
  ultimately show ?thesis by (auto simp: same_queue_def)
qed

lemma put_line_log_at:
  assumes "log_at dir name t s B c L"
  shows "put_line x L D = Inr (L, D(day_file dir name t (c div s) := D (day_file dir name t (c div s)) @ x))"
  using put_line_at [of L "day_file dir name t (c div s)"] assms log_at_mutex [OF assms]
  by (simp add: log_at_def buf_ready_def)

text \<open>What \<open>write_log\<close> does without a queue once the file is chosen.\<close>

lemma write_log_chosen:
  assumes "change_file can_open t L = Inr L1" and "log_at dir name t s B c L1" and "\<not> m_is_async L1" and "tm_ok t"
    and "NUL \<notin> set msg" and "int (length msg) + 38 \<le> B"
  shows "\<exists>L'. write_log can_open level t msg L D =
      Inr (Some (L', D(day_file dir name t (c div s) := D (day_file dir name t (c div s)) @ stamp level t @ msg @ [LF]))) \<and>
    log_at dir name t s B c L' \<and> \<not> m_is_async L'"
proof -
  obtain L2 where L2: "format_line level t msg L1 = Inr (stamp level t @ msg @ [LF], L2)" "log_at dir name t s B c L2"
    "same_queue L1 L2" using format_line_at [OF assms(2,4,5,6)] by blast
  with put_line_log_at [OF L2(2)] assms(1,3) show ?thesis
    by (intro exI [of _ L2]) (simp add: write_log_def same_queue_def)
qed

text \<open>A run of lines by one thread, each with its level and time.\<close>

fun write_lines :: "(string \<Rightarrow> bool) \<Rightarrow> (int \<times> tm \<times> string) list \<Rightarrow> log \<Rightarrow> disk \<Rightarrow> (log \<times> disk) option res" where
  "write_lines can_open [] L D = Inr (Some (L, D))"
| "write_lines can_open ((level, t, msg) # ls) L D =
     andThen (write_log can_open level t msg L D) (\<lambda>r.
       case r of None \<Rightarrow> Inr None | Some (L, D) \<Rightarrow> write_lines can_open ls L D)"

definition line_text :: "int \<times> tm \<times> string \<Rightarrow> string" where
  "line_text l = (case l of (level, t, msg) \<Rightarrow> stamp level t @ msg @ [LF])"

definition line_ok :: "int \<Rightarrow> int \<times> tm \<times> string \<Rightarrow> bool" where
  "line_ok B l \<longleftrightarrow> (case l of (level, t, msg) \<Rightarrow> tm_ok t \<and> NUL \<notin> set msg \<and> int (length msg) + 38 \<le> B)"

lemma write_lines_same_day:
  "\<lbrakk>log_at dir name t s B c L \<and> \<not> m_is_async L; 0 < s; length dir + length name \<le> 220; c + length ls < 10 ^ 18;
    \<forall>k. can_open (day_file dir name t k); \<forall>l\<in>set ls. same_day t (fst (snd l)) \<and> line_ok B l\<rbrakk> \<Longrightarrow>
   \<exists>L' D'. write_lines can_open ls L D = Inr (Some (L', D')) \<and> log_at dir name t s B (c + length ls) L' \<and>
     (\<forall>k. D' (day_file dir name t k) =
       D (day_file dir name t k) @ concat (map line_text (nths ls {i. Suc (c + i) div s = k})))"
proof (induction ls arbitrary: c L D)
  case (Cons l ls)
  obtain level t' msg where l: "l = (level, t', msg)" by (cases l)
  have d: "same_day t t'" and ok: "tm_ok t'" "NUL \<notin> set msg" "int (length msg) + 38 \<le> B"
    using Cons.prems(6) by (auto simp: l line_ok_def)
  note same = log_at_same_day [OF d] day_file_same_day [OF d]
  have "\<exists>L1. change_file can_open t' L = Inr L1 \<and> log_at dir name t' s B (Suc c) L1 \<and> same_queue L L1"
    using Cons.prems ok by (intro change_file_same_day) (auto simp: same)
  then obtain L1 where L1: "change_file can_open t' L = Inr L1" "log_at dir name t' s B (Suc c) L1" "\<not> m_is_async L1"
    using Cons.prems(1) by (auto simp: same_queue_def)
  let ?f = "day_file dir name t (Suc c div s)"
  let ?D = "D(?f := D ?f @ line_text l)"
  obtain L2 where L2: "write_log can_open level t' msg L D = Inr (Some (L2, ?D))" "log_at dir name t s B (Suc c) L2 \<and> \<not> m_is_async L2"
    using write_log_chosen [OF L1 ok, of level D] by (auto simp: same l line_text_def)
  have "\<exists>L' D'. write_lines can_open ls L2 ?D = Inr (Some (L', D')) \<and> log_at dir name t s B (Suc c + length ls) L' \<and>
     (\<forall>k. D' (day_file dir name t k) =
       ?D (day_file dir name t k) @ concat (map line_text (nths ls {i. Suc (Suc c + i) div s = k})))"
    using Cons.prems by (intro Cons.IH [OF L2(2)]) auto
  then obtain L' D' where D': "write_lines can_open ls L2 ?D = Inr (Some (L', D'))" "log_at dir name t s B (Suc c + length ls) L'"
     "\<forall>k. D' (day_file dir name t k) =
       ?D (day_file dir name t k) @ concat (map line_text (nths ls {i. Suc (Suc c + i) div s = k}))" by blast
  show ?case
    using D' L2(1) by (intro exI [of _ L'] exI [of _ D']) (auto simp: l nths_Cons day_file_inj)
qed simp


text \<open>A new day: the first line opens the day's file and counts as line 0.\<close>

lemma change_file_new_day:
  assumes "log_at dir name t s B c L" and "tm_mday t \<noteq> tm_mday t'" and "tm_ok t'" and "length dir + length name \<le> 220"
    and "can_open (day_file dir name t' 0)"
  shows "\<exists>L'. change_file can_open t' L = Inr L' \<and> log_at dir name t' s B 0 L'"
proof -
  have f: "day_file dir name t' 0 = dir @ date_text t' @ name" by (simp add: day_file_def)
  have "NUL \<notin> set (day_file dir name t' 0)" using assms(1) day_file_NUL by (auto simp: log_at_def)
  moreover have "length (day_file dir name t' 0) < 255" using assms(3,4) by (intro day_file_length) auto
  ultimately have "local_text 256 255 (day_file dir name t' 0) = Inr (day_file dir name t' 0)"
    by (intro local_text_fits) auto
  then show ?thesis using assms(1,2,3,5)
    by (auto simp: change_file_def log_at_def buf_ready_def new_log_name_def tail_text f Let_def fopen_append_def)
qed

text \<open>\<open>init\<close> with a name whose directory part, if any, ends with a slash.\<close>

lemma log_init_result:
  assumes "dir = [] \<or> (\<exists>d. dir = d @ ''/'')" and "CHR ''/'' \<notin> set name" and "NUL \<notin> set (dir @ name)"
    and "length dir < 128" and "length name < 128" and "length dir + length name \<le> 220" and "tm_ok t" and "48 \<le> B"
    and "can_open (day_file dir name t 0)"
  shows "\<exists>D N. log_init can_open t (dir @ name) B s 0 L = Inr (True, L\<lparr>m_log_buf_size := B,
      m_buf := Some (replicate (nat B) NUL), dir_name := D, log_name := N, m_split_lines := s,
      m_today := int (tm_mday t), m_fp := Some (day_file dir name t 0)\<rparr>) \<and>
    cstr D 0 = Inr dir \<and> cstr N 0 = Inr name"
proof -
  have f: "day_file dir name t 0 = dir @ date_text t @ name" by (simp add: day_file_def)
  have "NUL \<notin> set (day_file dir name t 0)" using assms(3) by (simp add: f date_text_NUL)
  moreover have "length (day_file dir name t 0) < 255" using assms(6,7) by (intro day_file_length) auto
  ultimately have lt: "local_text 256 255 (dir @ date_text t @ name) = Inr (dir @ date_text t @ name)"
    unfolding f by (intro local_text_fits) auto
  have cs: "cstr (x @ replicate (128 - length x) NUL) 0 = Inr x" if x: "NUL \<notin> set x" "length x < 128" for x :: string
  proof -
    obtain m where "128 - length x = Suc m" using x(2) by (metis Suc_diff_Suc)
    with x(1) show ?thesis by (simp add: cstr_def takeWhile_neq_append)
  qed
  have name: "strcpy (replicate 128 NUL) 0 name = Inr (name @ replicate (128 - length name) NUL)"
  proof -
    obtain m where m: "128 - length name = Suc m" using assms(5) by (metis Suc_diff_Suc)
    then have "128 - Suc (length name) = m" by simp
    with m assms(5) show ?thesis by (simp add: strcpy_def put_def)
  qed
  have dir: "strncpy (replicate 128 NUL) 0 (dir @ name) (length dir) = Inr (dir @ replicate (128 - length dir) NUL)"
    using assms(4) by (simp add: strncpy_def put_def)
  have zero: "cstr (replicate 128 NUL) 0 = Inr []"
    using cs [of "[]"] by simp
  have st: "cstr ((dir @ name) @ [NUL]) 0 = Inr (dir @ name)"
    using assms(3) unfolding cstr_def by (simp add: takeWhile_neq_append del: append_assoc)
  have nm: "cstr (name @ replicate (128 - length name) NUL) 0 = Inr name" using assms(3,5) by (intro cs) auto
  show ?thesis
  proof (cases "dir = []")
    case True
    have "strrchr (name @ [NUL]) 0 (CHR ''/'') = Inr None" using st assms(2) True by (simp add: strrchr_def)
    then have "log_init can_open t (dir @ name) B s 0 L = Inr (True, L\<lparr>m_log_buf_size := B,
      m_buf := Some (replicate (nat B) NUL), dir_name := replicate 128 NUL,
      log_name := name @ replicate (128 - length name) NUL, m_split_lines := s,
      m_today := int (tm_mday t), m_fp := Some (day_file dir name t 0)\<rparr>)"
      using True name lt assms(8,9) by (simp add: log_init_def Let_def fopen_append_def day_file_def)
    with nm zero True show ?thesis by blast
  next
    case False
    with assms(1) obtain d where d: "dir = d @ ''/''" by blast
    have "takeWhile (\<lambda>c. c \<noteq> CHR ''/'') (rev name @ CHR ''/'' # rev d) = rev name"
      using assms(2) by (simp add: takeWhile_neq_append)
    then have p: "strrchr ((dir @ name) @ [NUL]) 0 (CHR ''/'') = Inr (Some (length d))"
      unfolding strrchr_def st by (simp add: d)
    have dc: "cstr (dir @ replicate (128 - length dir) NUL) 0 = Inr dir" using assms(3,4) by (intro cs) auto
    have k: "length d + 1 = length dir" "drop (length d + 1) (dir @ name) = name" by (simp_all add: d)
    have "log_init can_open t (dir @ name) B s 0 L = Inr (True, L\<lparr>m_log_buf_size := B,
      m_buf := Some (replicate (nat B) NUL), dir_name := dir @ replicate (128 - length dir) NUL,
      log_name := name @ replicate (128 - length name) NUL, m_split_lines := s,
      m_today := int (tm_mday t), m_fp := Some (day_file dir name t 0)\<rparr>)"
      unfolding log_init_def using p name lt nm dc dir k assms(8,9) f by (simp add: Let_def fopen_append_def)
    with nm dc show ?thesis by blast
  qed
qed


lemma log_init_at:
  assumes "dir = [] \<or> (\<exists>d. dir = d @ ''/'')" and "CHR ''/'' \<notin> set name" and "NUL \<notin> set (dir @ name)"
    and "length dir < 128" and "length name < 128" and "length dir + length name \<le> 220" and "tm_ok t" and "48 \<le> B"
    and "can_open (day_file dir name t 0)"
  shows "\<exists>L. log_init can_open t (dir @ name) B (int s) 0 log_new = Inr (True, L) \<and> log_at dir name t s B 0 L \<and> \<not> m_is_async L"
  using log_init_result [where can_open = can_open, OF assms, of "int s" log_new] assms(8)
  by (auto simp: log_at_def buf_ready_def log_new_def locker_new_def)

text \<open>With a queue: the members of the synchronous case, and the new queue.\<close>

lemma log_init_async:
  assumes "0 < n" and "block_queue_new [] n = Inr q"
  shows "log_init can_open t f B s n L = log_init can_open t f B s 0 (L\<lparr>m_is_async := True, m_log_queue := Some q\<rparr>)"
  using assms by (simp add: log_init_def)

text \<open>The lines of file \<open>k\<close> of the first day, among the lines logged since \<open>init\<close>.\<close>

definition lines_of_file :: "nat \<Rightarrow> nat \<Rightarrow> 'a list \<Rightarrow> 'a list" where
  "lines_of_file s k ls = nths ls {i. Suc i div s = k}"

lemma lines_of_file_length:
  assumes "0 < s"
  shows "length (lines_of_file s k ls) \<le> s"
proof -
  have "{i. i < length ls \<and> i \<in> {i. Suc i div s = k}} \<subseteq> (\<lambda>r. k * s + r - 1) ` {..<s}"
  proof
    fix i assume "i \<in> {i. i < length ls \<and> i \<in> {i. Suc i div s = k}}"
    then have "Suc i = k * s + Suc i mod s" by (metis (mono_tags) div_mult_mod_eq mem_Collect_eq)
    then have "i = k * s + Suc i mod s - 1" by linarith
    moreover have "Suc i mod s < s" using assms by simp
    ultimately show "i \<in> (\<lambda>r. k * s + r - 1) ` {..<s}" by blast
  qed
  then have "card {i. i < length ls \<and> i \<in> {i. Suc i div s = k}} \<le> card {..<s}"
    by (meson card_image_le card_mono finite_imageI finite_lessThan order_trans)
  then show ?thesis by (simp add: lines_of_file_def length_nths)
qed

text \<open>Without a queue: the lines of the first day, logged by one thread, go to the files of the day in order, the
  \<open>k\<close>-th file getting the lines from number \<open>k\<close> times the maximum on: no file gets more than \<open>m_split_lines\<close> lines,
  nothing is lost and nothing written twice.\<close>

lemma log_files_split:
  assumes "dir = [] \<or> (\<exists>d. dir = d @ ''/'')" and "CHR ''/'' \<notin> set name" and "NUL \<notin> set (dir @ name)"
    and "length dir < 128" and "length name < 128" and "length dir + length name \<le> 220" and "tm_ok t"
    and "48 \<le> B" and "0 < s" and "\<forall>k. can_open (day_file dir name t k)" and "length ls < 10 ^ 18"
    and "\<forall>l\<in>set ls. same_day t (fst (snd l)) \<and> line_ok B l"
  shows "\<exists>L L' D'. log_init can_open t (dir @ name) B (int s) 0 log_new = Inr (True, L) \<and>
    write_lines can_open ls L D = Inr (Some (L', D')) \<and>
    (\<forall>k. D' (day_file dir name t k) = D (day_file dir name t k) @ concat (map line_text (lines_of_file s k ls)) \<and>
      length (lines_of_file s k ls) \<le> s)"
proof -
  obtain L where L: "log_init can_open t (dir @ name) B (int s) 0 log_new = Inr (True, L)" "log_at dir name t s B 0 L \<and> \<not> m_is_async L"
    using log_init_at [OF assms(1-8)] assms(10) by blast
  from write_lines_same_day [OF L(2) assms(9,6) _ assms(10,12), of D] assms(11) obtain L' D' where
    "write_lines can_open ls L D = Inr (Some (L', D'))"
    "\<forall>k. D' (day_file dir name t k) = D (day_file dir name t k) @ concat (map line_text (nths ls {i. Suc i div s = k}))"
    by auto
  with L(1) lines_of_file_length [OF assms(9)] show ?thesis by (auto simp: lines_of_file_def)
qed

definition demo_tm :: tm where
  "demo_tm = \<lparr>tm_year = 124, tm_mon = 4, tm_mday = 7, tm_hour = 9, tm_min = 5, tm_sec = 1, tv_usec = 42\<rparr>"

lemma log_files_split_witness:
  "\<exists>L L' D'. log_init (\<lambda>_. True) demo_tm ''logs/ServerLog'' 8192 2 0 log_new = Inr (True, L) \<and>
     write_lines (\<lambda>_. True) [(1, demo_tm, ''a''), (1, demo_tm, ''b''), (3, demo_tm, ''c''), (1, demo_tm, ''d'')] L (\<lambda>_. []) =
       Inr (Some (L', D')) \<and>
     D' (day_file ''logs/'' ''ServerLog'' demo_tm 0) = stamp 1 demo_tm @ ''a'' @ [LF] \<and>
     D' (day_file ''logs/'' ''ServerLog'' demo_tm 1) = stamp 1 demo_tm @ ''b'' @ [LF] @ stamp 3 demo_tm @ ''c'' @ [LF]"
proof -
  let ?ls = "[(1, demo_tm, ''a''), (1, demo_tm, ''b''), (3, demo_tm, ''c''), (1, demo_tm, ''d'')] :: (int \<times> tm \<times> string) list"
  have "\<exists>d. ''logs/'' = d @ ''/''" by (rule exI [of _ "''logs''"]) simp
  moreover have "tm_ok demo_tm" by (simp add: tm_ok_def demo_tm_def)
  moreover have "\<forall>l\<in>set ?ls. same_day demo_tm (fst (snd l)) \<and> line_ok 8192 l"
    by (simp add: same_day_def line_ok_def tm_ok_def demo_tm_def)
  moreover have "lines_of_file 2 0 ?ls = [(1, demo_tm, ''a'')]"
    "lines_of_file 2 1 ?ls = [(1, demo_tm, ''b''), (3, demo_tm, ''c'')]"
    by (simp_all add: lines_of_file_def nths_Cons)
  ultimately show ?thesis
    using log_files_split [of "''logs/''" "''ServerLog''" demo_tm 8192 2 "\<lambda>_. True" ?ls "\<lambda>_. []"]
    by (auto simp: line_text_def)
qed

end
