(* ===== verification/LogQueue.thy ===== *)
theory LogQueue
  imports AsyncLog QueueWait
begin

text \<open>
  The logger with its queue and its thread, as interleavings: any number of threads that log, and the one that writes.
  The wait for room and the push of \<open>queue_line\<close> are two critical sections of the queue, between which other threads
  run; so are the pop and the \<open>fputs\<close> of \<open>async_write_log\<close>. The lines carry no more than their text.
\<close>

datatype log_pc =
    Idle
  | Waiting string   \<comment> \<open>in the loop that waits for room\<close>
  | Ready string     \<comment> \<open>has seen room, about to push\<close>

record log_run =
  lq :: "string block_queue"
  producers :: "log_pc list"
  sleeping :: bool              \<comment> \<open>the thread that writes has found the queue empty\<close>
  writing :: "string option"    \<comment> \<open>the line it has popped\<close>
  out :: "string list"          \<comment> \<open>the lines in the files\<close>
  submitted :: "string list"    \<comment> \<open>the lines passed to \<open>write_log\<close>, in order\<close>

definition log_start :: "nat \<Rightarrow> string block_queue \<Rightarrow> log_run" where
  "log_start n q = \<lparr>lq = q, producers = replicate n Idle, sleeping = False, writing = None, out = [], submitted = []\<rparr>"

inductive log_step :: "log_run \<Rightarrow> log_run \<Rightarrow> bool" where
  submit: "\<lbrakk>i < length (producers s); producers s ! i = Idle\<rbrakk> \<Longrightarrow>
     log_step s (s\<lparr>producers := (producers s)[i := Waiting l], submitted := submitted s @ [l]\<rparr>)"
| full: "\<lbrakk>i < length (producers s); producers s ! i = Waiting l; bq_full (lq s) = Inr (True, q)\<rbrakk> \<Longrightarrow>
     log_step s (s\<lparr>lq := q\<rparr>)"
| room: "\<lbrakk>i < length (producers s); producers s ! i = Waiting l; bq_full (lq s) = Inr (False, q)\<rbrakk> \<Longrightarrow>
     log_step s (s\<lparr>lq := q, producers := (producers s)[i := Ready l]\<rparr>)"
| push: "\<lbrakk>i < length (producers s); producers s ! i = Ready l; bq_push l (lq s) = Inr (accepted, q)\<rbrakk> \<Longrightarrow>
     log_step s (s\<lparr>lq := q, producers := (producers s)[i := Idle]\<rparr>)"
| pop: "\<lbrakk>writing s = None; \<not> sleeping s; bq_pop 0 (lq s) = Inr (Popped l, q)\<rbrakk> \<Longrightarrow>
     log_step s (s\<lparr>lq := q, writing := Some l\<rparr>)"
| sleep: "\<lbrakk>writing s = None; \<not> sleeping s; bq_pop 0 (lq s) = Inr (PopBlocked, q)\<rbrakk> \<Longrightarrow>
     log_step s (s\<lparr>lq := q, sleeping := True\<rparr>)"
| wake: "\<lbrakk>sleeping s; bq_pop_wake 0 True (lq s) = Some (Inr (Popped l, q))\<rbrakk> \<Longrightarrow>
     log_step s (s\<lparr>lq := q, sleeping := False, writing := Some l\<rparr>)"
| sleep_on: "\<lbrakk>sleeping s; bq_pop_wake 0 True (lq s) = Some (Inr (PopBlocked, q))\<rbrakk> \<Longrightarrow> log_step s (s\<lparr>lq := q\<rparr>)"
| spurious: "log_step s (s\<lparr>lq := (lq s)\<lparr>m_cond := cond_wake 0 (m_cond (lq s))\<rparr>\<rparr>)"
| write_out: "writing s = Some l \<Longrightarrow> log_step s (s\<lparr>writing := None, out := out s @ [l]\<rparr>)"

inductive log_reach :: "log_run \<Rightarrow> log_run \<Rightarrow> bool" for s0 where
  start: "log_reach s0 s0"
| step: "log_reach s0 s \<Longrightarrow> log_step s s' \<Longrightarrow> log_reach s0 s'"

lemma log_reach_trans: "log_reach t u \<Longrightarrow> log_reach s t \<Longrightarrow> log_reach s u"
  by (induction rule: log_reach.induct) (auto intro: log_reach.intros)

section \<open>One thread\<close>

fun pending :: "log_pc \<Rightarrow> string list" where
  "pending Idle = []"
| "pending (Waiting l) = [l]"
| "pending (Ready l) = [l]"

definition in_order :: "log_run \<Rightarrow> bool" where
  "in_order s \<longleftrightarrow> bq_inv (lq s) \<and> (sleeping s \<longrightarrow> writing s = None) \<and>
     (\<exists>pc. producers s = [pc] \<and> submitted s = out s @ opt_list (writing s) @ contents (lq s) @ pending pc \<and>
       (\<forall>l. pc = Ready l \<longrightarrow> length (contents (lq s)) < capacity (lq s)))"

lemma bq_full_result: "bq_inv q \<Longrightarrow> bq_full q = Inr (length (contents q) = capacity q, q)"
  by (auto simp: bq_full_def bq_inv_def enter_Free leave_Held restore_mutex capacity_def nat_eq_iff)

lemma bq_pop_popped:
  assumes "bq_inv q" and "bq_pop t q = Inr (Popped l, q')"
  shows "contents q = l # contents q' \<and> bq_inv q' \<and> capacity q' = capacity q"
proof (cases "contents q")
  case Nil
  with assms bq_pop_result [OF assms(1), of t] show ?thesis by simp
next
  case (Cons x xs)
  with assms bq_pop_result [OF assms(1), of t] popped_spec [OF assms(1) Cons] show ?thesis
    by (auto simp: popped_def capacity_def)
qed

lemma bq_pop_sleeps:
  assumes "bq_inv q" and "bq_pop t q = Inr (PopBlocked, q')"
  shows "contents q = [] \<and> q' = q\<lparr>m_cond := m_cond q @ [t]\<rparr>"
  using assms bq_pop_result [OF assms(1), of t] by (auto split: list.splits)

lemma bq_pop_woken: "bq_pop_wake t True q = Some r \<Longrightarrow> r = bq_pop t q"
  using bq_pop_wake_cases(2) by fastforce

lemma in_order_step:
  assumes "log_step s s'" and "in_order s"
  shows "in_order s'"
  using assms
proof cases
  case (push i l accepted q)
  then obtain pc where pc: "producers s = [pc]" "i = 0" "pc = Ready l"
    using assms(2) by (auto simp: in_order_def)
  then have "length (contents (lq s)) < capacity (lq s)" using assms(2) by (auto simp: in_order_def)
  with bq.enq_room [of "lq s" l] push assms(2) pc show ?thesis by (auto simp: in_order_def)
next
  case (pop l q)
  with bq_pop_popped [of "lq s" 0 l q] assms(2) show ?thesis by (auto simp: in_order_def simp del: length_contents)
next
  case (sleep q)
  with bq_pop_sleeps [of "lq s" 0 q] assms(2) show ?thesis by (auto simp: in_order_def)
next
  case (wake l q)
  with bq_pop_woken [OF wake(3)] bq_pop_popped [of "lq s" 0 l q] assms(2) show ?thesis
    by (auto simp: in_order_def simp del: length_contents)
next
  case (sleep_on q)
  with bq_pop_woken [OF sleep_on(3)] bq_pop_sleeps [of "lq s" 0 q] assms(2) show ?thesis by (auto simp: in_order_def)
next
  case (room i l q)
  with assms(2) bq_full_result [of "lq s"] bq.inv_cap [of "lq s"] show ?thesis by (auto simp: in_order_def)
next
  case (full i l q)
  with assms(2) bq_full_result [of "lq s"] show ?thesis by (auto simp: in_order_def)
qed (auto simp: in_order_def)

text \<open>C31: with one thread that logs no line is lost, repeated or reordered, in whatever way it interleaves with the thread
  that writes: the lines submitted are those in the files, the one being written, those in the queue and the one
  that waits for room, in this order.\<close>

theorem async_log_in_order:
  assumes "block_queue_new [] cap = Inr q" and "log_reach (log_start 1 q) s"
  shows "submitted s = out s @ opt_list (writing s) @ contents (lq s) @ pending (producers s ! 0)"
proof -
  have "in_order s"
    using assms(2)
  proof induction
    case start
    from bq_new_inv [OF assms(1)] show ?case by (simp add: in_order_def log_start_def)
  qed (rule in_order_step)
  then show ?thesis by (auto simp: in_order_def)
qed

section \<open>More threads\<close>

text \<open>Two threads that log can both see the last free place; the second push then fails, its result is not looked
  at, and the line is lost.\<close>

lemma async_log_race_drops:
  assumes "bq_inv (lq s)" and "Suc (length (contents (lq s))) = capacity (lq s)" and "i \<noteq> j"
    and "i < length (producers s)" and "producers s ! i = Waiting a"
    and "j < length (producers s)" and "producers s ! j = Waiting b"
  shows "\<exists>q. log_reach s (s\<lparr>lq := q, producers := (producers s)[i := Idle, j := Idle]\<rparr>) \<and>
    contents q = contents (lq s) @ [a]"
proof -
  have f: "bq_full (lq s) = Inr (False, lq s)" using bq_full_result [OF assms(1)] assms(2) by simp
  obtain q1 where q1: "bq_push a (lq s) = Inr (True, q1)" "bq_inv q1" "contents q1 = contents (lq s) @ [a]"
    "capacity q1 = capacity (lq s)" using bq.enq_room [OF assms(1), of a] assms(2) by auto
  obtain q2 where q2: "bq_push b q1 = Inr (False, q2)" "contents q2 = contents q1"
    using bq.enq_full [OF q1(2), of b] q1(3,4) assms(2) by auto
  let ?s1 = "s\<lparr>producers := (producers s)[i := Ready a]\<rparr>"
  let ?s2 = "s\<lparr>producers := (producers s)[i := Ready a, j := Ready b]\<rparr>"
  let ?s3 = "s\<lparr>lq := q1, producers := (producers s)[i := Idle, j := Ready b]\<rparr>"
  let ?s4 = "s\<lparr>lq := q2, producers := (producers s)[i := Idle, j := Idle]\<rparr>"
  have "log_step s ?s1" using log_step.room [OF assms(4,5) f] by simp
  moreover have "log_step ?s1 ?s2" using log_step.room [of j ?s1 b "lq s"] assms(3,6,7) f by simp
  moreover have "log_step ?s2 ?s3"
    using log_step.push [of i ?s2 a True q1] assms(3,4) q1(1) list_update_swap [of i j "(producers s)[i := Ready a]" Idle "Ready b"]
    by (simp add: list_update_swap)
  moreover have "log_step ?s3 ?s4" using log_step.push [of j ?s3 b False q2] assms(6) q2(1) by simp
  ultimately have "log_reach s ?s4" by (meson log_reach.intros)
  with q2(2) q1(3) show ?thesis by auto
qed


text \<open>The witnesses: a queue of one place.\<close>

lemma demo_queue:
  obtains q :: "string block_queue" where "block_queue_new [] 1 = Inr q" "bq_inv q" "contents q = []" "capacity q = 1"
proof -
  obtain q :: "string block_queue" where q: "block_queue_new [] 1 = Inr q" by (simp add: block_queue_new_def)
  from bq_new_inv [OF q] that [OF q] show thesis by simp
qed

theorem async_log_in_order_witness:
  "\<exists>q s. block_queue_new [] 1 = Inr q \<and> log_reach (log_start 1 q) s \<and> submitted s = [''a''] \<and>
     submitted s = out s @ opt_list (writing s) @ contents (lq s) @ pending (producers s ! 0)"
proof -
  obtain q :: "string block_queue" where q: "block_queue_new [] 1 = Inr q" by (rule demo_queue)
  have "log_step (log_start 1 q) ((log_start 1 q)\<lparr>producers := [Waiting ''a''], submitted := [''a'']\<rparr>)"
    using log_step.submit [of 0 "log_start 1 q" "''a''"] by (simp add: log_start_def)
  then have "log_reach (log_start 1 q) ((log_start 1 q)\<lparr>producers := [Waiting ''a''], submitted := [''a'']\<rparr>)"
    by (rule log_reach.step [OF log_reach.start])
  from q this async_log_in_order [OF q this] show ?thesis
    by (intro exI [of _ q] exI [of _ "(log_start 1 q)\<lparr>producers := [Waiting ''a''], submitted := [''a'']\<rparr>"]) simp
qed

lemma async_log_race_drops_witness:
  "\<exists>q s. block_queue_new [] 1 = Inr q \<and> log_reach (log_start 2 q) s \<and> producers s = [Idle, Idle] \<and>
     submitted s = [''a'', ''b''] \<and> out s = [] \<and> writing s = None \<and> contents (lq s) = [''a'']"
proof -
  obtain q :: "string block_queue" where
    q: "block_queue_new [] 1 = Inr q" "bq_inv q" "contents q = []" "capacity q = 1" by (rule demo_queue)
  let ?s0 = "log_start 2 q"
  let ?s1 = "?s0\<lparr>producers := [Waiting ''a'', Idle], submitted := [''a'']\<rparr>"
  let ?s2 = "?s0\<lparr>producers := [Waiting ''a'', Waiting ''b''], submitted := [''a'', ''b'']\<rparr>"
  have "log_step ?s0 ?s1" using log_step.submit [of 0 ?s0 "''a''"] by (simp add: log_start_def numeral_2_eq_2)
  moreover have "log_step ?s1 ?s2" using log_step.submit [of 1 ?s1 "''b''"] by (simp add: log_start_def)
  ultimately have r: "log_reach ?s0 ?s2" by (meson log_reach.intros)
  obtain p where p: "log_reach ?s2 (?s2\<lparr>lq := p, producers := [Idle, Idle]\<rparr>)" "contents p = [''a'']"
    using async_log_race_drops [of ?s2 0 1 "''a''" "''b''"] q by (auto simp: log_start_def)
  show ?thesis
    using q(1) log_reach_trans [OF p(1) r] p(2)
    by (intro exI [of _ q] exI [of _ "?s2\<lparr>lq := p, producers := [Idle, Idle]\<rparr>"]) (simp add: log_start_def)
qed

end
