(* ===== verification/LogFiles.thy ===== *)
theory LogFiles
  imports LogQueue
begin

text \<open>
  The logger with its queue as the server runs it (\<open>src/log/log.cpp\<close>, \<open>inc/log.h\<close>): the thread that logs and the thread that
  writes, cut where they can be interleaved. Every action is one critical section of \<open>write_log\<close>, \<open>flush\<close> or
  \<open>async_write_log\<close>, run by the functions of \<open>AsyncLog\<close>: counting the line and changing the file, putting it together, the test
  for room, the push, the pop, the \<open>fputs\<close>. A schedule is a list of actions; \<open>log_actions\<close> runs it on the members of the
  logger and the disk, and faults when one of them does.
\<close>

section \<open>The two threads\<close>

text \<open>How far \<open>write_log\<close> has come with a line, and the thread's loop.\<close>

datatype write_stage =
    NotLogging
  | Called "int \<times> tm \<times> string"       \<comment> \<open>level, time and text given to \<open>write_log\<close>\<close>
  | Counted "int \<times> tm \<times> string"      \<comment> \<open>the first critical section is over\<close>
  | Formatted string                 \<comment> \<open>\<open>log_str\<close> is the line\<close>
  | SeenRoom string                  \<comment> \<open>\<open>full()\<close> was false\<close>

datatype writer_stage = Calling | Asleep | Took string | Ended

record log_system =
  logger :: log
  files :: disk
  stage :: write_stage
  writer :: writer_stage
  logged_lines :: "(int \<times> tm \<times> string) list"     \<comment> \<open>the calls of \<open>write_log\<close>, in order\<close>
  placed :: "(string \<times> string) list"             \<comment> \<open>the \<open>fputs\<close>, in order: file and line\<close>

definition log_system :: "log \<Rightarrow> disk \<Rightarrow> log_system" where
  "log_system L D = \<lparr>logger = L, files = D, stage = NotLogging, writer = Calling, logged_lines = [], placed = []\<rparr>"

text \<open>\<open>fputs\<close> of a line, with the file it goes to written down.\<close>

definition put_placed :: "string \<Rightarrow> log_system \<Rightarrow> log_system res" where
  "put_placed x S =
     andThen (put_line x (logger S) (files S)) (\<lambda>(L, D).
     andThen (deref (m_fp (logger S))) (\<lambda>f. Inr (S\<lparr>logger := L, files := D, placed := placed S @ [(f, x)]\<rparr>)))"

definition write_log_part :: "(string \<Rightarrow> bool) \<Rightarrow> log_system \<Rightarrow> log_system res" where
  "write_log_part can_open S =
     (case stage S of
        NotLogging \<Rightarrow> Inr S
      | Called (level, t, msg) \<Rightarrow>
          andThen (change_file can_open t (logger S)) (\<lambda>L. Inr (S\<lparr>logger := L, stage := Counted (level, t, msg)\<rparr>))
      | Counted (level, t, msg) \<Rightarrow>
          andThen (format_line level t msg (logger S)) (\<lambda>(x, L). Inr (S\<lparr>logger := L, stage := Formatted x\<rparr>))
      | Formatted x \<Rightarrow>
          if m_is_async (logger S)
          then andThen (queue_full (logger S)) (\<lambda>(full, L). Inr (S\<lparr>logger := L, stage := if full then Formatted x else SeenRoom x\<rparr>))
          else andThen (put_placed x S) (\<lambda>S. Inr (S\<lparr>stage := NotLogging\<rparr>))
      | SeenRoom x \<Rightarrow> andThen (queue_push x (logger S)) (\<lambda>L. Inr (S\<lparr>logger := L, stage := NotLogging\<rparr>)))"

fun after_pop :: "string pop_out \<times> log \<Rightarrow> log_system \<Rightarrow> log_system" where
  "after_pop (Popped x, L) S = S\<lparr>logger := L, writer := Took x\<rparr>"
| "after_pop (PopBlocked, L) S = S\<lparr>logger := L, writer := Asleep\<rparr>"
| "after_pop (PopFailed, L) S = S\<lparr>logger := L, writer := Ended\<rparr>"

text \<open>\<open>woken\<close>: how the wait of a sleeping writer would end, if it returns now.\<close>

definition async_write_part :: "bool \<Rightarrow> log_system \<Rightarrow> log_system res" where
  "async_write_part woken S =
     (case writer S of
        Calling \<Rightarrow> andThen (log_pop (logger S)) (\<lambda>r. Inr (after_pop r S))
      | Asleep \<Rightarrow> (case log_pop_wake woken (logger S) of None \<Rightarrow> Inr S | Some r \<Rightarrow> andThen r (\<lambda>r. Inr (after_pop r S)))
      | Took x \<Rightarrow> andThen (put_placed x S) (\<lambda>S. Inr (S\<lparr>writer := Calling\<rparr>))
      | Ended \<Rightarrow> Inr S)"

text \<open>\<open>LogCall\<close>: the thread calls \<open>write_log\<close>, when it is not in a call. \<open>WakeUp\<close>: the system wakes the writer for no reason.\<close>

datatype log_action = LogCall "int \<times> tm \<times> string" | LogGoes | LogFlush | WriterGoes bool | WakeUp

definition log_act :: "(string \<Rightarrow> bool) \<Rightarrow> log_action \<Rightarrow> log_system \<Rightarrow> log_system res" where
  "log_act can_open a S =
     (case a of
        LogCall l \<Rightarrow> Inr (if stage S = NotLogging then S\<lparr>stage := Called l, logged_lines := logged_lines S @ [l]\<rparr> else S)
      | LogGoes \<Rightarrow> write_log_part can_open S
      | LogFlush \<Rightarrow> andThen (log_flush (logger S)) (\<lambda>L. Inr (S\<lparr>logger := L\<rparr>))
      | WriterGoes woken \<Rightarrow> async_write_part woken S
      | WakeUp \<Rightarrow> Inr (S\<lparr>logger := (logger S)\<lparr>m_log_queue :=
            map_option (\<lambda>q. q\<lparr>m_cond := cond_wake 0 (m_cond q)\<rparr>) (m_log_queue (logger S))\<rparr>\<rparr>))"

fun log_actions :: "(string \<Rightarrow> bool) \<Rightarrow> log_action list \<Rightarrow> log_system \<Rightarrow> log_system res" where
  "log_actions can_open [] S = Inr S"
| "log_actions can_open (a # as) S = andThen (log_act can_open a S) (log_actions can_open as)"

text \<open>Undisturbed, the parts of \<open>write_log\<close> are \<open>write_log\<close>.\<close>

lemma write_log_parts:
  assumes "stage S = Called (level, t, msg)" and "write_log can_open level t msg (logger S) (files S) = Inr (Some (L, D))"
  shows "\<exists>n S'. log_actions can_open (replicate n LogGoes) S = Inr S' \<and> logger S' = L \<and> files S' = D \<and> stage S' = NotLogging"
proof -
  obtain L1 where 1: "change_file can_open t (logger S) = Inr L1"
    using assms(2) by (cases "change_file can_open t (logger S)") (auto simp: write_log_def)
  obtain x L2 where 2: "format_line level t msg L1 = Inr (x, L2)"
    using assms(2) 1 by (cases "format_line level t msg L1") (auto simp: write_log_def)
  have a: "log_actions can_open (LogGoes # LogGoes # as) S = log_actions can_open as (S\<lparr>logger := L2, stage := Formatted x\<rparr>)" for as
    using assms(1) 1 2 by (simp add: log_act_def write_log_part_def)
  show ?thesis
  proof (cases "m_is_async L2")
    case True
    obtain full L3 where 3: "queue_full L2 = Inr (full, L3)" "\<not> full" "queue_push x L3 = Inr L" "files S = D"
      using assms(2) 1 2 True
      by (cases "queue_full L2"; cases "queue_push x (snd (projr (queue_full L2)))")
        (auto simp: write_log_def queue_line_def split: if_splits)
    then have "log_actions can_open [LogGoes, LogGoes, LogGoes, LogGoes] S = Inr (S\<lparr>logger := L, stage := NotLogging\<rparr>)"
      unfolding a using True by (simp add: log_act_def write_log_part_def)
    then have "log_actions can_open (replicate 4 LogGoes) S = Inr (S\<lparr>logger := L, stage := NotLogging\<rparr>)"
      by (simp add: numeral_eq_Suc)
    with 3(4) show ?thesis by force
  next
    case False
    have p: "put_line x L2 (files S) = Inr (L, D)"
      using assms(2) 1 2 False by (cases "put_line x L2 (files S)") (auto simp: write_log_def)
    then obtain f where "m_fp L2 = Some f" by (cases "m_fp L2"; cases "locker_lock (log_mutex L2)") (auto simp: put_line_def)
    with p have "log_actions can_open [LogGoes, LogGoes, LogGoes] S =
        Inr (S\<lparr>logger := L, files := D, stage := NotLogging, placed := placed S @ [(f, x)]\<rparr>)"
      unfolding a using False by (simp add: log_act_def write_log_part_def put_placed_def)
    then have "log_actions can_open (replicate 3 LogGoes) S =
        Inr (S\<lparr>logger := L, files := D, stage := NotLogging, placed := placed S @ [(f, x)]\<rparr>)"
      by (simp add: numeral_eq_Suc)
    then show ?thesis by force
  qed
qed

section \<open>Where the lines are\<close>

text \<open>The line a call of \<open>write_log\<close> is at, the line the writer has popped, the lines in the queue.\<close>

fun under_way :: "write_stage \<Rightarrow> string list" where
  "under_way NotLogging = []"
| "under_way (Called l) = [line_text l]"
| "under_way (Counted l) = [line_text l]"
| "under_way (Formatted x) = [x]"
| "under_way (SeenRoom x) = [x]"

fun taken :: "writer_stage \<Rightarrow> string list" where
  "taken (Took x) = [x]"
| "taken _ = []"

definition queued :: "log \<Rightarrow> string list" where
  "queued L = (case m_log_queue L of None \<Rightarrow> [] | Some q \<Rightarrow> contents q)"

text \<open>The parameters of a day: directory, name, date, lines per file, size of \<open>m_buf\<close>, places in the queue. The state with
  \<open>c\<close> lines counted and the queue \<open>q\<close>; \<open>cs\<close> are the counts at which the lines in the files were put there.\<close>

definition line_fine :: "tm \<Rightarrow> int \<Rightarrow> int \<times> tm \<times> string \<Rightarrow> bool" where
  "line_fine t B l \<longleftrightarrow> same_day t (fst (snd l)) \<and> line_ok B l"

fun stage_fine :: "tm \<Rightarrow> int \<Rightarrow> write_stage \<Rightarrow> bool" where
  "stage_fine t B (Called l) = line_fine t B l"
| "stage_fine t B (Counted l) = line_fine t B l"
| "stage_fine t B _ = True"

fun uncounted :: "write_stage \<Rightarrow> nat" where
  "uncounted (Called l) = 1"
| "uncounted _ = 0"

definition logger_at :: "string \<Rightarrow> string \<Rightarrow> tm \<Rightarrow> nat \<Rightarrow> int \<Rightarrow> nat \<Rightarrow> nat \<Rightarrow> string block_queue \<Rightarrow> log \<Rightarrow> bool" where
  "logger_at dir name t s B cap c q L \<longleftrightarrow>
     log_at dir name t s B c L \<and> m_is_async L \<and> m_log_queue L = Some q \<and> bq_inv q \<and> capacity q = cap"

definition lines_at :: "nat \<Rightarrow> nat \<Rightarrow> string block_queue \<Rightarrow> log_system \<Rightarrow> bool" where
  "lines_at cap c q S \<longleftrightarrow>
     c + uncounted (stage S) = length (logged_lines S) \<and>
     map line_text (logged_lines S) = map snd (placed S) @ taken (writer S) @ contents q @ under_way (stage S) \<and>
     (\<forall>x. stage S = SeenRoom x \<longrightarrow> length (contents q) < cap)"

definition placed_at :: "string \<Rightarrow> string \<Rightarrow> tm \<Rightarrow> nat \<Rightarrow> nat \<Rightarrow> disk \<Rightarrow> nat \<Rightarrow> nat list \<Rightarrow> log_system \<Rightarrow> bool" where
  "placed_at dir name t s cap D c cs S \<longleftrightarrow>
     (\<forall>f. files S f = D f @ concat (map snd (filter (\<lambda>p. fst p = f) (placed S)))) \<and>
     map fst (placed S) = map (\<lambda>c. day_file dir name t (c div s)) cs \<and> sorted cs \<and> (\<forall>k\<in>set cs. k \<le> c) \<and>
     (\<forall>j<length cs. Suc j \<le> cs ! j \<and> cs ! j \<le> Suc j + cap + 1)"

definition system_at :: "string \<Rightarrow> string \<Rightarrow> tm \<Rightarrow> nat \<Rightarrow> int \<Rightarrow> nat \<Rightarrow> disk \<Rightarrow> log_system \<Rightarrow> bool" where
  "system_at dir name t s B cap D S \<longleftrightarrow>
     (\<exists>c q cs. logger_at dir name t s B cap c q (logger S) \<and> stage_fine t B (stage S) \<and> lines_at cap c q S \<and>
        placed_at dir name t s cap D c cs S)"

section \<open>Every action keeps this\<close>

lemma system_atI:
  "\<lbrakk>logger_at dir name t s B cap c q (logger S); stage_fine t B (stage S); lines_at cap c q S;
    placed_at dir name t s cap D c cs S\<rbrakk> \<Longrightarrow> system_at dir name t s B cap D S"
  unfolding system_at_def by blast

lemma logger_at_same_queue:
  "logger_at dir name t s B cap c q L \<Longrightarrow> log_at dir name t s B c' L' \<Longrightarrow> same_queue L L' \<Longrightarrow>
   logger_at dir name t s B cap c' q L'"
  by (simp add: logger_at_def same_queue_def)

lemma logger_at_queue:
  "logger_at dir name t s B cap c q L \<Longrightarrow> bq_inv q' \<Longrightarrow> capacity q' = cap \<Longrightarrow>
   logger_at dir name t s B cap c q' (L\<lparr>m_log_queue := Some q'\<rparr>)"
  by (auto simp: logger_at_def log_at_def buf_ready_def)

lemma placed_at_mono:
  "placed_at dir name t s cap D c cs S \<Longrightarrow> c \<le> c' \<Longrightarrow> files S' = files S \<Longrightarrow> placed S' = placed S \<Longrightarrow>
   placed_at dir name t s cap D c' cs S'"
  by (auto simp: placed_at_def)

text \<open>The parts of \<open>write_log\<close>.\<close>

lemma called_step:
  assumes "stage S = Called l" and "system_at dir name t s B cap D S" and "0 < s" and "length dir + length name \<le> 220"
    and "length (logged_lines S) < 10 ^ 18" and "\<forall>k. can_open (day_file dir name t k)"
  shows "\<exists>S'. write_log_part can_open S = Inr S' \<and> system_at dir name t s B cap D S' \<and> logged_lines S' = logged_lines S"
proof -
  obtain level t' msg where l: "l = (level, t', msg)" by (cases l)
  obtain c q cs where I: "logger_at dir name t s B cap c q (logger S)" "stage_fine t B (stage S)" "lines_at cap c q S"
    "placed_at dir name t s cap D c cs S" using assms(2) by (auto simp: system_at_def)
  have d: "same_day t t'" and ok: "tm_ok t'" using I(2) by (auto simp: assms(1) l line_fine_def line_ok_def)
  note same = log_at_same_day [OF d] day_file_same_day [OF d]
  have c: "Suc c < 10 ^ 18" using I(3) assms(1,5) by (simp add: lines_at_def)
  have "\<exists>L. change_file can_open t' (logger S) = Inr L \<and> log_at dir name t' s B (Suc c) L \<and> same_queue (logger S) L"
    using I(1) assms(3-6) ok c by (intro change_file_same_day) (auto simp: same logger_at_def)
  then obtain L where L: "change_file can_open t' (logger S) = Inr L" "log_at dir name t s B (Suc c) L"
    "same_queue (logger S) L" by (auto simp: same)
  let ?S = "S\<lparr>logger := L, stage := Counted l\<rparr>"
  have "system_at dir name t s B cap D ?S"
    using logger_at_same_queue [OF I(1) L(2,3)] I placed_at_mono [OF I(4), of "Suc c" ?S] assms(1)
    by (intro system_atI [of _ _ _ _ _ _ "Suc c" q _ _ cs]) (auto simp: lines_at_def)
  with L(1) show ?thesis using assms(1) l by (simp add: write_log_part_def)
qed

lemma counted_step:
  assumes "stage S = Counted l" and "system_at dir name t s B cap D S"
  shows "\<exists>S'. write_log_part can_open S = Inr S' \<and> system_at dir name t s B cap D S' \<and> logged_lines S' = logged_lines S"
proof -
  obtain level t' msg where l: "l = (level, t', msg)" by (cases l)
  obtain c q cs where I: "logger_at dir name t s B cap c q (logger S)" "stage_fine t B (stage S)" "lines_at cap c q S"
    "placed_at dir name t s cap D c cs S" using assms(2) by (auto simp: system_at_def)
  have ok: "tm_ok t'" "NUL \<notin> set msg" "int (length msg) + 38 \<le> B" and d: "same_day t t'"
    using I(2) by (auto simp: assms(1) l line_fine_def line_ok_def)
  note same = log_at_same_day [OF d] day_file_same_day [OF d]
  have at: "log_at dir name t' s B c (logger S)" using I(1) by (simp add: logger_at_def same)
  obtain L where L: "format_line level t' msg (logger S) = Inr (line_text l, L)" "log_at dir name t s B c L" "same_queue (logger S) L"
    using format_line_at [OF at ok, of level] by (auto simp: line_text_def l same)
  let ?S = "S\<lparr>logger := L, stage := Formatted (line_text l)\<rparr>"
  have "system_at dir name t s B cap D ?S"
    using logger_at_same_queue [OF I(1) L(2,3)] I placed_at_mono [OF I(4), of c ?S] assms(1)
    by (intro system_atI [of _ _ _ _ _ _ c q _ _ cs]) (auto simp: lines_at_def)
  with L(1) show ?thesis using assms(1) l by (simp add: write_log_part_def)
qed

lemma formatted_step:
  assumes "stage S = Formatted x" and "system_at dir name t s B cap D S"
  shows "\<exists>S'. write_log_part can_open S = Inr S' \<and> system_at dir name t s B cap D S' \<and> logged_lines S' = logged_lines S"
proof -
  obtain c q cs where I: "logger_at dir name t s B cap c q (logger S)" "stage_fine t B (stage S)" "lines_at cap c q S"
    "placed_at dir name t s cap D c cs S" using assms(2) by (auto simp: system_at_def)
  have q: "m_is_async (logger S)" "m_log_queue (logger S) = Some q" "bq_inv q" "capacity q = cap"
    using I(1) by (simp_all add: logger_at_def)
  let ?full = "length (contents q) = capacity q"
  have f: "queue_full (logger S) = Inr (?full, (logger S)\<lparr>m_log_queue := Some q\<rparr>)"
    using q(2) bq_full_result [OF q(3)] by (simp add: queue_full_def)
  let ?S = "S\<lparr>logger := (logger S)\<lparr>m_log_queue := Some q\<rparr>, stage := if ?full then Formatted x else SeenRoom x\<rparr>"
  have "system_at dir name t s B cap D ?S"
    using logger_at_queue [OF I(1) q(3,4)] I placed_at_mono [OF I(4), of c ?S] assms(1) bq.inv_cap [OF q(3)] q(4)
    by (intro system_atI [of _ _ _ _ _ _ c q _ _ cs]) (auto simp: lines_at_def)
  with f q(1) show ?thesis using assms(1) by (simp add: write_log_part_def)
qed

lemma seen_room_step:
  assumes "stage S = SeenRoom x" and "system_at dir name t s B cap D S"
  shows "\<exists>S'. write_log_part can_open S = Inr S' \<and> system_at dir name t s B cap D S' \<and> logged_lines S' = logged_lines S"
proof -
  obtain c q cs where I: "logger_at dir name t s B cap c q (logger S)" "stage_fine t B (stage S)" "lines_at cap c q S"
    "placed_at dir name t s cap D c cs S" using assms(2) by (auto simp: system_at_def)
  have q: "m_log_queue (logger S) = Some q" "bq_inv q" "length (contents q) < capacity q" "capacity q = cap"
    using I(1,3) assms(1) by (simp_all add: logger_at_def lines_at_def)
  obtain q' where q': "bq_push x q = Inr (True, q')" "bq_inv q'" "contents q' = contents q @ [x]" "capacity q' = cap"
    using bq.enq_room [OF q(2,3), of x] q(4) by auto
  let ?S = "S\<lparr>logger := (logger S)\<lparr>m_log_queue := Some q'\<rparr>, stage := NotLogging\<rparr>"
  have "system_at dir name t s B cap D ?S"
    using logger_at_queue [OF I(1) q'(2,4)] I placed_at_mono [OF I(4), of c ?S] assms(1) q'(3)
    by (intro system_atI [of _ _ _ _ _ _ c q' _ _ cs]) (auto simp: lines_at_def)
  with q'(1) q(1) show ?thesis using assms(1) by (simp add: write_log_part_def queue_push_def)
qed

text \<open>The writer.\<close>

lemma took_step:
  assumes "writer S = Took x" and "system_at dir name t s B cap D S"
  shows "\<exists>S'. async_write_part woken S = Inr S' \<and> system_at dir name t s B cap D S' \<and> logged_lines S' = logged_lines S"
proof -
  obtain c q cs where I: "logger_at dir name t s B cap c q (logger S)" "stage_fine t B (stage S)" "lines_at cap c q S"
    "placed_at dir name t s cap D c cs S" using assms(2) by (auto simp: system_at_def)
  let ?f = "day_file dir name t (c div s)"
  let ?S = "S\<lparr>files := (files S)(?f := files S ?f @ x), placed := placed S @ [(?f, x)], writer := Calling\<rparr>"
  have p: "put_placed x S = Inr (?S\<lparr>writer := writer S\<rparr>)"
    using put_line_log_at [of dir name t s B c "logger S" x "files S"] I(1)
    by (simp add: put_placed_def logger_at_def log_at_def)
  have n: "length cs = length (placed S)" using I(4) by (metis placed_at_def length_map)
  have "length (contents q) \<le> cap" using bq.inv_cap [of q] I(1) by (auto simp: logger_at_def)
  moreover have "length (logged_lines S) = length (placed S) + 1 + length (contents q) + length (under_way (stage S))"
  proof -
    have "length (map line_text (logged_lines S)) = length (map snd (placed S) @ [x] @ contents q @ under_way (stage S))"
      using I(3) assms(1) by (simp only: lines_at_def taken.simps)
    then show ?thesis by (simp del: length_contents)
  qed
  moreover have "uncounted (stage S) \<le> length (under_way (stage S)) \<and> length (under_way (stage S)) \<le> 1"
    by (cases "stage S") auto
  ultimately have b: "Suc (length cs) \<le> c" "c \<le> Suc (length cs) + cap + 1" using I(3) n by (auto simp: lines_at_def)
  have "placed_at dir name t s cap D c (cs @ [c]) ?S"
    using I(4) b by (auto simp: placed_at_def nth_append sorted_append less_Suc_eq)
  moreover have "lines_at cap c q ?S" using I(3) assms(1) by (simp add: lines_at_def)
  ultimately have "system_at dir name t s B cap D ?S"
    using I by (intro system_atI [of _ _ _ _ _ _ c q _ _ "cs @ [c]"]) auto
  with p show ?thesis using assms(1) by (simp add: async_write_part_def)
qed

lemma pop_step_at:
  assumes "writer S = Calling \<or> writer S = Asleep" and "system_at dir name t s B cap D S"
  shows "\<exists>r. log_pop (logger S) = Inr r \<and> system_at dir name t s B cap D (after_pop r S) \<and> logged_lines (after_pop r S) = logged_lines S"
proof -
  obtain c q cs where I: "logger_at dir name t s B cap c q (logger S)" "stage_fine t B (stage S)" "lines_at cap c q S"
    "placed_at dir name t s cap D c cs S" using assms(2) by (auto simp: system_at_def)
  have q: "m_log_queue (logger S) = Some q" "bq_inv q" "capacity q = cap" using I(1) by (simp_all add: logger_at_def)
  show ?thesis
  proof (cases "contents q")
    case Nil
    let ?q = "q\<lparr>m_cond := m_cond q @ [0]\<rparr>"
    let ?r = "(PopBlocked, (logger S)\<lparr>m_log_queue := Some ?q\<rparr>)"
    have "log_pop (logger S) = Inr ?r" using q(1) bq_pop_result [OF q(2), of 0] Nil by (simp add: log_pop_def)
    moreover have "system_at dir name t s B cap D (after_pop ?r S)"
      using logger_at_queue [OF I(1), of ?q] q I placed_at_mono [OF I(4), of c "after_pop ?r S"] assms(1)
      by (intro system_atI [of _ _ _ _ _ _ c ?q _ _ cs]) (auto simp: lines_at_def)
    ultimately show ?thesis by (intro exI [of _ ?r]) simp
  next
    case (Cons x xs)
    let ?r = "(Popped x, (logger S)\<lparr>m_log_queue := Some (popped q)\<rparr>)"
    note p = popped_spec [OF q(2) Cons]
    have "capacity (popped q) = cap" using q(3) by (simp add: popped_def capacity_def)
    moreover have "log_pop (logger S) = Inr ?r" using q(1) bq_pop_result [OF q(2), of 0] Cons by (simp add: log_pop_def)
    moreover have "lines_at cap c (popped q) (after_pop ?r S)"
      using I(3) Cons p(2) assms(1) by (auto simp: lines_at_def simp del: length_contents)
    ultimately show ?thesis
      using logger_at_queue [OF I(1) p(1)] I placed_at_mono [OF I(4), of c "after_pop ?r S"]
      by (intro exI [of _ ?r] conjI) (auto intro!: system_atI [of _ _ _ _ _ _ c "popped q" _ _ cs])
  qed
qed

lemma writer_step:
  assumes "system_at dir name t s B cap D S"
  shows "\<exists>S'. async_write_part woken S = Inr S' \<and> system_at dir name t s B cap D S' \<and> logged_lines S' = logged_lines S"
proof (cases "writer S")
  case (Took x)
  from took_step [OF this assms] show ?thesis .
next
  case Calling
  with pop_step_at [OF _ assms] show ?thesis by (auto simp: async_write_part_def)
next
  case Ended
  with assms show ?thesis by (simp add: async_write_part_def)
next
  case Asleep
  obtain c q cs where I: "logger_at dir name t s B cap c q (logger S)" "stage_fine t B (stage S)" "lines_at cap c q S"
    "placed_at dir name t s cap D c cs S" using assms by (auto simp: system_at_def)
  have q: "m_log_queue (logger S) = Some q" "bq_inv q" "capacity q = cap" using I(1) by (simp_all add: logger_at_def)
  show ?thesis
  proof (cases "bq_pop_wake 0 woken q")
    case None
    with Asleep q(1) assms show ?thesis by (simp add: async_write_part_def log_pop_wake_def)
  next
    case (Some r)
    show ?thesis
    proof (cases woken)
      case True
      with Some bq_pop_wake_cases(2) [OF Some] have "log_pop_wake woken (logger S) = Some (log_pop (logger S))"
        using q(1) by (simp add: log_pop_wake_def log_pop_def)
      with pop_step_at [OF _ assms] Asleep show ?thesis by (auto simp: async_write_part_def)
    next
      case False
      let ?r = "(PopFailed, (logger S)\<lparr>m_log_queue := Some q\<rparr>)"
      have "log_pop_wake woken (logger S) = Some (Inr ?r)"
        using bq_pop_wake_cases(2) [OF Some] Some False q(1) by (simp add: log_pop_wake_def)
      moreover have "system_at dir name t s B cap D (after_pop ?r S)"
        using logger_at_queue [OF I(1) q(2,3)] I placed_at_mono [OF I(4), of c "after_pop ?r S"] Asleep
        by (intro system_atI [of _ _ _ _ _ _ c q _ _ cs]) (auto simp: lines_at_def)
      ultimately show ?thesis using Asleep by (simp add: async_write_part_def)
    qed
  qed
qed

text \<open>Any action.\<close>

lemma log_act_step:
  assumes "system_at dir name t s B cap D S" and "0 < s" and "length dir + length name \<le> 220"
    and "length (logged_lines S) < 10 ^ 18" and "\<forall>k. can_open (day_file dir name t k)" and "\<forall>l. a = LogCall l \<longrightarrow> line_fine t B l"
  shows "\<exists>S'. log_act can_open a S = Inr S' \<and> system_at dir name t s B cap D S' \<and>
    length (logged_lines S') \<le> Suc (length (logged_lines S))"
proof -
  obtain c q cs where I: "logger_at dir name t s B cap c q (logger S)" "stage_fine t B (stage S)" "lines_at cap c q S"
    "placed_at dir name t s cap D c cs S" using assms(1) by (auto simp: system_at_def)
  show ?thesis
  proof (cases a)
    case (LogCall l)
    show ?thesis
    proof (cases "stage S = NotLogging")
      case True
      let ?S = "S\<lparr>stage := Called l, logged_lines := logged_lines S @ [l]\<rparr>"
      have "system_at dir name t s B cap D ?S"
        using I placed_at_mono [OF I(4), of c ?S] True assms(6) LogCall
        by (intro system_atI [of _ _ _ _ _ _ c q _ _ cs]) (auto simp: lines_at_def)
      then show ?thesis using True LogCall by (simp add: log_act_def)
    qed (use assms(1) LogCall in \<open>simp add: log_act_def\<close>)
  next
    case LogGoes
    have "\<exists>S'. write_log_part can_open S = Inr S' \<and> system_at dir name t s B cap D S' \<and> logged_lines S' = logged_lines S"
    proof (cases "stage S")
      case NotLogging
      with assms(1) show ?thesis by (simp add: write_log_part_def)
    next
      case (Called l)
      from called_step [OF this assms(1-5)] show ?thesis .
    next
      case (Counted l)
      from counted_step [OF this assms(1)] show ?thesis .
    next
      case (Formatted x)
      from formatted_step [OF this assms(1)] show ?thesis .
    next
      case (SeenRoom x)
      from seen_room_step [OF this assms(1)] show ?thesis .
    qed
    with LogGoes show ?thesis by (auto simp: log_act_def)
  next
    case LogFlush
    have at: "log_at dir name t s B c (logger S)" using I(1) by (simp add: logger_at_def)
    then have "log_flush (logger S) = Inr (logger S)"
      using log_at_mutex [OF at] by (simp add: log_flush_def log_at_def buf_ready_def)
    with LogFlush assms(1) show ?thesis by (simp add: log_act_def)
  next
    case (WriterGoes woken)
    with writer_step [OF assms(1), of woken] show ?thesis by (auto simp: log_act_def)
  next
    case WakeUp
    have q: "m_log_queue (logger S) = Some q" "bq_inv q" "capacity q = cap" using I(1) by (simp_all add: logger_at_def)
    let ?q = "q\<lparr>m_cond := cond_wake 0 (m_cond q)\<rparr>"
    let ?S = "S\<lparr>logger := (logger S)\<lparr>m_log_queue := Some ?q\<rparr>\<rparr>"
    have "system_at dir name t s B cap D ?S"
      using logger_at_queue [OF I(1), of ?q] q I placed_at_mono [OF I(4), of c ?S]
      by (intro system_atI [of _ _ _ _ _ _ c ?q _ _ cs]) (auto simp: lines_at_def)
    with WakeUp q(1) show ?thesis by (simp add: log_act_def)
  qed
qed

lemma log_actions_run:
  "\<lbrakk>system_at dir name t s B cap D S; 0 < s; length dir + length name \<le> 220; length (logged_lines S) + length as < 10 ^ 18;
    \<forall>k. can_open (day_file dir name t k); \<forall>l. LogCall l \<in> set as \<longrightarrow> line_fine t B l\<rbrakk> \<Longrightarrow>
   \<exists>S'. log_actions can_open as S = Inr S' \<and> system_at dir name t s B cap D S'"
proof (induction as arbitrary: S)
  case (Cons a as)
  have "\<exists>S'. log_act can_open a S = Inr S' \<and> system_at dir name t s B cap D S' \<and>
    length (logged_lines S') \<le> Suc (length (logged_lines S))"
    using Cons.prems by (intro log_act_step) auto
  then obtain S1 where S1: "log_act can_open a S = Inr S1" "system_at dir name t s B cap D S1"
    "length (logged_lines S1) \<le> Suc (length (logged_lines S))" by blast
  have "\<exists>S'. log_actions can_open as S1 = Inr S' \<and> system_at dir name t s B cap D S'"
    using Cons.prems S1(3) by (intro Cons.IH [OF S1(2)]) auto
  with S1(1) show ?case by auto
qed simp

section \<open>The start\<close>

lemma log_init_queue:
  assumes "dir = [] \<or> (\<exists>d. dir = d @ ''/'')" and "CHR ''/'' \<notin> set name" and "NUL \<notin> set (dir @ name)"
    and "length dir < 128" and "length name < 128" and "length dir + length name \<le> 220" and "tm_ok t" and "48 \<le> B"
    and "can_open (day_file dir name t 0)" and "0 < cap"
  shows "\<exists>L. log_init can_open t (dir @ name) B (int s) (int cap) log_new = Inr (True, L) \<and>
    system_at dir name t s B cap D (log_system L D)"
proof -
  obtain q :: "string block_queue" where q: "block_queue_new [] (int cap) = Inr q"
    using assms(10) by (simp add: block_queue_new_def)
  let ?L = "log_new\<lparr>m_is_async := True, m_log_queue := Some q\<rparr>"
  obtain L where L: "log_init can_open t (dir @ name) B (int s) 0 ?L = Inr (True, L)" "log_at dir name t s B 0 L"
    "m_is_async L" "m_log_queue L = Some q"
    using log_init_result [where can_open = can_open, OF assms(1-9), of "int s" ?L] assms(8)
    by (auto simp: log_at_def buf_ready_def log_new_def locker_new_def)
  have "logger_at dir name t s B cap 0 q L" using L(2-4) bq_new_inv [OF q] by (simp add: logger_at_def)
  then have "system_at dir name t s B cap D (log_system L D)"
    using bq_new_inv(2) [OF q]
    by (intro system_atI [of _ _ _ _ _ _ 0 q _ _ "[]"]) (simp_all add: log_system_def lines_at_def placed_at_def)
  with L(1) log_init_async [OF _ q] assms(10) show ?thesis by auto
qed

text \<open>How many of the lines go to one file.\<close>

lemma lines_in_file:
  assumes "0 < s" and "\<forall>j<length cs. Suc j \<le> cs ! j \<and> cs ! j \<le> Suc j + cap + 1"
  shows "length (filter (\<lambda>c. c div s = k) cs) \<le> s + cap + 1"
proof -
  have "{j. j < length cs \<and> cs ! j div s = k} \<subseteq> (\<lambda>r. k * s + r - (cap + 2)) ` {..<s + cap + 1}"
  proof
    fix j assume "j \<in> {j. j < length cs \<and> cs ! j div s = k}"
    then have j: "Suc j \<le> cs ! j" "cs ! j \<le> Suc j + cap + 1" "cs ! j div s = k" using assms(2) by auto
    have "cs ! j = k * s + cs ! j mod s" using j(3) by (metis div_mult_mod_eq)
    moreover have "cs ! j mod s < s" using assms(1) by simp
    ultimately have "k * s \<le> Suc j + cap + 1" "Suc j < k * s + s" using j(1,2) by linarith+
    then have "j + (cap + 2) - k * s < s + cap + 1" "j = k * s + (j + (cap + 2) - k * s) - (cap + 2)" by linarith+
    then show "j \<in> (\<lambda>r. k * s + r - (cap + 2)) ` {..<s + cap + 1}" by blast
  qed
  then have "card {j. j < length cs \<and> cs ! j div s = k} \<le> card {..<s + cap + 1}"
    by (meson card_image_le card_mono finite_imageI finite_lessThan order_trans)
  then show ?thesis by (simp add: length_filter_conv_card)
qed

lemma placed_in_file:
  "map fst ps = map (\<lambda>c. day_file dir name t (c div s)) cs \<Longrightarrow>
   length (filter (\<lambda>p. fst p = day_file dir name t k) ps) = length (filter (\<lambda>c. c div s = k) cs)"
proof (induction ps arbitrary: cs)
  case (Cons p ps)
  then show ?case by (cases cs) (auto simp: day_file_inj)
qed simp

section \<open>Property\<close>

text \<open>C30: the asynchronous logger the server runs, with one thread that logs on the day of \<open>init\<close> lines that fit
  \<open>m_buf\<close>, and files that can be opened. However this thread and the one that writes interleave, with flushes and spurious wake-ups, no call faults; no line is lost, repeated or reordered: the lines
  logged are those in the files, the one the writer has, those in the queue and the one in \<open>write_log\<close>; every file holds
  exactly the lines put there, behind what it held; and the files are used in order. A line goes to the file
  that is open when it is written, the one numbered \<open>c div s\<close> for the count \<open>c\<close> at that time, which is at least the line's own
  number and larger by at most the places of the queue and one. So a line may go to a later file than its number says, and a
  file gets at most \<open>m_split_lines\<close> lines, the places of the queue and one more.\<close>

theorem log_files_async:
  assumes "dir = [] \<or> (\<exists>d. dir = d @ ''/'')" and "CHR ''/'' \<notin> set name" and "NUL \<notin> set (dir @ name)"
    and "length dir < 128" and "length name < 128" and "length dir + length name \<le> 220" and "tm_ok t"
    and "48 \<le> B" and "0 < s" and "0 < cap" and "\<forall>k. can_open (day_file dir name t k)" and "length as < 10 ^ 18"
    and "\<forall>l. LogCall l \<in> set as \<longrightarrow> same_day t (fst (snd l)) \<and> line_ok B l"
  shows "\<exists>L S cs. log_init can_open t (dir @ name) B (int s) (int cap) log_new = Inr (True, L) \<and>
    log_actions can_open as (log_system L D) = Inr S \<and>
    map line_text (logged_lines S) = map snd (placed S) @ taken (writer S) @ queued (logger S) @ under_way (stage S) \<and>
    (\<forall>f. files S f = D f @ concat (map snd (filter (\<lambda>p. fst p = f) (placed S)))) \<and>
    map fst (placed S) = map (\<lambda>c. day_file dir name t (c div s)) cs \<and> sorted cs \<and>
    (\<forall>j<length cs. Suc j \<le> cs ! j \<and> cs ! j \<le> Suc j + cap + 1) \<and>
    (\<forall>k. length (filter (\<lambda>p. fst p = day_file dir name t k) (placed S)) \<le> s + cap + 1)"
proof -
  obtain L where L: "log_init can_open t (dir @ name) B (int s) (int cap) log_new = Inr (True, L)"
    "system_at dir name t s B cap D (log_system L D)"
    using log_init_queue [OF assms(1-8) _ assms(10), of can_open s D] assms(11) by blast
  have "length (logged_lines (log_system L D)) + length as < 10 ^ 18" using assms(12) by (simp add: log_system_def)
  moreover have "\<forall>l. LogCall l \<in> set as \<longrightarrow> line_fine t B l" using assms(13) by (simp add: line_fine_def)
  ultimately obtain S where S: "log_actions can_open as (log_system L D) = Inr S" "system_at dir name t s B cap D S"
    using log_actions_run [OF L(2) assms(9,6) _ assms(11)] by blast
  then obtain c q cs where I: "logger_at dir name t s B cap c q (logger S)" "lines_at cap c q S"
    "placed_at dir name t s cap D c cs S" by (auto simp: system_at_def)
  have cs: "\<forall>j<length cs. Suc j \<le> cs ! j \<and> cs ! j \<le> Suc j + cap + 1"
    "map fst (placed S) = map (\<lambda>c. day_file dir name t (c div s)) cs" using I(3) by (simp_all add: placed_at_def)
  have "length (filter (\<lambda>p. fst p = day_file dir name t k) (placed S)) \<le> s + cap + 1" for k
    using lines_in_file [OF assms(9) cs(1)] placed_in_file [OF cs(2)] by metis
  moreover have "queued (logger S) = contents q" using I(1) by (simp add: logger_at_def queued_def)
  ultimately show ?thesis
    using L(1) S(1) I(2,3) by (intro exI [of _ L] exI [of _ S] exI [of _ cs]) (simp add: lines_at_def placed_at_def)
qed

text \<open>The witness: the name and sizes of the server's \<open>init\<close>.\<close>

theorem log_files_async_witness:
  "\<exists>L S. log_init (\<lambda>_. True) demo_tm ''ServerLog'' 8192 800000 500 log_new = Inr (True, L) \<and>
     log_actions (\<lambda>_. True) [LogCall (1, demo_tm, ''a''), WriterGoes True, LogGoes, LogGoes, LogGoes, LogGoes, WakeUp,
       WriterGoes True, LogCall (1, demo_tm, ''b''), LogGoes, WriterGoes True] (log_system L (\<lambda>_. [])) = Inr S \<and>
     map line_text (logged_lines S) = map snd (placed S) @ taken (writer S) @ queued (logger S) @ under_way (stage S)"
proof -
  have "tm_ok demo_tm" by (simp add: tm_ok_def demo_tm_def)
  moreover have "same_day demo_tm demo_tm" "line_ok 8192 (1, demo_tm, ''a'')" "line_ok 8192 (1, demo_tm, ''b'')"
    by (simp_all add: same_day_def line_ok_def tm_ok_def demo_tm_def)
  ultimately show ?thesis
    using log_files_async [of "[]" "''ServerLog''" demo_tm 8192 800000 500 "\<lambda>_. True"
        "[LogCall (1, demo_tm, ''a''), WriterGoes True, LogGoes, LogGoes, LogGoes, LogGoes, WakeUp,
          WriterGoes True, LogCall (1, demo_tm, ''b''), LogGoes, WriterGoes True]" "\<lambda>_. []"]
    by auto
qed

end
