(* ===== verification/GetConn.thy ===== *)
theory GetConn
  imports HttpResponse
begin

text \<open>
  The connection of the GET-only server, \<open>GET-WebServer/src/http_conn.cpp\<close>: an earlier version of the class of
  \<open>HttpConn\<close>. What it shares with it is taken from there: the enumerations (whose last method is spelt differently),
  the helpers on descriptors, the system calls and the kinds of pointers. Its members have the prefix \<open>g\<close> and its
  functions the prefix \<open>get\<close>. \<open>printf\<close> is an event of the trace.
\<close>

section \<open>The class\<close>

record get_conn =
  g_sockfd :: int
  g_address :: nat
  g_read_buf :: buffer
  g_read_idx :: nat
  g_checked_idx :: nat
  g_start_line :: nat
  g_write_buf :: buffer
  g_write_idx :: nat
  g_check_state :: CHECK_STATE
  g_method :: METHOD
  g_real_file :: buffer
  g_url :: "nat option"
  g_version :: "nat option"
  g_host :: "nat option"
  g_content_length :: int
  g_linger :: bool
  g_file_address :: "file_ptr option cell"
  g_file_stat :: "fstat cell"
  g_iv0 :: iovec
  g_iv1 :: iovec
  g_iv_count :: nat

text \<open>The file system: what \<open>stat\<close> says of a path, and the mapping of a file.\<close>

record files =
  f_stat :: "string \<Rightarrow> fstat option"
  f_mmap :: "string \<Rightarrow> nat \<Rightarrow> file_ptr"

definition get_doc_root :: string where "get_doc_root = ''/home/tyc/httpTest''"

text \<open>\<open>close_conn\<close> and its three statements, between which other threads can run: the last one loads the count and stores it
  less one.\<close>

definition get_close_fd :: "get_conn \<Rightarrow> 'd world \<Rightarrow> 'd world" where
  "get_close_fd h w = removefd (m_epollfd w) (g_sockfd h) w"

definition get_close_mark :: "get_conn \<Rightarrow> get_conn" where
  "get_close_mark h = h\<lparr>g_sockfd := -1\<rparr>"

definition get_close_store :: "int \<Rightarrow> 'd world \<Rightarrow> 'd world" where
  "get_close_store n w = w\<lparr>m_user_count := n - 1\<rparr>"

definition get_close_conn :: "bool \<Rightarrow> get_conn \<Rightarrow> 'd world \<Rightarrow> get_conn \<times> 'd world" where
  "get_close_conn real_close h w =
     (if real_close \<and> g_sockfd h \<noteq> -1
      then let w = get_close_fd h w in (get_close_mark h, get_close_store (m_user_count w) w)
      else (h, w))"

lemmas close_parts = get_close_fd_def get_close_mark_def get_close_store_def

definition get_init :: "get_conn \<Rightarrow> get_conn" where
  "get_init h = h\<lparr>g_check_state := CHECK_STATE_REQUESTLINE, g_linger := False, g_method := GET, g_url := None,
     g_version := None, g_content_length := 0, g_host := None, g_start_line := 0, g_checked_idx := 0,
     g_read_idx := 0, g_write_idx := 0,
     g_read_buf := replicate READ_BUFFER_SIZE NUL,
     g_write_buf := replicate WRITE_BUFFER_SIZE NUL,
     g_real_file := replicate FILENAME_LEN NUL\<rparr>"

text \<open>The two socket options have no effect the model sees.\<close>

definition get_init_conn :: "int \<Rightarrow> nat \<Rightarrow> get_conn \<Rightarrow> 'd world \<Rightarrow> get_conn \<times> 'd world" where
  "get_init_conn sockfd addr h w =
     (let h = h\<lparr>g_sockfd := sockfd, g_address := addr\<rparr>;
          w = addfd (m_epollfd w) sockfd True w;
          w = w\<lparr>m_user_count := m_user_count w + 1\<rparr>
      in (get_init h, w))"

section \<open>Reading\<close>

function get_parse_line :: "get_conn \<Rightarrow> (LINE_STATUS \<times> get_conn) res" where
  "get_parse_line h =
     (let i = g_checked_idx h in
      if i < g_read_idx h
      then andThen (rd (g_read_buf h) i) (\<lambda>temp.
        if temp = CR then
          (if i + 1 = g_read_idx h then Inr (LINE_OPEN, h)
           else andThen (rd (g_read_buf h) (i + 1)) (\<lambda>c.
             if c = LF then
               andThen (wr (g_read_buf h) i NUL) (\<lambda>b.
               andThen (wr b (i + 1) NUL) (\<lambda>b.
                 Inr (LINE_OK, h\<lparr>g_read_buf := b, g_checked_idx := i + 2\<rparr>)))
             else Inr (LINE_BAD, h)))
        else if temp = LF then
          (if i > 1
           then andThen (rd (g_read_buf h) (i - 1)) (\<lambda>c.
             if c = CR then
               andThen (wr (g_read_buf h) (i - 1) NUL) (\<lambda>b.
               andThen (wr b i NUL) (\<lambda>b.
                 Inr (LINE_OK, h\<lparr>g_read_buf := b, g_checked_idx := i + 1\<rparr>)))
             else Inr (LINE_BAD, h))
           else Inr (LINE_BAD, h))
        else get_parse_line (h\<lparr>g_checked_idx := i + 1\<rparr>))
      else Inr (LINE_OPEN, h))"
  by pat_completeness auto
termination
  by (relation "measure (\<lambda>h. g_read_idx h - g_checked_idx h)") auto

declare get_parse_line.simps [simp del]

function get_read_loop :: "recv_result list \<Rightarrow> get_conn \<Rightarrow> (bool \<times> get_conn \<times> recv_result list) res" where
  "get_read_loop sock h =
     (case recv (READ_BUFFER_SIZE - g_read_idx h) sock of
        (RecvAgain, sock) \<Rightarrow> Inr (True, h, sock)
      | (RecvError, sock) \<Rightarrow> Inr (False, h, sock)
      | (Data [], sock) \<Rightarrow> Inr (False, h, sock)
      | (Data (c # s), sock) \<Rightarrow>
          andThen (put (g_read_buf h) (g_read_idx h) (c # s)) (\<lambda>b.
            get_read_loop sock (h\<lparr>g_read_buf := b, g_read_idx := g_read_idx h + length (c # s)\<rparr>)))"
  by pat_completeness auto
termination
  by (relation "measure (\<lambda>(sock, h). sock_size sock)") (auto dest: recv_size [OF sym])

declare get_read_loop.simps [simp del]

definition get_read :: "recv_result list \<Rightarrow> get_conn \<Rightarrow> (bool \<times> get_conn \<times> recv_result list) res" where
  "get_read sock h =
     (if g_read_idx h \<ge> READ_BUFFER_SIZE then Inr (False, h, sock) else get_read_loop sock h)"

section \<open>The parsers\<close>

definition get_check_path :: "get_conn \<Rightarrow> (HTTP_CODE \<times> get_conn) res" where
  "get_check_path h =
     (case g_url h of
        None \<Rightarrow> Inr (BAD_REQUEST, h)
      | Some u \<Rightarrow>
          andThen (rd (g_read_buf h) u) (\<lambda>c.
            if c \<noteq> CHR ''/'' then Inr (BAD_REQUEST, h)
            else Inr (NO_REQUEST, h\<lparr>g_check_state := CHECK_STATE_HEADER\<rparr>)))"

definition get_skip_scheme :: "get_conn \<Rightarrow> get_conn res" where
  "get_skip_scheme h =
     andThen (deref (g_url h)) (\<lambda>u.
     andThen (strncasecmp0 (g_read_buf h) u ''http://'' 7) (\<lambda>same.
       if same then andThen (strchr (g_read_buf h) (u + 7) (CHR ''/'')) (\<lambda>p. Inr (h\<lparr>g_url := p\<rparr>))
       else Inr h))"

definition get_parse_request_line :: "nat \<Rightarrow> get_conn \<Rightarrow> (HTTP_CODE \<times> get_conn) res" where
  "get_parse_request_line text h =
     andThen (strpbrk (g_read_buf h) text [SP, TAB]) (\<lambda>u.
       case u of
         None \<Rightarrow> Inr (BAD_REQUEST, h\<lparr>g_url := None\<rparr>)
       | Some u \<Rightarrow>
           andThen (wr (g_read_buf h) u NUL) (\<lambda>b.
           let h = h\<lparr>g_read_buf := b, g_url := Some (u + 1)\<rparr> in
           andThen (strcasecmp0 b text ''GET'') (\<lambda>get.
             if \<not> get then Inr (BAD_REQUEST, h)
             else
               andThen (strspn b (u + 1) [SP, TAB]) (\<lambda>k.
               let u = u + 1 + k; h = h\<lparr>g_method := GET, g_url := Some u\<rparr> in
               andThen (strpbrk b u [SP, TAB]) (\<lambda>v.
                 case v of
                   None \<Rightarrow> Inr (BAD_REQUEST, h\<lparr>g_version := None\<rparr>)
                 | Some v \<Rightarrow>
                     andThen (wr b v NUL) (\<lambda>b.
                     andThen (strspn b (v + 1) [SP, TAB]) (\<lambda>k.
                     let v = v + 1 + k; h = h\<lparr>g_read_buf := b, g_version := Some v\<rparr> in
                     andThen (strcasecmp0 b v ''HTTP/1.1'') (\<lambda>same.
                       if \<not> same then Inr (BAD_REQUEST, h)
                       else andThen (get_skip_scheme h) get_check_path))))))))"

text \<open>\<open>atol\<close>, whose value is then converted to \<open>int\<close>.\<close>

definition atol :: "buffer \<Rightarrow> nat \<Rightarrow> int res" where
  "atol buf p =
     andThen (cstr buf p) (\<lambda>s.
       let v = atoi_value s
       in if -9223372036854775808 \<le> v \<and> v \<le> 9223372036854775807 then Inr v else Inl BadConversion)"

definition get_parse_headers :: "nat \<Rightarrow> get_conn \<Rightarrow> 'd world \<Rightarrow> (HTTP_CODE \<times> get_conn \<times> 'd world) res" where
  "get_parse_headers text h w =
     andThen (rd (g_read_buf h) text) (\<lambda>c.
     if c = NUL then
       (if g_method h = HEAD then Inr (GET_REQUEST, h, w)
        else if g_content_length h \<noteq> 0 then Inr (NO_REQUEST, h\<lparr>g_check_state := CHECK_STATE_CONTENT\<rparr>, w)
        else Inr (GET_REQUEST, h, w))
     else andThen (strncasecmp0 (g_read_buf h) text ''Connection:'' 11) (\<lambda>connection.
     if connection then
       andThen (strspn (g_read_buf h) (text + 11) [SP, TAB]) (\<lambda>k.
       andThen (strcasecmp0 (g_read_buf h) (text + 11 + k) ''keep-alive'') (\<lambda>keep.
         Inr (NO_REQUEST, if keep then h\<lparr>g_linger := True\<rparr> else h, w)))
     else andThen (strncasecmp0 (g_read_buf h) text ''Content-Length:'' 15) (\<lambda>content_length.
     if content_length then
       andThen (strspn (g_read_buf h) (text + 15) [SP, TAB]) (\<lambda>k.
       andThen (atol (g_read_buf h) (text + 15 + k)) (\<lambda>n.
         Inr (NO_REQUEST, h\<lparr>g_content_length := to_int n\<rparr>, w)))
     else andThen (strncasecmp0 (g_read_buf h) text ''Host:'' 5) (\<lambda>host.
     if host then
       andThen (strspn (g_read_buf h) (text + 5) [SP, TAB]) (\<lambda>k.
         Inr (NO_REQUEST, h\<lparr>g_host := Some (text + 5 + k)\<rparr>, w))
     else
       andThen (cstr (g_read_buf h) text) (\<lambda>s.
         Inr (NO_REQUEST, h, emit (Printed (''oop! unknow header '' @ s @ [LF])) w))))))"

definition get_parse_content :: "nat \<Rightarrow> get_conn \<Rightarrow> (HTTP_CODE \<times> get_conn) res" where
  "get_parse_content text h =
     andThen (add_int (g_content_length h) (int (g_checked_idx h))) (\<lambda>n.
       if int (g_read_idx h) \<ge> n then
         andThen (wr_at (g_read_buf h) (int text + g_content_length h) NUL) (\<lambda>b.
           Inr (GET_REQUEST, h\<lparr>g_read_buf := b\<rparr>))
       else Inr (NO_REQUEST, h))"

section \<open>The request\<close>

text \<open>The path: the copy stops one byte before the end of \<open>m_real_file\<close>.\<close>

definition get_request_path :: "get_conn \<Rightarrow> get_conn res" where
  "get_request_path h =
     andThen (strcpy (g_real_file h) 0 get_doc_root) (\<lambda>f.
     let len = length get_doc_root; n = FILENAME_LEN - len - 1 in
     andThen (deref (g_url h)) (\<lambda>u.
     andThen (cstrn (g_read_buf h) u n) (\<lambda>s.
     andThen (strncpy f len s n) (\<lambda>f. Inr (h\<lparr>g_real_file := f\<rparr>)))))"

definition get_do_request :: "files \<Rightarrow> get_conn \<Rightarrow> (HTTP_CODE \<times> get_conn) res" where
  "get_do_request fs h =
     andThen (get_request_path h) (\<lambda>h.
     andThen (cstr (g_real_file h) 0) (\<lambda>path.
       Inr (case f_stat fs path of
              None \<Rightarrow> (NO_RESOURCE, h)
            | Some st \<Rightarrow>
                let h = h\<lparr>g_file_stat := Set st\<rparr> in
                if st_mode st AND S_IROTH = 0 then (FORBIDDEN_REQUEST, h)
                else if S_ISDIR (st_mode st) then (BAD_REQUEST, h)
                else (FILE_REQUEST, h\<lparr>g_file_address := Set (Some (f_mmap fs path (st_size st)))\<rparr>))))"

definition get_loop_cond :: "LINE_STATUS \<Rightarrow> get_conn \<Rightarrow> (bool \<times> LINE_STATUS \<times> get_conn) res" where
  "get_loop_cond line_status h =
     (if g_check_state h = CHECK_STATE_CONTENT \<and> line_status = LINE_OK then Inr (True, line_status, h)
      else andThen (get_parse_line h) (\<lambda>(st, h). Inr (st = LINE_OK, st, h)))"

definition get_loop_body :: "files \<Rightarrow> LINE_STATUS \<Rightarrow> get_conn \<Rightarrow> 'd world \<Rightarrow>
    (HTTP_CODE option \<times> LINE_STATUS \<times> get_conn \<times> 'd world) res" where
  "get_loop_body fs line_status h w =
     (let text = g_start_line h; h = h\<lparr>g_start_line := g_checked_idx h\<rparr> in
      andThen (cstr (g_read_buf h) text) (\<lambda>s.
      let w = emit (Printed (''got 1 http line: '' @ s @ [LF])) w in
      case g_check_state h of
        CHECK_STATE_REQUESTLINE \<Rightarrow>
          andThen (get_parse_request_line text h) (\<lambda>(ret, h).
            Inr (if ret = BAD_REQUEST then Some BAD_REQUEST else None, line_status, h, w))
      | CHECK_STATE_HEADER \<Rightarrow>
          andThen (get_parse_headers text h w) (\<lambda>(ret, h, w).
            if ret = BAD_REQUEST then Inr (Some BAD_REQUEST, line_status, h, w)
            else if ret = GET_REQUEST then
              andThen (get_do_request fs h) (\<lambda>(c, h). Inr (Some c, line_status, h, w))
            else Inr (None, line_status, h, w))
      | CHECK_STATE_CONTENT \<Rightarrow>
          andThen (get_parse_content text h) (\<lambda>(ret, h).
            if ret = GET_REQUEST then
              andThen (get_do_request fs h) (\<lambda>(c, h). Inr (Some c, line_status, h, w))
            else Inr (None, LINE_OPEN, h, w))))"


section \<open>The other server's reader\<close>

text \<open>A connection of this server as one of the other server.\<close>

definition as_post :: "get_conn \<Rightarrow> unit http_conn" where
  "as_post h = \<lparr>mysql = None, m_sockfd = g_sockfd h, m_address = g_address h, m_read_buf = g_read_buf h,
     m_read_idx = g_read_idx h, m_checked_idx = g_checked_idx h, m_start_line = g_start_line h,
     m_write_buf = g_write_buf h, m_write_idx = g_write_idx h, m_check_state = g_check_state h,
     m_method = g_method h, m_real_file = g_real_file h, m_url = g_url h, m_version = g_version h,
     m_host = g_host h, m_content_length = g_content_length h, m_linger = g_linger h,
     m_file_address = g_file_address h, m_file_stat = g_file_stat h, m_iv0 = g_iv0 h, m_iv1 = g_iv1 h,
     m_iv_count = g_iv_count h, cgi = 0, m_string = Unset, bytes_to_send = 0, bytes_have_send = 0\<rparr>"

lemma as_post_simps [simp]:
  "m_sockfd (as_post h) = g_sockfd h" "m_read_buf (as_post h) = g_read_buf h" "m_read_idx (as_post h) = g_read_idx h"
  "m_checked_idx (as_post h) = g_checked_idx h" "m_check_state (as_post h) = g_check_state h"
  "m_start_line (as_post h) = g_start_line h" "m_write_buf (as_post h) = g_write_buf h" "m_write_idx (as_post h) = g_write_idx h"
  "m_real_file (as_post h) = g_real_file h" "m_linger (as_post h) = g_linger h" "m_url (as_post h) = g_url h"
  by (simp_all add: as_post_def)

lemma as_post_update:
  "(as_post h)\<lparr>m_checked_idx := i\<rparr> = as_post (h\<lparr>g_checked_idx := i\<rparr>)"
  "(as_post h)\<lparr>m_read_buf := b, m_checked_idx := i\<rparr> = as_post (h\<lparr>g_read_buf := b, g_checked_idx := i\<rparr>)"
  "(as_post h)\<lparr>m_read_buf := b, m_read_idx := i\<rparr> = as_post (h\<lparr>g_read_buf := b, g_read_idx := i\<rparr>)"
  by (simp_all add: as_post_def)

text \<open>The two parsers of a line and the two readers are the same.\<close>

lemma get_parse_line_post: "parse_line (as_post h) = res_map (\<lambda>(st, h). (st, as_post h)) (get_parse_line h)"
proof (induction h rule: get_parse_line.induct)
  case (1 h)
  show ?case
  proof (cases "g_checked_idx h < g_read_idx h \<and> g_checked_idx h < length (g_read_buf h) \<and>
      g_read_buf h ! g_checked_idx h \<noteq> CR \<and> g_read_buf h ! g_checked_idx h \<noteq> LF")
    case True
    with "1.IH" [OF refl, of "g_read_buf h ! g_checked_idx h"] show ?thesis
      by (subst parse_line.simps, subst get_parse_line.simps) (simp add: Let_def rd_ok as_post_update)
  next
    case False
    then show ?thesis
      by (subst parse_line.simps, subst get_parse_line.simps)
        (auto simp: Let_def rd_def wr_def as_post_update)
  qed
qed

lemma get_read_loop_post:
  "read_loop sock (as_post h) = res_map (\<lambda>(r, h, sock). (r, as_post h, sock)) (get_read_loop sock h)"
proof (induction sock h rule: get_read_loop.induct)
  case (1 sock h)
  obtain r sock' where r: "recv (READ_BUFFER_SIZE - g_read_idx h) sock = (r, sock')"
    by (cases "recv (READ_BUFFER_SIZE - g_read_idx h) sock")
  show ?case
  proof (cases r)
    case (Data s)
    show ?thesis
    proof (cases s)
      case Nil
      with r Data show ?thesis
        by (subst read_loop.simps, subst get_read_loop.simps) simp
    next
      case (Cons c t)
      show ?thesis
      proof (cases "put (g_read_buf h) (g_read_idx h) (c # t)")
        case (Inr b)
        have "read_loop sock' (as_post (h\<lparr>g_read_buf := b, g_read_idx := g_read_idx h + length (c # t)\<rparr>)) =
          res_map (\<lambda>(r, h, sock). (r, as_post h, sock))
            (get_read_loop sock' (h\<lparr>g_read_buf := b, g_read_idx := g_read_idx h + length (c # t)\<rparr>))"
          using r Data Cons Inr by (intro "1.IH" [of r sock' "c # t" c t b]) simp_all
        with r Data Cons Inr show ?thesis
          by (subst read_loop.simps, subst get_read_loop.simps) (simp add: as_post_update)
      qed (use r Data Cons in \<open>subst read_loop.simps, subst get_read_loop.simps, simp\<close>)
    qed
  qed (use r in \<open>subst read_loop.simps, subst get_read_loop.simps, simp\<close>)+
qed

text \<open>What the main loop needs of the line parser.\<close>

lemma get_parse_line_progress:
  assumes "get_parse_line h = Inr (st, h')"
  shows "g_read_idx h' = g_read_idx h \<and> g_check_state h' = g_check_state h \<and>
     (st = LINE_OK \<longrightarrow> g_checked_idx h < g_checked_idx h' \<and> g_checked_idx h' \<le> g_read_idx h)"
proof -
  have "parse_line (as_post h) = Inr (st, as_post h')" using get_parse_line_post [of h] assms by simp
  from parse_line_progress [OF this] show ?thesis by simp
qed


section \<open>process\_read\<close>

lemma get_parse_request_line_idx:
  "get_parse_request_line p h = Inr (c, h') \<Longrightarrow>
     g_read_idx h' = g_read_idx h \<and> g_checked_idx h' = g_checked_idx h \<and> g_sockfd h' = g_sockfd h"
  by (auto simp: get_parse_request_line_def get_skip_scheme_def get_check_path_def Let_def
      simp del: rd_Inr wr_Inr split: if_splits option.splits)

lemma get_parse_headers_idx:
  "get_parse_headers p h w = Inr (c, h', w') \<Longrightarrow>
     g_read_idx h' = g_read_idx h \<and> g_checked_idx h' = g_checked_idx h \<and> g_sockfd h' = g_sockfd h"
  by (auto simp: get_parse_headers_def split: if_splits)

lemma get_parse_content_idx:
  "get_parse_content p h = Inr (c, h') \<Longrightarrow>
     g_read_idx h' = g_read_idx h \<and> g_checked_idx h' = g_checked_idx h \<and> g_sockfd h' = g_sockfd h"
  by (auto simp: get_parse_content_def split: if_splits)

lemma get_loop_body_idx:
  "get_loop_body fs st h w = Inr (None, st', h', w') \<Longrightarrow>
     g_read_idx h' = g_read_idx h \<and> g_checked_idx h' = g_checked_idx h \<and>
     (if g_check_state h = CHECK_STATE_CONTENT then st' = LINE_OPEN else st' = st)"
  by (cases "g_check_state h")
    (auto simp: get_loop_body_def Let_def split: if_splits
      dest!: get_parse_request_line_idx get_parse_headers_idx get_parse_content_idx)

function get_process_read_loop :: "files \<Rightarrow> LINE_STATUS \<Rightarrow> get_conn \<Rightarrow> 'd world \<Rightarrow>
    (HTTP_CODE \<times> get_conn \<times> 'd world) res" where
  "get_process_read_loop fs line_status h w =
     andThen (get_loop_cond line_status h) (\<lambda>(go, line_status, h).
       if \<not> go then Inr (NO_REQUEST, h, w)
       else andThen (get_loop_body fs line_status h w) (\<lambda>(ret, line_status, h, w).
              case ret of
                Some c \<Rightarrow> Inr (c, h, w)
              | None \<Rightarrow> get_process_read_loop fs line_status h w))"
  by pat_completeness auto
termination
proof (relation "measure (\<lambda>(fs, st, h, w).
    2 * (g_read_idx h - g_checked_idx h) + (if st = LINE_OK then 1 else 0))", goal_cases)
  case (2 fs st h w x go y st1 h1 x1 ret y1 st2 z h2 w2)
  then have cond: "get_loop_cond st h = Inr (True, st1, h1)" and body: "get_loop_body fs st1 h1 w = Inr (None, st2, h2, w2)"
    by auto
  from get_loop_body_idx [OF body]
  have idx: "g_read_idx h2 = g_read_idx h1" "g_checked_idx h2 = g_checked_idx h1"
    and st2: "g_check_state h1 = CHECK_STATE_CONTENT \<Longrightarrow> st2 = LINE_OPEN" by (auto split: if_splits)
  show ?case
  proof (cases "g_check_state h = CHECK_STATE_CONTENT \<and> st = LINE_OK")
    case True
    with cond have "st1 = LINE_OK" "h1 = h" by (simp_all add: get_loop_cond_def)
    with True st2 idx show ?thesis by simp
  next
    case False
    with cond have "get_parse_line h = Inr (LINE_OK, h1)" by (auto simp: get_loop_cond_def)
    from get_parse_line_progress [OF this] idx show ?thesis by auto
  qed
qed simp

declare get_process_read_loop.simps [simp del]

definition get_process_read :: "files \<Rightarrow> get_conn \<Rightarrow> 'd world \<Rightarrow> (HTTP_CODE \<times> get_conn \<times> 'd world) res" where
  "get_process_read fs h w = get_process_read_loop fs LINE_OK h w"

end
