(* ===== verification/GetResponse.thy ===== *)
theory GetResponse
  imports GetConn
begin

text \<open>
  The response side of \<open>GET-WebServer/src/http_conn.cpp\<close>: the formatting of the response, \<open>process_write\<close>, \<open>write\<close>
  and \<open>process\<close>. Unlike the other server \<open>write\<close> counts the header alone and hands \<open>writev\<close> the same vectors in every
  round.
\<close>

section \<open>Formatting\<close>

definition get_add_response :: "string \<Rightarrow> get_conn \<Rightarrow> (bool \<times> get_conn) res" where
  "get_add_response s h =
     (if g_write_idx h \<ge> WRITE_BUFFER_SIZE then Inr (False, h)
      else let n = WRITE_BUFFER_SIZE - 1 - g_write_idx h in
        andThen (snprintf (g_write_buf h) (g_write_idx h) n s) (\<lambda>(len, b).
          let h = h\<lparr>g_write_buf := b\<rparr> in
          if len \<ge> n then Inr (False, h) else Inr (True, h\<lparr>g_write_idx := g_write_idx h + len\<rparr>)))"

definition get_add_status_line :: "int \<Rightarrow> string \<Rightarrow> get_conn \<Rightarrow> (bool \<times> get_conn) res" where
  "get_add_status_line status title =
     get_add_response (''HTTP/1.1'' @ '' '' @ show_int status @ '' '' @ title @ crlf)"

definition get_add_content_length :: "int \<Rightarrow> get_conn \<Rightarrow> (bool \<times> get_conn) res" where
  "get_add_content_length content_len = get_add_response (''Content-Length: '' @ show_int content_len @ crlf)"

definition get_add_linger :: "get_conn \<Rightarrow> (bool \<times> get_conn) res" where
  "get_add_linger h =
     get_add_response (''Connection: '' @ (if g_linger h then ''keep-alive'' else ''close'') @ crlf) h"

definition get_add_blank_line :: "get_conn \<Rightarrow> (bool \<times> get_conn) res" where
  "get_add_blank_line = get_add_response crlf"

definition get_add_content :: "string \<Rightarrow> get_conn \<Rightarrow> (bool \<times> get_conn) res" where
  "get_add_content content = get_add_response content"

text \<open>Here too \<open>add_headers\<close> has no \<open>return\<close>.\<close>

definition get_add_headers :: "int \<Rightarrow> get_conn \<Rightarrow> get_conn res" where
  "get_add_headers content_len h =
     andThen (get_add_content_length content_len h) (\<lambda>(_, h).
     andThen (get_add_linger h) (\<lambda>(_, h).
     andThen (get_add_blank_line h) (\<lambda>(_, h). Inr h)))"

section \<open>process\_write\<close>

definition get_400_title :: string where "get_400_title = ''Bad Request''"
definition get_400_form :: string where
  "get_400_form = ''Your request has bad syntax or is inherently impossible to satisfy.'' @ [LF]"
definition get_403_title :: string where "get_403_title = ''Forbidden''"
definition get_403_form :: string where
  "get_403_form = ''You do not have permission to get file from this server.'' @ [LF]"
definition get_404_title :: string where "get_404_title = ''Not Found''"
definition get_404_form :: string where
  "get_404_form = ''The requested file was not found on this server.'' @ [LF]"
definition get_500_title :: string where "get_500_title = ''Internal Error''"
definition get_500_form :: string where
  "get_500_form = ''There was an unusual problem serving the requested file.'' @ [LF]"

text \<open>The end of the function: the header buffer alone is sent.\<close>

definition get_send_buffer :: "get_conn \<Rightarrow> get_conn" where
  "get_send_buffer h = h\<lparr>g_iv0 := \<lparr>iov_base = WriteBuf 0, iov_len = int (g_write_idx h)\<rparr>, g_iv_count := 1\<rparr>"

text \<open>The four error cases have the same form.\<close>

definition get_error_response :: "int \<Rightarrow> string \<Rightarrow> string \<Rightarrow> get_conn \<Rightarrow> (bool \<times> get_conn) res" where
  "get_error_response status title form h =
     andThen (get_add_status_line status title h) (\<lambda>(_, h).
     andThen (get_add_headers (int (length form)) h) (\<lambda>h.
     andThen (get_add_content form h) (\<lambda>(added, h).
       if \<not> added then Inr (False, h) else Inr (True, get_send_buffer h))))"

definition get_file_response :: "get_conn \<Rightarrow> (bool \<times> get_conn) res" where
  "get_file_response h =
     andThen (get_add_status_line 200 ''OK'' h) (\<lambda>(_, h).
     andThen (fetch (g_file_stat h)) (\<lambda>st.
       if st_size st \<noteq> 0 then
         andThen (get_add_headers (to_int (int (st_size st))) h) (\<lambda>h.
         andThen (fetch (g_file_address h)) (\<lambda>p.
           Inr (True,
             h\<lparr>g_iv0 := \<lparr>iov_base = WriteBuf 0, iov_len = int (g_write_idx h)\<rparr>,
               g_iv1 := \<lparr>iov_base = FileAt p 0, iov_len = int (st_size st)\<rparr>,
               g_iv_count := 2\<rparr>)))
       else
         let ok_string = ''<html><body></body></html>'' in
         andThen (get_add_headers (int (length ok_string)) h) (\<lambda>h.
         andThen (get_add_content ok_string h) (\<lambda>(_, h). Inr (False, h)))))"

definition get_process_write :: "HTTP_CODE \<Rightarrow> get_conn \<Rightarrow> (bool \<times> get_conn) res" where
  "get_process_write ret h =
     (case ret of
        INTERNAL_ERROR \<Rightarrow> get_error_response 500 get_500_title get_500_form h
      | BAD_REQUEST \<Rightarrow> get_error_response 400 get_400_title get_400_form h
      | NO_RESOURCE \<Rightarrow> get_error_response 404 get_404_title get_404_form h
      | FORBIDDEN_REQUEST \<Rightarrow> get_error_response 403 get_403_title get_403_form h
      | FILE_REQUEST \<Rightarrow> get_file_response h
      | _ \<Rightarrow> Inr (False, h))"

section \<open>write\<close>

definition get_unmap :: "get_conn \<Rightarrow> 'd world \<Rightarrow> (get_conn \<times> 'd world) res" where
  "get_unmap h w =
     andThen (fetch (g_file_address h)) (\<lambda>p.
       case p of
         None \<Rightarrow> Inr (h, w)
       | Some f \<Rightarrow>
           andThen (fetch (g_file_stat h)) (\<lambda>st.
             Inr (h\<lparr>g_file_address := Set None\<rparr>, emit (Munmap f (st_size st)) w)))"

text \<open>The bytes the vectors stand for.\<close>

definition get_iov_all :: "get_conn \<Rightarrow> string res" where
  "get_iov_all h = iov_all (as_post h)"

text \<open>The loop with its two counters, the local variables \<open>bytes_to_send\<close> and \<open>bytes_have_send\<close>.\<close>

fun get_write_loop :: "writev_result list \<Rightarrow> int \<Rightarrow> int \<Rightarrow> get_conn \<Rightarrow> 'd world \<Rightarrow>
    (bool \<times> get_conn \<times> 'd world) res" where
  "get_write_loop [] to_send have_send h w = Inr (True, h, modfd (m_epollfd w) (g_sockfd h) EPOLLOUT w)"
| "get_write_loop (WriteAgain # sock) to_send have_send h w =
     Inr (True, h, modfd (m_epollfd w) (g_sockfd h) EPOLLOUT w)"
| "get_write_loop (WriteError # sock) to_send have_send h w = andThen (get_unmap h w) (\<lambda>(h, w). Inr (False, h, w))"
| "get_write_loop (Room n # sock) to_send have_send h w =
     andThen (get_iov_all h) (\<lambda>s.
     let temp = int (length (take n s)); w = emit (SentBytes (g_sockfd h) (take n s)) w;
         to_send = to_send - temp; have_send = have_send + temp in
       if to_send \<le> have_send then
         andThen (get_unmap h w) (\<lambda>(h, w).
           if g_linger h then Inr (True, get_init h, modfd (m_epollfd w) (g_sockfd h) EPOLLIN w)
           else Inr (False, h, modfd (m_epollfd w) (g_sockfd h) EPOLLIN w))
       else get_write_loop sock to_send have_send h w)"

definition get_write :: "writev_result list \<Rightarrow> get_conn \<Rightarrow> 'd world \<Rightarrow> (bool \<times> get_conn \<times> 'd world) res" where
  "get_write sock h w =
     (if g_write_idx h = 0
      then Inr (True, get_init h, modfd (m_epollfd w) (g_sockfd h) EPOLLIN w)
      else get_write_loop sock (int (g_write_idx h)) 0 h w)"

section \<open>process\<close>

definition get_process :: "files \<Rightarrow> get_conn \<Rightarrow> 'd world \<Rightarrow> (get_conn \<times> 'd world) res" where
  "get_process fs h w =
     andThen (get_process_read fs h w) (\<lambda>(read_ret, h, w).
       if read_ret = NO_REQUEST then Inr (h, modfd (m_epollfd w) (g_sockfd h) EPOLLIN w)
       else andThen (get_process_write read_ret h) (\<lambda>(write_ret, h).
              let (h, w) = (if \<not> write_ret then get_close_conn True h w else (h, w))
              in Inr (h, modfd (m_epollfd w) (g_sockfd h) EPOLLOUT w)))"

end
