(* ===== verification/GetReply.thy ===== *)
theory GetReply
  imports GetResponse HttpRoute
begin

text \<open>
  Properties of the GET-only server's connection: the line reader is the other server's, the path never leaves
  \<open>m_real_file\<close>, every error code has its page, and \<open>write\<close> ends after its first round.
\<close>

section \<open>The header buffer\<close>

abbreviation get_holds :: "get_conn \<Rightarrow> string \<Rightarrow> bool" where
  "get_holds h hdr \<equiv> holds (as_post h) hdr"

lemma get_holds_init: "get_holds (get_init h) []"
  by (simp add: holds_def get_init_def WRITE_BUFFER_SIZE_def)

text \<open>A connection in which only the write buffer differs.\<close>

definition get_same :: "get_conn \<Rightarrow> get_conn \<Rightarrow> bool" where
  "get_same h h' \<longleftrightarrow> h' = h\<lparr>g_write_buf := g_write_buf h', g_write_idx := g_write_idx h'\<rparr>"

lemma get_same_refl [simp]: "get_same h h"
  by (simp add: get_same_def)

lemma get_same_trans: "get_same a b \<Longrightarrow> get_same b c \<Longrightarrow> get_same a c"
  unfolding get_same_def by (metis (no_types, lifting) get_conn.update_convs(7,8) get_conn.surjective)

lemma get_same_fields:
  assumes "get_same h h'"
  shows "g_linger h' = g_linger h" "g_file_stat h' = g_file_stat h" "g_file_address h' = g_file_address h"
    "g_sockfd h' = g_sockfd h"
  by (subst assms [unfolded get_same_def], simp)+

lemma get_add_response_fits:
  assumes "get_holds h hdr" and "NUL \<notin> set s" and "length hdr + length s < 1023"
  shows "\<exists>h'. get_add_response s h = Inr (True, h') \<and> get_holds h' (hdr @ s) \<and> get_same h h'"
proof -
  let ?b = "(hdr @ s) @ replicate (1024 - length (hdr @ s)) NUL"
  have buf: "g_write_buf h = hdr @ replicate (1024 - length hdr) NUL" and idx: "g_write_idx h = length hdr"
    and nul: "NUL \<notin> set hdr"
    using assms(1) by (simp_all add: holds_def WRITE_BUFFER_SIZE_def)
  have "1024 - length (hdr @ s) = Suc (1023 - length (hdr @ s))" using assms(3) by simp
  then obtain m where m: "1024 - length (hdr @ s) = Suc m" ..
  have "snprintf (g_write_buf h) (length hdr) (1023 - length hdr) s = Inr (length s, ?b)"
  proof -
    have "drop (length hdr + Suc (length s)) (g_write_buf h) = replicate m NUL"
      using m by (simp add: buf)
    then show ?thesis
      using snprintf_fits [of s "1023 - length hdr" "length hdr" "g_write_buf h"] assms(3) m
      by (simp add: buf)
  qed
  then have "get_add_response s h = Inr (True, h\<lparr>g_write_buf := ?b, g_write_idx := length hdr + length s\<rparr>)"
    using assms(3) idx by (simp add: get_add_response_def WRITE_BUFFER_SIZE_def Let_def)
  moreover have "get_holds (h\<lparr>g_write_buf := ?b, g_write_idx := length hdr + length s\<rparr>) (hdr @ s)"
    using nul assms(2,3) by (simp add: holds_def WRITE_BUFFER_SIZE_def)
  moreover have "get_same h (h\<lparr>g_write_buf := ?b, g_write_idx := length hdr + length s\<rparr>)"
    by (simp add: get_same_def)
  ultimately show ?thesis by blast
qed

definition get_header_text :: "int \<Rightarrow> bool \<Rightarrow> string" where
  "get_header_text n linger =
     ''Content-Length: '' @ show_int n @ crlf @
     ''Connection: '' @ (if linger then ''keep-alive'' else ''close'') @ crlf @ crlf"

lemma get_header_text_NUL: "NUL \<notin> set (get_header_text n linger)"
  by (simp add: get_header_text_def crlf_def show_int_NUL)

lemma get_add_headers_fits:
  assumes "get_holds h hdr" and "length hdr + length (get_header_text n (g_linger h)) < 1023"
  shows "\<exists>h'. get_add_headers n h = Inr h' \<and> get_holds h' (hdr @ get_header_text n (g_linger h)) \<and> get_same h h'"
proof -
  let ?a = "''Content-Length: '' @ show_int n @ crlf"
  let ?b = "''Connection: '' @ (if g_linger h then ''keep-alive'' else ''close'') @ crlf"
  have l: "length hdr + length ?a + length ?b + 2 < 1023"
    using assms(2) by (simp add: get_header_text_def crlf_def)
  have "NUL \<notin> set ?a" by (simp add: show_int_NUL crlf_def)
  from get_add_response_fits [OF assms(1) this] l obtain h1 where
    1: "get_add_response ?a h = Inr (True, h1)" "get_holds h1 (hdr @ ?a)" "get_same h h1" by auto
  have "NUL \<notin> set ?b" by (simp add: crlf_def)
  from get_add_response_fits [OF 1(2) this] l obtain h2 where
    2: "get_add_response ?b h1 = Inr (True, h2)" "get_holds h2 ((hdr @ ?a) @ ?b)" "get_same h1 h2" by auto
  have "NUL \<notin> set crlf" by (simp add: crlf_def)
  from get_add_response_fits [OF 2(2) this] l obtain h3 where
    3: "get_add_response crlf h2 = Inr (True, h3)" "get_holds h3 (((hdr @ ?a) @ ?b) @ crlf)" "get_same h2 h3"
    by (auto simp: crlf_def)
  have "get_add_headers n h = Inr h3"
    using 1(1) 2(1) 3(1) get_same_fields(1) [OF 1(3)]
    by (simp add: get_add_headers_def get_add_content_length_def get_add_linger_def get_add_blank_line_def)
  moreover have "get_holds h3 (hdr @ get_header_text n (g_linger h))" using 3(2) by (simp add: get_header_text_def)
  moreover have "get_same h h3" using 1(3) 2(3) 3(3) get_same_trans by metis
  ultimately show ?thesis by blast
qed

text \<open>A header for a connection that has written nothing yet.\<close>

lemma get_header_fits:
  assumes "get_holds h []" and "NUL \<notin> set title" and "status < 1000" "0 \<le> status" "length title < 100" "in_int n"
  obtains h1 h2 where "get_add_status_line status title h = Inr (True, h1)" "get_add_headers n h1 = Inr h2"
    "get_holds h2 (status_text status title @ get_header_text n (g_linger h))" "get_same h h1" "get_same h h2"
    "length (status_text status title @ get_header_text n (g_linger h)) < 250"
proof -
  have "length (show_int status) \<le> 3" using length_show_nat [of 3 "nat status"] assms(3,4) by (simp add: show_int_def)
  then have l1: "length (status_text status title) < 120" using assms(5) by (simp add: status_text_def crlf_def)
  have "length (show_int n) \<le> 11"
  proof -
    have "nat n < 10 ^ 10" "nat (- n) < 10 ^ 10" using assms(6) by (auto simp: in_int_def INT_MAX_def INT_MIN_def)
    then have "length (show_nat (nat n)) \<le> 10" "length (show_nat (nat (- n))) \<le> 10"
      by (auto intro!: length_show_nat)
    then show ?thesis by (simp add: show_int_def)
  qed
  then have l2: "length (get_header_text n (g_linger h)) < 80" by (simp add: get_header_text_def crlf_def)
  obtain h1 where 1: "get_add_response (status_text status title) h = Inr (True, h1)"
    "get_holds h1 (status_text status title)" "get_same h h1"
    using get_add_response_fits [OF assms(1) status_text_NUL [OF assms(2)], of status] l1 by auto
  obtain h2 where 2: "get_add_headers n h1 = Inr h2"
    "get_holds h2 (status_text status title @ get_header_text n (g_linger h1))" "get_same h1 h2"
    using get_add_headers_fits [OF 1(2), of n] l1 l2 get_same_fields(1) [OF 1(3)] by auto
  show thesis
    using that [of h1 h2] 1 2 l1 l2 get_same_fields(1) [OF 1(3)] get_same_trans [OF 1(3) 2(3)]
    by (simp add: get_add_status_line_def status_text_def)
qed


section \<open>Error pages\<close>

text \<open>The table of \<open>process_write\<close>.\<close>

fun get_error_page :: "HTTP_CODE \<Rightarrow> (int \<times> string \<times> string) option" where
  "get_error_page INTERNAL_ERROR = Some (500, ''Internal Error'', get_500_form)"
| "get_error_page BAD_REQUEST = Some (400, ''Bad Request'', get_400_form)"
| "get_error_page NO_RESOURCE = Some (404, ''Not Found'', get_404_form)"
| "get_error_page FORBIDDEN_REQUEST = Some (403, ''Forbidden'', get_403_form)"
| "get_error_page _ = None"

lemma get_process_write_error:
  "get_error_page ret = Some (status, title, form) \<Longrightarrow> get_process_write ret h = get_error_response status title form h"
  by (cases ret) (auto simp: get_process_write_def get_400_title_def get_403_title_def get_404_title_def get_500_title_def)

lemma get_error_page_small:
  "get_error_page ret = Some (status, title, form) \<Longrightarrow>
     0 \<le> status \<and> status < 1000 \<and> length title < 100 \<and> length form < 100 \<and> NUL \<notin> set title \<and> NUL \<notin> set form"
  by (cases ret) (auto simp: get_400_form_def get_403_form_def get_404_form_def get_500_form_def)

text \<open>The vectors of a buffer alone.\<close>

lemma get_send_buffer_iov: "get_holds h s \<Longrightarrow> get_iov_all (get_send_buffer h) = Inr s"
  by (simp add: get_iov_all_def iov_all_def iov_bytes_def slice_def as_post_def get_send_buffer_def holds_def
      WRITE_BUFFER_SIZE_def)

text \<open>Every error code is answered by its own complete page, a missing file by 404: \<open>process_write\<close> succeeds and the
  vectors stand for status line, headers with the length of the page, blank line and page.\<close>

lemma get_error_reply:
  assumes "get_holds h []" and "get_error_page ret = Some (status, title, form)"
  shows "\<exists>h'. get_process_write ret h = Inr (True, h') \<and> g_sockfd h' = g_sockfd h \<and> g_linger h' = g_linger h \<and>
    get_iov_all h' = Inr (''HTTP/1.1 '' @ show_int status @ '' '' @ title @ [CR, LF] @
      ''Content-Length: '' @ show_int (int (length form)) @ [CR, LF] @
      ''Connection: '' @ (if g_linger h then ''keep-alive'' else ''close'') @ [CR, LF] @ [CR, LF] @ form)"
proof -
  note small = get_error_page_small [OF assms(2)]
  let ?hdr = "status_text status title @ get_header_text (int (length form)) (g_linger h)"
  have "in_int (int (length form))" using small by (simp add: in_int_def INT_MAX_def INT_MIN_def)
  with small obtain h1 h2 where
    h: "get_add_status_line status title h = Inr (True, h1)" "get_add_headers (int (length form)) h1 = Inr h2"
    "get_holds h2 ?hdr" "get_same h h2" "length ?hdr < 250"
    using get_header_fits [OF assms(1), of title status "int (length form)"] by blast
  obtain h3 where h3: "get_add_response form h2 = Inr (True, h3)" "get_holds h3 (?hdr @ form)" "get_same h2 h3"
    using get_add_response_fits [OF h(3), of form] small h(5) by auto
  have "get_error_response status title form h = Inr (True, get_send_buffer h3)"
    using h(1,2) h3(1) by (simp add: get_error_response_def get_add_content_def)
  moreover have "get_iov_all (get_send_buffer h3) = Inr (?hdr @ form)" using h3(2) by (rule get_send_buffer_iov)
  ultimately show ?thesis
    using get_same_fields [OF get_same_trans [OF h(4) h3(3)]] get_process_write_error [OF assms(2), of h]
    by (simp add: get_send_buffer_def status_text_def get_header_text_def crlf_def)
qed

definition demo_get :: get_conn where
  "demo_get = get_init \<lparr>g_sockfd = 9, g_address = 0, g_read_buf = [], g_read_idx = 0, g_checked_idx = 0, g_start_line = 0,
     g_write_buf = [], g_write_idx = 0, g_check_state = CHECK_STATE_REQUESTLINE, g_method = GET, g_real_file = [],
     g_url = None, g_version = None, g_host = None, g_content_length = 0, g_linger = False, g_file_address = Unset,
     g_file_stat = Unset, g_iv0 = \<lparr>iov_base = NoPtr, iov_len = 0\<rparr>, g_iv1 = \<lparr>iov_base = NoPtr, iov_len = 0\<rparr>, g_iv_count = 0\<rparr>"

lemma get_error_reply_witness:
  "\<exists>h'. get_process_write NO_RESOURCE demo_get = Inr (True, h') \<and>
     get_iov_all h' = Inr (''HTTP/1.1 '' @ show_int 404 @ '' Not Found'' @ [CR, LF] @ ''Content-Length: '' @ show_int 49 @ [CR, LF] @
       ''Connection: close'' @ [CR, LF] @ [CR, LF] @ get_404_form)"
proof -
  have "get_holds demo_get []" "\<not> g_linger demo_get" "length get_404_form = 49"
    by (simp_all add: demo_get_def get_holds_init) (simp_all add: get_init_def get_404_form_def)
  with get_error_reply [of demo_get NO_RESOURCE 404 "''Not Found''" get_404_form] show ?thesis by auto
qed

section \<open>Files\<close>

lemma length_get_doc_root: "length get_doc_root = 18"
  by (simp add: get_doc_root_def)

lemma get_doc_root_NUL: "NUL \<notin> set get_doc_root"
  by (simp add: get_doc_root_def)

text \<open>The text of the path.\<close>

lemma get_path_text:
  assumes "g_url h = Some u" and "cstr (g_read_buf h) u = Inr url" and "length (g_real_file h) = 200"
    and "g_real_file h ! 199 = NUL"
  shows "get_request_path h = Inr (h\<lparr>g_real_file := get_doc_root @ take 181 url @ replicate (182 - length (take 181 url)) NUL\<rparr>)"
proof -
  let ?root = get_doc_root and ?s = "take 181 url"
  let ?f = "?root @ ?s @ replicate (182 - length ?s) NUL"
  have sn: "cstrn (g_read_buf h) u 181 = Inr ?s" by (rule cstrn_take [OF assms(2)])
  obtain f1 where f1: "strcpy (g_real_file h) 0 get_doc_root = Inr f1" "f1 = ?root @ NUL # drop 19 (g_real_file h)"
    using assms(3) by (simp add: strcpy_def put_def length_get_doc_root)
  have "drop 199 (g_real_file h) = [NUL]"
    using assms(3,4) Cons_nth_drop_Suc [of 199 "g_real_file h"] by simp
  moreover have "replicate (181 - k) NUL @ [NUL] = replicate (182 - k) NUL" if "k \<le> 181" for k
  proof -
    have "182 - k = Suc (181 - k)" using that by simp
    then show ?thesis by (simp add: replicate_append_same)
  qed
  ultimately have "strncpy f1 18 ?s 181 = Inr ?f"
    using assms(3) by (simp add: strncpy_def put_def f1(2) length_get_doc_root)
  then show ?thesis
    using assms(1) sn f1(1) by (simp add: get_request_path_def length_get_doc_root FILENAME_LEN_def Let_def)
qed

text \<open>C25: the path of the file is the root with at most 181 bytes of the URL: \<open>do_request\<close> never leaves \<open>m_real_file\<close>,
  however long the URL is, and its result is what \<open>stat\<close> says of that path.\<close>

theorem get_serves_path:
  assumes "g_url h = Some u" and "cstr (g_read_buf h) u = Inr url" and "length (g_real_file h) = 200"
    and "g_real_file h ! 199 = NUL"
  shows "\<exists>f. length f = 200 \<and> f ! 199 = NUL \<and> get_do_request fs h = Inr
    (case f_stat fs (get_doc_root @ take 181 url) of
       None \<Rightarrow> (NO_RESOURCE, h\<lparr>g_real_file := f\<rparr>)
     | Some st \<Rightarrow>
         if st_mode st AND S_IROTH = 0 then (FORBIDDEN_REQUEST, h\<lparr>g_real_file := f, g_file_stat := Set st\<rparr>)
         else if S_ISDIR (st_mode st) then (BAD_REQUEST, h\<lparr>g_real_file := f, g_file_stat := Set st\<rparr>)
         else (FILE_REQUEST, h\<lparr>g_real_file := f, g_file_stat := Set st,
           g_file_address := Set (Some (f_mmap fs (get_doc_root @ take 181 url) (st_size st)))\<rparr>))"
proof -
  let ?root = get_doc_root and ?s = "take 181 url"
  let ?f = "?root @ ?s @ replicate (182 - length ?s) NUL"
  have nul: "NUL \<notin> set url" using cstr_NUL_free [OF assms(2)] .
  have path: "get_request_path h = Inr (h\<lparr>g_real_file := ?f\<rparr>)" by (rule get_path_text [OF assms])
  have "cstr ?f 0 = Inr (?root @ ?s)"
    using nul by (intro cstrI) (auto simp: nth_append length_get_doc_root get_doc_root_NUL min_def dest: in_set_takeD)
  then have "get_do_request fs h = Inr
    (case f_stat fs (?root @ ?s) of
       None \<Rightarrow> (NO_RESOURCE, h\<lparr>g_real_file := ?f\<rparr>)
     | Some st \<Rightarrow>
         if st_mode st AND S_IROTH = 0 then (FORBIDDEN_REQUEST, h\<lparr>g_real_file := ?f, g_file_stat := Set st\<rparr>)
         else if S_ISDIR (st_mode st) then (BAD_REQUEST, h\<lparr>g_real_file := ?f, g_file_stat := Set st\<rparr>)
         else (FILE_REQUEST, h\<lparr>g_real_file := ?f, g_file_stat := Set st,
           g_file_address := Set (Some (f_mmap fs (?root @ ?s) (st_size st)))\<rparr>))"
    unfolding get_do_request_def path by (simp add: Let_def split: option.split)
  moreover have "length ?f = 200" "?f ! 199 = NUL" by (auto simp: nth_append length_get_doc_root)
  ultimately show ?thesis by blast
qed


theorem get_serves_path_witness:
  "\<exists>f. get_do_request \<lparr>f_stat = (\<lambda>p. if p = get_doc_root @ ''/a'' then Some \<lparr>st_mode = 0x81A4, st_size = 3\<rparr> else None),
       f_mmap = (\<lambda>_ _. Mapping 1 ''abc'')\<rparr> (demo_get\<lparr>g_url := Some 1, g_read_buf := ''x/a'' @ [NUL]\<rparr>) =
     Inr (FILE_REQUEST, demo_get\<lparr>g_url := Some 1, g_read_buf := ''x/a'' @ [NUL], g_real_file := f,
       g_file_stat := Set \<lparr>st_mode = 0x81A4, st_size = 3\<rparr>, g_file_address := Set (Some (Mapping 1 ''abc''))\<rparr>)"
proof -
  let ?h = "demo_get\<lparr>g_url := Some 1, g_read_buf := ''x/a'' @ [NUL]\<rparr>"
  have "cstr (g_read_buf ?h) 1 = Inr ''/a''" by (simp add: cstr_def)
  moreover have "length (g_real_file ?h) = 200" "g_real_file ?h ! 199 = NUL"
    by (simp_all add: demo_get_def get_init_def FILENAME_LEN_def)
  ultimately show ?thesis
    using get_serves_path [of ?h 1 "''/a''" "\<lparr>f_stat = (\<lambda>p. if p = get_doc_root @ ''/a'' then Some \<lparr>st_mode = 0x81A4, st_size = 3\<rparr> else None),
       f_mmap = (\<lambda>_ _. Mapping 1 ''abc'')\<rparr>"]
    by (auto simp: S_IROTH_def S_ISDIR_def)
qed

section \<open>The reader\<close>

text \<open>C28: the two servers read alike. On the same members \<open>read\<close> and the line parser of this server give the results, the
  buffers and the faults of the other's, so what holds of those holds here.\<close>

theorem get_reader_same:
  "read_once sock (as_post h) = res_map (\<lambda>(r, h, sock). (r, as_post h, sock)) (get_read sock h) \<and>
   parse_line (as_post h) = res_map (\<lambda>(st, h). (st, as_post h)) (get_parse_line h)"
  by (simp add: read_once_def get_read_def get_read_loop_post get_parse_line_post)

section \<open>write\<close>

text \<open>The first round of \<open>write\<close> in which the socket takes bytes decides the response. When they are at least half the
  header's number the response ends there, with the bytes taken, however many of the file are missing; when they are fewer,
  \<open>write\<close> goes on and hands \<open>writev\<close> the same bytes again from the first one.\<close>

lemma get_write_first_round:
  assumes "get_iov_all h = Inr s" and "0 < g_write_idx h" and "g_file_address h = Set p" and "g_file_stat h = Set st"
  shows "\<exists>h2 w2. get_unmap h (emit (SentBytes (g_sockfd h) (take n s)) w) = Inr (h2, w2) \<and> g_file_address h2 = Set None \<and>
    get_write (Room n # sock) h w =
     (if g_write_idx h \<le> 2 * min n (length s)
      then Inr (g_linger h, if g_linger h then get_init h2 else h2, modfd (m_epollfd w2) (g_sockfd h) EPOLLIN w2)
      else get_write_loop sock (int (g_write_idx h) - int (min n (length s))) (int (min n (length s))) h
        (emit (SentBytes (g_sockfd h) (take n s)) w))"
proof -
  let ?w = "emit (SentBytes (g_sockfd h) (take n s)) w"
  obtain h2 w2 where u: "get_unmap h ?w = Inr (h2, w2)" "g_sockfd h2 = g_sockfd h" "g_linger h2 = g_linger h"
    "g_file_address h2 = Set None"
    using assms(3,4) by (cases p) (auto simp: get_unmap_def)
  have "int (g_write_idx h) - int (min (length s) n) \<le> int (min (length s) n) \<longleftrightarrow> g_write_idx h \<le> 2 * min n (length s)"
    by (auto simp: min.commute)
  with u show ?thesis
    using assms(1,2) by (auto simp: get_write_def Let_def min.commute)
qed

text \<open>The witness: of a header of 4 bytes and a file of 3 the socket takes 5, and the response is over.\<close>

definition demo_get_file :: get_conn where
  "demo_get_file = demo_get\<lparr>g_write_buf := ''1234'', g_write_idx := 4, g_iv0 := \<lparr>iov_base = WriteBuf 0, iov_len = 4\<rparr>,
     g_iv1 := \<lparr>iov_base = FileAt (Some (Mapping 1 ''abc'')) 0, iov_len = 3\<rparr>, g_iv_count := 2,
     g_file_address := Set (Some (Mapping 1 ''abc'')), g_file_stat := Set \<lparr>st_mode = 0x81A4, st_size = 3\<rparr>\<rparr>"

lemma get_write_first_round_witness:
  "\<exists>h2 w2. get_write [Room 5, Room 9] demo_get_file demo_world = Inr (False, h2, w2) \<and>
     trace w2 = [SentBytes 9 ''1234a'', Munmap (Mapping 1 ''abc'') 3]"
proof -
  have "get_iov_all demo_get_file = Inr ''1234abc''"
    by (simp add: get_iov_all_def iov_all_def iov_bytes_def slice_def as_post_def demo_get_file_def)
  moreover have "g_sockfd demo_get_file = 9" "\<not> g_linger demo_get_file" "g_write_idx demo_get_file = 4"
    "g_file_address demo_get_file = Set (Some (Mapping 1 ''abc''))"
    "g_file_stat demo_get_file = Set \<lparr>st_mode = 0x81A4, st_size = 3\<rparr>"
    by (simp_all add: demo_get_file_def demo_get_def get_init_def)
  ultimately show ?thesis
    using get_write_first_round [of demo_get_file "''1234abc''" "Some (Mapping 1 ''abc'')" _ 5 demo_world "[Room 9]"]
    by (auto simp: get_unmap_def emit_def modfd_def epoll_ctl_mod_def demo_world_def)
qed

end
