(* ===== verification/GetServer.thy ===== *)
theory GetServer
  imports GetReply EventLoopRun Signals
begin

text \<open>
  The GET-only server, \<open>GET-WebServer/src/main.cpp\<close>: its loop without timers, and its workers. The pool of threads
  (\<open>GET-WebServer/inc/threadpool.h\<close>) is the one of \<open>ThreadPool\<close> without the connection to the database, the array
  of connections and the bound \<open>MAX_FD\<close> those of \<open>EventLoop\<close>.
\<close>

section \<open>The pool\<close>

text \<open>The constructor with its default arguments.\<close>

definition get_threadpool :: "(nat \<Rightarrow> int) \<Rightarrow> (nat \<Rightarrow> int) \<Rightarrow> nat \<times> nat threadpool res" where
  "get_threadpool create detach = threadpool_new create detach 8 10000"

definition get_append :: "nat \<Rightarrow> nat threadpool \<Rightarrow> (bool \<times> nat threadpool) res" where
  "get_append request T = append_request (Some request) T"

section \<open>The server\<close>

record 'd get_server =
  g_users :: "nat \<Rightarrow> get_conn"
  g_pool :: "nat threadpool"
  g_listenfd :: int
  g_world :: "'d world"

definition get_show_error :: "int \<Rightarrow> string \<Rightarrow> 'd world \<Rightarrow> 'd world" where
  "get_show_error connfd info w = emit (CloseFd connfd) (emit (SentBytes connfd info) (emit (Printed info) w))"

text \<open>What one \<open>accept\<close> returns: an error number, or a descriptor and the address of the client.\<close>

type_synonym get_accepted = "int + (int \<times> nat)"

definition get_on_accept :: "get_accepted \<Rightarrow> 'd get_server \<Rightarrow> 'd get_server res" where
  "get_on_accept r S =
     (case r of
        Inl errno \<Rightarrow> Inr (S\<lparr>g_world := emit (Printed (''errno is: '' @ show_int errno @ [LF])) (g_world S)\<rparr>)
      | Inr (connfd, addr) \<Rightarrow>
          (if m_user_count (g_world S) \<ge> int MAX_FD
           then Inr (S\<lparr>g_world := get_show_error connfd ''Internal server busy'' (g_world S)\<rparr>)
           else andThen (slot connfd) (\<lambda>i.
                  let (h, w) = get_init_conn connfd addr (g_users S i) (g_world S)
                  in Inr (S\<lparr>g_users := (g_users S)(i := h), g_world := w\<rparr>))))"

definition get_close :: "nat \<Rightarrow> 'd get_server \<Rightarrow> 'd get_server" where
  "get_close i S =
     (let (h, w) = get_close_conn True (g_users S i) (g_world S)
      in S\<lparr>g_users := (g_users S)(i := h), g_world := w\<rparr>)"

text \<open>The result of \<open>append\<close> is not looked at.\<close>

definition get_on_readable :: "int \<Rightarrow> recv_result list \<Rightarrow> 'd get_server \<Rightarrow> 'd get_server res" where
  "get_on_readable sockfd sock S =
     andThen (slot sockfd) (\<lambda>i.
     andThen (get_read sock (g_users S i)) (\<lambda>(r, h, _).
       let S = S\<lparr>g_users := (g_users S)(i := h)\<rparr> in
       if r then andThen (get_append i (g_pool S)) (\<lambda>(_, T). Inr (S\<lparr>g_pool := T\<rparr>))
       else Inr (get_close i S)))"

definition get_on_writable :: "int \<Rightarrow> writev_result list \<Rightarrow> 'd get_server \<Rightarrow> 'd get_server res" where
  "get_on_writable sockfd sock S =
     andThen (slot sockfd) (\<lambda>i.
     andThen (get_write sock (g_users S i) (g_world S)) (\<lambda>(r, h, w).
       let S = S\<lparr>g_users := (g_users S)(i := h), g_world := w\<rparr> in
       if \<not> r then Inr (get_close i S) else Inr S))"

record get_event =
  ge_fd :: int
  ge_mask :: "32 word"
  ge_accept :: get_accepted
  ge_recv :: "recv_result list"
  ge_send :: "writev_result list"

definition get_handle_event :: "get_event \<Rightarrow> 'd get_server \<Rightarrow> 'd get_server res" where
  "get_handle_event e S =
     (if ge_fd e = g_listenfd S then get_on_accept (ge_accept e) S
      else if ge_mask e AND (EPOLLRDHUP OR EPOLLHUP OR EPOLLERR) \<noteq> 0 then
        andThen (slot (ge_fd e)) (\<lambda>i. Inr (get_close i S))
      else if ge_mask e AND EPOLLIN \<noteq> 0 then get_on_readable (ge_fd e) (ge_recv e) S
      else if ge_mask e AND EPOLLOUT \<noteq> 0 then get_on_writable (ge_fd e) (ge_send e) S
      else Inr (S\<lparr>g_world := emit (Printed (''something else happened'' @ [LF])) (g_world S)\<rparr>))"

fun get_handle_events :: "get_event list \<Rightarrow> 'd get_server \<Rightarrow> 'd get_server res" where
  "get_handle_events [] S = Inr S"
| "get_handle_events (e # es) S = andThen (get_handle_event e S) (get_handle_events es)"

text \<open>What \<open>epoll_wait\<close> returns: events, or an error number; \<open>EINTR\<close> is 4.\<close>

fun get_main_loop :: "(get_event list + int) list \<Rightarrow> 'd get_server \<Rightarrow> 'd get_server res" where
  "get_main_loop [] S = Inr S"
| "get_main_loop (Inl es # rs) S = andThen (get_handle_events es S) (get_main_loop rs)"
| "get_main_loop (Inr errno # rs) S =
     (if errno \<noteq> 4 then Inr (S\<lparr>g_world := emit (Printed (''epoll failure'' @ [LF])) (g_world S)\<rparr>)
      else get_main_loop rs S)"

text \<open>The event table before the loop.\<close>

definition get_server_start :: "int \<Rightarrow> int \<Rightarrow> (nat \<Rightarrow> get_conn) \<Rightarrow> nat threadpool \<Rightarrow> 'd world \<Rightarrow> 'd get_server" where
  "get_server_start epollfd lfd conn_array T w =
     \<lparr>g_users = conn_array, g_pool = T, g_listenfd = lfd, g_world = (addfd epollfd lfd False w)\<lparr>m_epollfd := epollfd\<rparr>\<rparr>"

text \<open>\<open>main\<close> before its loop, with what the system answers: \<open>None\<close> is its early return.\<close>

record get_boot =
  gb_sigaction :: "int \<Rightarrow> bool"
  gb_create :: "nat \<Rightarrow> int"
  gb_detach :: "nat \<Rightarrow> int"
  gb_socket :: int
  gb_bind :: int
  gb_listen :: int
  gb_epoll :: int

definition get_main_start :: "get_boot \<Rightarrow> (nat \<Rightarrow> get_conn) \<Rightarrow> 'd world \<Rightarrow> sigactions \<Rightarrow> ('d get_server option \<times> sigactions) res" where
  "get_main_start B conn_array w sa =
     andThen (addsig (gb_sigaction B 13) 13 Ignored True sa) (\<lambda>sa.
     case get_threadpool (gb_create B) (gb_detach B) of
       (_, Inl _) \<Rightarrow> Inr (None, sa)
     | (_, Inr T) \<Rightarrow>
         andThen (check (gb_socket B \<ge> 0)) (\<lambda>_.
         andThen (check (gb_bind B \<ge> 0)) (\<lambda>_.
         andThen (check (gb_listen B \<ge> 0)) (\<lambda>_.
         andThen (check (gb_epoll B \<noteq> -1)) (\<lambda>_.
           Inr (Some (get_server_start (gb_epoll B) (gb_socket B) conn_array T w), sa))))))"

text \<open>A round of \<open>run\<close> behind the semaphore: the first request of the queue is processed.\<close>

definition get_serve :: "files \<Rightarrow> 'd get_server \<Rightarrow> 'd get_server res" where
  "get_serve fs S =
     andThen (run_take (g_pool S)) (\<lambda>(r, T).
       let S = S\<lparr>g_pool := T\<rparr> in
       case r of
         None \<Rightarrow> Inr S
       | Some None \<Rightarrow> Inr S
       | Some (Some i) \<Rightarrow>
           andThen (get_process fs (g_users S i) (g_world S)) (\<lambda>(h, w).
             Inr (S\<lparr>g_users := (g_users S)(i := h), g_world := w\<rparr>)))"


section \<open>What an operation does to its connection\<close>

text \<open>It keeps the socket, or closes it and counts that.\<close>

definition conn_effect :: "get_conn \<Rightarrow> 'd world \<Rightarrow> get_conn \<Rightarrow> 'd world \<Rightarrow> bool" where
  "conn_effect h w h' w' \<longleftrightarrow>
     (if g_sockfd h' = g_sockfd h then registered w' = registered w \<and> m_user_count w' = m_user_count w
      else g_sockfd h' = -1 \<and> registered w' = registered w - {g_sockfd h} \<and> m_user_count w' = m_user_count w - 1)"

lemma conn_effect_trans: "conn_effect h w h1 w1 \<Longrightarrow> conn_effect h1 w1 h2 w2 \<Longrightarrow> conn_effect h w h2 w2"
  by (auto simp: conn_effect_def split: if_splits)

lemma conn_effect_kept:
  "g_sockfd h' = g_sockfd h \<Longrightarrow> table_kept w w' \<Longrightarrow> conn_effect h w h' w'"
  by (simp add: conn_effect_def table_kept_registered)

lemma conn_effect_modfd [simp]: "conn_effect h w h' (modfd k fd ev w') = conn_effect h w h' w'"
  by (simp add: conn_effect_def)

lemma conn_effect_emit [simp]: "conn_effect h w h' (emit e w') = conn_effect h w h' w'"
  "conn_effect h (emit e w) h' w' = conn_effect h w h' w'"
  by (simp_all add: conn_effect_def)

lemma conn_effect_refl [simp]: "conn_effect h w h w"
  by (simp add: conn_effect_def)

lemma get_close_conn_effect: "get_close_conn True h w = (h', w') \<Longrightarrow> conn_effect h w h' w'"
  by (auto simp: get_close_conn_def close_parts conn_effect_def removefd_def Let_def split: if_splits)

lemma get_parse_line_fd: "get_parse_line h = Inr (st, h') \<Longrightarrow> g_sockfd h' = g_sockfd h"
  using get_parse_line_post [of h] parse_line_fd [of "as_post h" st "as_post h'"] by simp

lemma get_read_loop_fd: "get_read_loop sock h = Inr (r, h', sock') \<Longrightarrow> g_sockfd h' = g_sockfd h"
proof (induction sock h rule: get_read_loop.induct)
  case (1 sock h)
  show ?case
  proof (cases "\<exists>c s sock1. recv (READ_BUFFER_SIZE - g_read_idx h) sock = (Data (c # s), sock1)")
    case True
    then obtain c s sock1 where r: "recv (READ_BUFFER_SIZE - g_read_idx h) sock = (Data (c # s), sock1)" by blast
    with "1.prems" obtain b where b: "put (g_read_buf h) (g_read_idx h) (c # s) = Inr b"
      "get_read_loop sock1 (h\<lparr>g_read_buf := b, g_read_idx := g_read_idx h + length (c # s)\<rparr>) = Inr (r, h', sock')"
      by (subst (asm) get_read_loop.simps) auto
    from "1.IH" [OF r [symmetric] refl refl b] show ?thesis by simp
  next
    case False
    then show ?thesis using "1.prems"
      by (subst (asm) get_read_loop.simps) (auto split: prod.splits recv_result.splits list.splits)
  qed
qed

lemma get_read_fd: "get_read sock h = Inr (r, h', sock') \<Longrightarrow> g_sockfd h' = g_sockfd h"
  by (auto simp: get_read_def get_read_loop_fd split: if_splits)

lemma get_parse_headers_post:
  "post (\<lambda>(c, h', w'). g_sockfd h' = g_sockfd h \<and> table_kept w w') (get_parse_headers p h w)"
  unfolding get_parse_headers_def by (intro post_if post_andThen) simp_all

lemma get_parse_headers_fd:
  "get_parse_headers p h w = Inr (c, h', w') \<Longrightarrow> g_sockfd h' = g_sockfd h \<and> table_kept w w'"
  using postD [OF get_parse_headers_post, of p h w "(c, h', w')"] by simp

lemma get_request_path_post: "post (\<lambda>h'. g_sockfd h' = g_sockfd h) (get_request_path h)"
  unfolding get_request_path_def Let_def by (intro post_andThen) simp

lemma get_do_request_post: "post (\<lambda>(c, h'). g_sockfd h' = g_sockfd h) (get_do_request fs h)"
  unfolding get_do_request_def Let_def
  by (intro post_andThen) (auto dest!: postD [OF get_request_path_post] split: option.split)

lemma get_do_request_fd: "get_do_request fs h = Inr (c, h') \<Longrightarrow> g_sockfd h' = g_sockfd h"
  using postD [OF get_do_request_post, of fs h "(c, h')"] by simp

lemma get_loop_body_fd:
  "get_loop_body fs st h w = Inr (r, st', h', w') \<Longrightarrow> g_sockfd h' = g_sockfd h \<and> table_kept w w'"
  by (cases "g_check_state h")
    (auto simp: get_loop_body_def Let_def split: if_splits
      dest!: get_parse_request_line_idx get_parse_headers_fd get_parse_content_idx get_do_request_fd)

lemma get_loop_cond_fd: "get_loop_cond st h = Inr (go, st', h') \<Longrightarrow> g_sockfd h' = g_sockfd h"
  by (auto simp: get_loop_cond_def dest!: get_parse_line_fd split: if_splits)


lemma get_process_read_loop_fd:
  "get_process_read_loop fs st h w = Inr (c, h', w') \<Longrightarrow> g_sockfd h' = g_sockfd h \<and> table_kept w w'"
proof (induction fs st h w rule: get_process_read_loop.induct)
  case (1 fs st h w)
  from "1.prems" obtain go st1 h1 where c: "get_loop_cond st h = Inr (go, st1, h1)"
    by (subst (asm) get_process_read_loop.simps) auto
  note fd1 = get_loop_cond_fd [OF c]
  show ?case
  proof (cases go)
    case False
    with "1.prems" c fd1 show ?thesis by (subst (asm) get_process_read_loop.simps) simp
  next
    case True
    with "1.prems" c obtain r st2 h2 w2 where b: "get_loop_body fs st1 h1 w = Inr (r, st2, h2, w2)"
      by (subst (asm) get_process_read_loop.simps) auto
    note fd2 = get_loop_body_fd [OF b]
    show ?thesis
    proof (cases r)
      case None
      with "1.prems" c True b have "get_process_read_loop fs st2 h2 w2 = Inr (c, h', w')"
        by (subst (asm) get_process_read_loop.simps) simp
      from "1.IH" [OF c refl refl _ b refl refl refl None this] True fd1 fd2 show ?thesis
        by (auto intro: table_kept_trans)
    next
      case (Some d)
      with "1.prems" c True b have "h' = h2" "w' = w2"
        by (subst (asm) get_process_read_loop.simps, simp)+
      with fd1 fd2 show ?thesis by simp
    qed
  qed
qed

lemma get_add_response_post: "post (\<lambda>(b, h'). g_sockfd h' = g_sockfd h) (get_add_response s h)"
  unfolding get_add_response_def Let_def by (intro post_if post_andThen) (simp_all add: split_beta post_if)

lemma get_add_response_fd: "get_add_response s h = Inr (b, h') \<Longrightarrow> g_sockfd h' = g_sockfd h"
  using postD [OF get_add_response_post, of s h "(b, h')"] by simp

lemma get_add_headers_fd: "get_add_headers n h = Inr h' \<Longrightarrow> g_sockfd h' = g_sockfd h"
  by (auto simp: get_add_headers_def get_add_content_length_def get_add_linger_def get_add_blank_line_def
      dest!: get_add_response_fd)

lemma get_process_write_fd: "get_process_write ret h = Inr (b, h') \<Longrightarrow> g_sockfd h' = g_sockfd h"
  by (cases ret)
    (auto simp: get_process_write_def get_error_response_def get_file_response_def get_add_status_line_def
      get_add_content_def get_send_buffer_def Let_def dest!: get_add_response_fd get_add_headers_fd split: if_splits)

text \<open>\<open>process\<close> and \<open>write\<close>.\<close>

lemma get_process_effect:
  assumes "get_process fs h w = Inr (h', w')"
  shows "conn_effect h w h' w'"
proof -
  from assms obtain c h1 w1 where r: "get_process_read fs h w = Inr (c, h1, w1)" by (auto simp: get_process_def)
  then have e1: "conn_effect h w h1 w1"
    by (auto simp: get_process_read_def dest!: get_process_read_loop_fd intro: conn_effect_kept)
  show ?thesis
  proof (cases "c = NO_REQUEST")
    case True
    with assms r e1 show ?thesis by (auto simp: get_process_def)
  next
    case False
    with assms r obtain b h2 where p: "get_process_write c h1 = Inr (b, h2)" by (auto simp: get_process_def)
    have "conn_effect h1 w1 h2 w1" using get_process_write_fd [OF p] by (intro conn_effect_kept) simp_all
    with e1 have e2: "conn_effect h w h2 w1" by (rule conn_effect_trans)
    obtain h3 w3 where cl: "(if \<not> b then get_close_conn True h2 w1 else (h2, w1)) = (h3, w3)" by fastforce
    then have "conn_effect h2 w1 h3 w3" by (auto split: if_splits dest: get_close_conn_effect)
    with e2 have "conn_effect h w h3 w3" by (rule conn_effect_trans)
    moreover have "h' = h3" "w' = modfd (m_epollfd w3) (g_sockfd h3) EPOLLOUT w3"
      using assms r False p cl by (auto simp: get_process_def)
    ultimately show ?thesis by simp
  qed
qed

lemma get_unmap_kept: "get_unmap h w = Inr (h', w') \<Longrightarrow> g_sockfd h' = g_sockfd h \<and> table_kept w w'"
  by (auto simp: get_unmap_def split: option.splits)

lemma get_init_fd [simp]: "g_sockfd (get_init h) = g_sockfd h"
  by (simp add: get_init_def)

lemma conn_effect_init [simp]: "conn_effect h w (get_init h') w' = conn_effect h w h' w'"
  by (simp add: conn_effect_def)

lemma get_write_loop_effect:
  "get_write_loop sock a b h w = Inr (r, h', w') \<Longrightarrow> conn_effect h w h' w'"
proof (induction sock a b h w rule: get_write_loop.induct)
  case (4 n sock a b h w)
  from "4.prems" obtain s where s: "get_iov_all h = Inr s" by auto
  let ?w = "emit (SentBytes (g_sockfd h) (take n s)) w"
  let ?t = "int (length (take n s))"
  show ?case
  proof (cases "a - ?t \<le> b + ?t")
    case True
    with "4.prems" s obtain h1 w1 where u: "get_unmap h ?w = Inr (h1, w1)" by (auto simp: Let_def)
    from get_unmap_kept [OF u] have "conn_effect h ?w h1 w1" by (intro conn_effect_kept) simp_all
    moreover have "(h' = h1 \<or> h' = get_init h1) \<and> w' = modfd (m_epollfd w1) (g_sockfd h1) EPOLLIN w1"
      using "4.prems" s True u by (auto simp: Let_def split: if_splits)
    ultimately show ?thesis by auto
  next
    case False
    with "4.prems" s have "get_write_loop sock (a - ?t) (b + ?t) h ?w = Inr (r, h', w')" by (simp add: Let_def)
    from "4.IH" [OF s refl refl refl refl False this] show ?thesis by simp
  qed
next
  case (3 sock a b h w)
  then show ?case by (auto dest!: get_unmap_kept intro: conn_effect_kept)
qed auto

lemma get_write_effect: "get_write sock h w = Inr (r, h', w') \<Longrightarrow> conn_effect h w h' w'"
  by (auto simp: get_write_def dest: get_write_loop_effect intro: conn_effect_kept split: if_splits)


section \<open>The books\<close>

text \<open>Every registered descriptor but the listening one is the socket of its connection; a request in the queue belongs to
  a connection that is open or closed, not to one that was never set up; the count is that of the open connections.\<close>

definition get_ok :: "'d get_server \<Rightarrow> bool" where
  "get_ok S \<longleftrightarrow>
     finite (registered (g_world S)) \<and> g_listenfd S \<in> registered (g_world S) \<and>
     (\<forall>fd \<in> registered (g_world S) - {g_listenfd S}. 0 \<le> fd \<and> fd < int MAX_FD \<and> g_sockfd (g_users S (nat fd)) = fd) \<and>
     (\<forall>i. Some i \<in> set (m_workqueue (g_pool S)) \<longrightarrow>
        g_sockfd (g_users S i) = -1 \<or> g_sockfd (g_users S i) = int i \<and> int i \<in> registered (g_world S) - {g_listenfd S}) \<and>
     m_user_count (g_world S) = int (card (registered (g_world S) - {g_listenfd S}))"

text \<open>A connection is in use: open, or closed already.\<close>

definition conn_used :: "nat \<Rightarrow> 'd get_server \<Rightarrow> bool" where
  "conn_used i S \<longleftrightarrow>
     g_sockfd (g_users S i) = -1 \<or> g_sockfd (g_users S i) = int i \<and> int i \<in> registered (g_world S) - {g_listenfd S}"

lemma get_ok_effect:
  assumes "get_ok S" and "conn_used i S" and "conn_effect (g_users S i) (g_world S) h w"
  shows "get_ok (S\<lparr>g_users := (g_users S)(i := h), g_world := w\<rparr>)"
proof (cases "g_sockfd h = g_sockfd (g_users S i)")
  case True
  with assms(3) have "registered w = registered (g_world S)" "m_user_count w = m_user_count (g_world S)"
    by (simp_all add: conn_effect_def)
  with True assms(1) show ?thesis by (auto simp: get_ok_def)
next
  case False
  with assms(3) have h: "g_sockfd h = -1" "registered w = registered (g_world S) - {g_sockfd (g_users S i)}"
    "m_user_count w = m_user_count (g_world S) - 1" by (auto simp: conn_effect_def)
  with False assms(2) have i: "g_sockfd (g_users S i) = int i" "int i \<in> registered (g_world S) - {g_listenfd S}"
    by (auto simp: conn_used_def)
  have d: "registered w - {g_listenfd S} = (registered (g_world S) - {g_listenfd S}) - {int i}" using h(2) i(1) by auto
  have "finite (registered (g_world S) - {g_listenfd S})" using assms(1) by (simp add: get_ok_def)
  then have c: "int (card (registered w - {g_listenfd S})) = int (card (registered (g_world S) - {g_listenfd S})) - 1"
    unfolding d using i(2) card_gt_0_iff [of "registered (g_world S) - {g_listenfd S}"]
    by (subst card_Diff_singleton) (auto simp: of_nat_diff Suc_le_eq)
  show ?thesis using assms(1) h i c by (auto simp: get_ok_def)
qed

lemma conn_used_open:
  "get_ok S \<Longrightarrow> fd \<in> registered (g_world S) - {g_listenfd S} \<Longrightarrow>
     slot fd = Inr (nat fd) \<and> conn_used (nat fd) S \<and> g_sockfd (g_users S (nat fd)) = fd \<and> int (nat fd) = fd"
  by (auto simp: get_ok_def conn_used_def slot_def)

lemma get_close_ok: "get_ok S \<Longrightarrow> conn_used i S \<Longrightarrow> get_ok (get_close i S)"
  by (cases "get_close_conn True (g_users S i) (g_world S)")
    (auto simp: get_close_def dest: get_close_conn_effect intro: get_ok_effect)

lemma get_append_queue:
  "get_append i T = Inr (b, T') \<Longrightarrow> set (m_workqueue T') \<subseteq> insert (Some i) (set (m_workqueue T))"
  by (cases "m_queuelocker T") (auto simp: get_append_def append_request_def append_put_def append_post_def split: if_splits)

lemma get_ok_pool:
  "get_ok S \<Longrightarrow> conn_used i S \<Longrightarrow> set (m_workqueue T) \<subseteq> insert (Some i) (set (m_workqueue (g_pool S))) \<Longrightarrow>
     get_ok (S\<lparr>g_pool := T\<rparr>)"
  by (auto simp: get_ok_def conn_used_def)

lemma get_on_readable_ok:
  assumes "get_ok S" and "fd \<in> registered (g_world S) - {g_listenfd S}" and "get_on_readable fd sock S = Inr S'"
  shows "get_ok S'"
proof -
  note i = conn_used_open [OF assms(1,2)]
  from assms(3) i obtain r h sock' where r: "get_read sock (g_users S (nat fd)) = Inr (r, h, sock')"
    by (auto simp: get_on_readable_def)
  let ?S = "S\<lparr>g_users := (g_users S)(nat fd := h), g_world := g_world S\<rparr>"
  have S: "S\<lparr>g_users := (g_users S)(nat fd := h)\<rparr> = ?S" by (cases S) simp
  have fd: "g_sockfd h = g_sockfd (g_users S (nat fd))" using get_read_fd [OF r] .
  then have "conn_effect (g_users S (nat fd)) (g_world S) h (g_world S)" by (simp add: conn_effect_def)
  then have ok: "get_ok ?S" using assms(1) i by (intro get_ok_effect) auto
  moreover have u: "conn_used (nat fd) ?S" using fd i by (auto simp: conn_used_def)
  ultimately show ?thesis
  proof (cases r)
    case True
    with assms(3) i r S obtain b T where t: "get_append (nat fd) (g_pool S) = Inr (b, T)" "S' = ?S\<lparr>g_pool := T\<rparr>"
      by (auto simp: get_on_readable_def Let_def)
    from get_append_queue [OF t(1)] show ?thesis unfolding t(2) by (intro get_ok_pool [OF ok u]) simp
  next
    case False
    with assms(3) i r S have "S' = get_close (nat fd) ?S" by (auto simp: get_on_readable_def Let_def)
    with get_close_ok [OF ok u] show ?thesis by simp
  qed
qed

lemma get_on_writable_ok:
  assumes "get_ok S" and "fd \<in> registered (g_world S) - {g_listenfd S}" and "get_on_writable fd sock S = Inr S'"
  shows "get_ok S'"
proof -
  note i = conn_used_open [OF assms(1,2)]
  from assms(3) i obtain r h w where r: "get_write sock (g_users S (nat fd)) (g_world S) = Inr (r, h, w)"
    by (auto simp: get_on_writable_def)
  let ?S = "S\<lparr>g_users := (g_users S)(nat fd := h), g_world := w\<rparr>"
  note e = get_write_effect [OF r]
  have ok: "get_ok ?S" using assms(1) i e by (intro get_ok_effect) auto
  moreover have "conn_used (nat fd) ?S"
    using e i assms(2) by (auto simp: conn_used_def conn_effect_def split: if_splits)
  ultimately show ?thesis
    using assms(3) i r by (auto simp: get_on_writable_def Let_def split: if_splits intro: get_close_ok)
qed


lemma get_init_conn_effect:
  assumes "get_init_conn fd a h0 w0 = (h, w)" and "fd \<notin> registered w0"
  shows "g_sockfd h = fd" "registered w = insert fd (registered w0)" "m_user_count w = m_user_count w0 + 1"
  using assms by (auto simp: get_init_conn_def addfd_def setnonblocking_def epoll_ctl_add_def registered_def Let_def dom_def)

lemma get_ok_new:
  assumes "get_ok S" and "fd \<notin> registered (g_world S)" and "0 \<le> fd" "fd < int MAX_FD"
    and "g_sockfd h = fd" "registered w = insert fd (registered (g_world S))" "m_user_count w = m_user_count (g_world S) + 1"
  shows "get_ok (S\<lparr>g_users := (g_users S)(nat fd := h), g_world := w\<rparr>)"
proof -
  have "fd \<noteq> g_listenfd S" using assms(1,2) by (auto simp: get_ok_def)
  then have d: "registered w - {g_listenfd S} = insert fd (registered (g_world S) - {g_listenfd S})" using assms(6) by auto
  have "finite (registered (g_world S) - {g_listenfd S})" using assms(1) by (simp add: get_ok_def)
  then have c: "card (registered w - {g_listenfd S}) = Suc (card (registered (g_world S) - {g_listenfd S}))"
    unfolding d using assms(2) by simp
  have o: "0 \<le> f \<and> f < int MAX_FD \<and> g_sockfd (((g_users S)(nat fd := h)) (nat f)) = f"
    if "f \<in> registered w - {g_listenfd S}" for f
  proof (cases "f = fd")
    case True
    with assms(3-5) show ?thesis by simp
  next
    case False
    with that d have "f \<in> registered (g_world S) - {g_listenfd S}" by blast
    with assms(1) have f: "0 \<le> f" "f < int MAX_FD" "g_sockfd (g_users S (nat f)) = f" by (simp_all add: get_ok_def)
    moreover have "nat f \<noteq> nat fd" using False f(1) assms(3) by simp
    ultimately show ?thesis by simp
  qed
  have u: "g_sockfd (((g_users S)(nat fd := h)) i) = -1 \<or>
      g_sockfd (((g_users S)(nat fd := h)) i) = int i \<and> int i \<in> registered w - {g_listenfd S}"
    if "Some i \<in> set (m_workqueue (g_pool S))" for i
  proof -
    have "g_sockfd (g_users S i) = -1 \<or> g_sockfd (g_users S i) = int i \<and> int i \<in> registered (g_world S) - {g_listenfd S}"
      using assms(1) that unfolding get_ok_def by blast
    then show ?thesis using d assms(3,5) by (cases "i = nat fd") auto
  qed
  have "finite (registered w)" "g_listenfd S \<in> registered w" using assms(1,6) by (simp_all add: get_ok_def)
  with o u c assms(1,7) show ?thesis by (simp add: get_ok_def)
qed

lemma get_on_accept_ok:
  assumes "get_ok S" and "\<forall>fd a. r = Inr (fd, a) \<longrightarrow> fd \<notin> registered (g_world S)" and "get_on_accept r S = Inr S'"
  shows "get_ok S'"
proof (cases r)
  case (Inl errno)
  with assms(1,3) show ?thesis by (auto simp: get_on_accept_def get_ok_def)
next
  case (Inr p)
  obtain fd a where p: "p = (fd, a)" by (cases p)
  show ?thesis
  proof (cases "m_user_count (g_world S) \<ge> int MAX_FD")
    case True
    with assms Inr p show ?thesis by (auto simp: get_on_accept_def get_show_error_def get_ok_def)
  next
    case False
    have new: "fd \<notin> registered (g_world S)" using assms(2) Inr p by blast
    have fd: "0 \<le> fd" "fd < int MAX_FD"
      using assms(3) Inr p False by (auto simp: get_on_accept_def slot_def split: if_splits)
    obtain h w where h: "get_init_conn fd a (g_users S (nat fd)) (g_world S) = (h, w)" by fastforce
    then have "S' = S\<lparr>g_users := (g_users S)(nat fd := h), g_world := w\<rparr>"
      using assms(3) Inr p False fd by (simp add: get_on_accept_def slot_def)
    with get_ok_new [OF assms(1) new fd get_init_conn_effect [OF h new]] show ?thesis by simp
  qed
qed

lemma get_serve_ok:
  assumes "get_ok S" and "get_serve fs S = Inr S'"
  shows "get_ok S'"
proof -
  from assms(2) obtain r T where t: "run_take (g_pool S) = Inr (r, T)" by (auto simp: get_serve_def)
  then have q: "set (m_workqueue T) \<subseteq> set (m_workqueue (g_pool S))" "\<And>i. r = Some (Some i) \<Longrightarrow> Some i \<in> set (m_workqueue (g_pool S))"
    by (cases "m_queuelocker (g_pool S)"; auto simp: run_take_def split: list.splits)+
  have ok: "get_ok (S\<lparr>g_pool := T\<rparr>)" using assms(1) q(1) by (auto simp: get_ok_def)
  show ?thesis
  proof (cases "\<exists>i. r = Some (Some i)")
    case True
    then obtain i where i: "r = Some (Some i)" ..
    with assms(2) t obtain h w where p: "get_process fs (g_users S i) (g_world S) = Inr (h, w)"
      "S' = (S\<lparr>g_pool := T\<rparr>)\<lparr>g_users := (g_users S)(i := h), g_world := w\<rparr>" by (auto simp: get_serve_def)
    have "conn_used i (S\<lparr>g_pool := T\<rparr>)" using assms(1) q(2) [OF i] by (auto simp: get_ok_def conn_used_def)
    from get_ok_effect [OF ok this] get_process_effect [OF p(1)] p(2) show ?thesis by simp
  next
    case False
    with assms(2) t ok show ?thesis by (cases r) (auto simp: get_serve_def Let_def split: option.splits)
  qed
qed

section \<open>Steps\<close>

text \<open>What the kernel promises: events come for registered descriptors, and \<open>accept\<close> returns descriptors that are not open.\<close>

definition get_event_ok :: "get_event \<Rightarrow> 'd get_server \<Rightarrow> bool" where
  "get_event_ok e S \<longleftrightarrow> ge_fd e \<in> registered (g_world S) \<and>
     (case ge_accept e of Inl _ \<Rightarrow> True | Inr (fd, _) \<Rightarrow> fd \<notin> registered (g_world S))"

inductive get_step :: "'d get_server \<Rightarrow> 'd get_server \<Rightarrow> bool" where
  event: "\<lbrakk>get_event_ok e S; get_handle_event e S = Inr S'\<rbrakk> \<Longrightarrow> get_step S S'"
| worker: "get_serve fs S = Inr S' \<Longrightarrow> get_step S S'"

inductive get_reach :: "'d get_server \<Rightarrow> 'd get_server \<Rightarrow> bool" for S0 where
  start: "get_reach S0 S0"
| step: "get_reach S0 S \<Longrightarrow> get_step S S' \<Longrightarrow> get_reach S0 S'"

inductive_cases get_stepE: "get_step S S'"

lemma get_handle_event_ok:
  assumes "get_ok S" and "get_event_ok e S" and "get_handle_event e S = Inr S'"
  shows "get_ok S'"
proof (cases "ge_fd e = g_listenfd S")
  case True
  with assms show ?thesis
    by (intro get_on_accept_ok [OF assms(1), of "ge_accept e"]) (auto simp: get_handle_event_def get_event_ok_def)
next
  case False
  with assms(2) have fd: "ge_fd e \<in> registered (g_world S) - {g_listenfd S}" by (simp add: get_event_ok_def)
  have em: "get_ok (S\<lparr>g_world := emit x (g_world S)\<rparr>)" for x using assms(1) by (simp add: get_ok_def)
  show ?thesis
    using assms(3) False conn_used_open [OF assms(1) fd] get_on_readable_ok [OF assms(1) fd] get_on_writable_ok [OF assms(1) fd] em
    by (auto simp: get_handle_event_def split: if_splits intro: get_close_ok [OF assms(1)])
qed

lemma get_reach_ok: "get_reach S0 S \<Longrightarrow> get_ok S0 \<Longrightarrow> get_ok S"
  by (induction rule: get_reach.induct) (auto elim!: get_stepE intro: get_handle_event_ok get_serve_ok)

lemma get_start_ok:
  assumes "epoll w epollfd = Map.empty" and "m_user_count w = 0" and "m_workqueue T = []"
  shows "get_ok (get_server_start epollfd lfd conn_array T w)"
proof -
  have "registered ((addfd epollfd lfd False w)\<lparr>m_epollfd := epollfd\<rparr>) = {lfd}"
    using assms(1) by (auto simp: registered_def addfd_def setnonblocking_def epoll_ctl_add_def Let_def)
  moreover have "m_user_count (addfd epollfd lfd False w) = 0"
    using assms(2) by (simp add: addfd_def setnonblocking_def epoll_ctl_add_def Let_def)
  ultimately show ?thesis using assms(3) by (simp add: get_ok_def get_server_start_def)
qed


lemma get_main_start_ok:
  assumes "get_main_start B conn_array w sa = Inr (Some S, sa')" and "epoll w (gb_epoll B) = Map.empty" and "m_user_count w = 0"
  shows "get_ok S \<and> g_listenfd S = gb_socket B \<and> sa' 13 = (Ignored, True)"
proof -
  obtain k T where T: "get_threadpool (gb_create B) (gb_detach B) = (k, Inr T)"
    "S = get_server_start (gb_epoll B) (gb_socket B) conn_array T w" "sa' = sa(13 := (Ignored, True))"
  proof (cases "get_threadpool (gb_create B) (gb_detach B)")
    case (Pair k r)
    with assms(1) that show thesis
      by (cases r) (auto simp: get_main_start_def addsig_def check_def split: if_splits)
  qed
  have "m_workqueue T = []" using threadpool_new_fields(5) T(1) by (simp add: get_threadpool_def)
  with get_start_ok [OF assms(2,3)] T(2,3) show ?thesis by (simp add: get_server_start_def)
qed

section \<open>A closing worker is interrupted\<close>

text \<open>The statements of \<open>close_conn\<close> on connection \<open>i\<close>, run by a worker one by one. The count is loaded, \<open>close_load\<close>, before the
  store.\<close>

definition close_removefd :: "nat \<Rightarrow> 'd get_server \<Rightarrow> 'd get_server" where
  "close_removefd i S = S\<lparr>g_world := get_close_fd (g_users S i) (g_world S)\<rparr>"

definition close_mark :: "nat \<Rightarrow> 'd get_server \<Rightarrow> 'd get_server" where
  "close_mark i S = S\<lparr>g_users := (g_users S)(i := get_close_mark (g_users S i))\<rparr>"

definition close_load :: "'d get_server \<Rightarrow> int" where
  "close_load S = m_user_count (g_world S)"

definition close_store :: "int \<Rightarrow> 'd get_server \<Rightarrow> 'd get_server" where
  "close_store n S = S\<lparr>g_world := get_close_store n (g_world S)\<rparr>"

lemma get_close_parts:
  "g_sockfd (g_users S i) \<noteq> -1 \<Longrightarrow>
   get_close i S = (let S1 = close_mark i (close_removefd i S) in close_store (close_load S1) S1)"
  by (simp add: get_close_def get_close_conn_def close_removefd_def close_mark_def close_store_def close_load_def Let_def)

lemma get_close_closed: "g_sockfd (g_users S i) = -1 \<Longrightarrow> get_close i S = S"
  by (simp add: get_close_def get_close_conn_def)

lemma close_removefd_simps [simp]:
  "g_users (close_removefd i S) = g_users S" "g_listenfd (close_removefd i S) = g_listenfd S"
  "registered (g_world (close_removefd i S)) = registered (g_world S) - {g_sockfd (g_users S i)}"
  "m_user_count (g_world (close_removefd i S)) = m_user_count (g_world S)"
  by (simp_all add: close_removefd_def get_close_fd_def removefd_def)

lemma close_mark_simps [simp]:
  "g_users (close_mark i S) = (g_users S)(i := (g_users S i)\<lparr>g_sockfd := -1\<rparr>)" "g_listenfd (close_mark i S) = g_listenfd S"
  "g_world (close_mark i S) = g_world S"
  by (simp_all add: close_mark_def get_close_mark_def)

lemma registered_count [simp]: "registered (w\<lparr>m_user_count := n\<rparr>) = registered w"
  by (simp add: registered_def)

lemma close_store_simps [simp]:
  "g_users (close_store n S) = g_users S" "g_listenfd (close_store n S) = g_listenfd S"
  "registered (g_world (close_store n S)) = registered (g_world S)"
  "m_user_count (g_world (close_store n S)) = n - 1"
  by (simp_all add: close_store_def get_close_store_def)

lemma get_accepts:
  assumes "i < MAX_FD" and "int i \<notin> registered (g_world S)" and "m_user_count (g_world S) < int MAX_FD"
  shows "\<exists>S'. get_on_accept (Inr (int i, addr)) S = Inr S' \<and> g_sockfd (g_users S' i) = int i \<and>
    g_listenfd S' = g_listenfd S \<and> registered (g_world S') = insert (int i) (registered (g_world S)) \<and>
    m_user_count (g_world S') = m_user_count (g_world S) + 1"
proof -
  obtain h w where h: "get_init_conn (int i) addr (g_users S i) (g_world S) = (h, w)" by fastforce
  note e = get_init_conn_effect [OF h assms(2)]
  have "get_on_accept (Inr (int i, addr)) S = Inr (S\<lparr>g_users := (g_users S)(i := h), g_world := w\<rparr>)"
    using assms(1,3) h by (simp add: get_on_accept_def slot_def)
  with e show ?thesis by (intro exI [of _ "S\<lparr>g_users := (g_users S)(i := h), g_world := w\<rparr>"]) simp
qed

text \<open>The kernel may give the number of a closed descriptor to the next client at once.\<close>

lemma close_race_socket:
  assumes "get_ok S" and "i < MAX_FD" and "int i \<in> registered (g_world S) - {g_listenfd S}"
    and "m_user_count (g_world S) < int MAX_FD"
  shows "\<exists>S2. get_on_accept (Inr (int i, addr)) (close_removefd i S) = Inr S2 \<and>
    (let S3 = close_mark i S2; S4 = close_store (close_load S3) S3 in
       int i \<in> registered (g_world S4) \<and> g_sockfd (g_users S4 i) = -1 \<and> get_close i S4 = S4)"
proof -
  have "g_sockfd (g_users S i) = int i" using conn_used_open [OF assms(1,3)] by simp
  then obtain S2 where S2: "get_on_accept (Inr (int i, addr)) (close_removefd i S) = Inr S2"
    "registered (g_world S2) = insert (int i) (registered (g_world S) - {int i})"
    using get_accepts [of i "close_removefd i S" addr] assms(2,4) by auto
  then show ?thesis by (intro exI [of _ S2]) (simp add: Let_def get_close_closed)
qed

text \<open>A client is accepted between the load and the store of the count.\<close>

lemma close_race_count:
  assumes "get_ok S" and "i < MAX_FD" and "int i \<in> registered (g_world S) - {g_listenfd S}"
    and "m_user_count (g_world S) < int MAX_FD" and "j < MAX_FD" and "int j \<notin> registered (g_world S)"
  shows "\<exists>S2. get_on_accept (Inr (int j, addr)) (close_mark i (close_removefd i S)) = Inr S2 \<and>
    (let S3 = close_store (close_load (close_mark i (close_removefd i S))) S2 in
       m_user_count (g_world S3) = int (card (registered (g_world S3) - {g_listenfd S})) - 1)"
proof -
  let ?R = "registered (g_world S) - {g_listenfd S}"
  have fd: "g_sockfd (g_users S i) = int i" using conn_used_open [OF assms(1,3)] by simp
  then obtain S2 where S2: "get_on_accept (Inr (int j, addr)) (close_mark i (close_removefd i S)) = Inr S2"
    "registered (g_world S2) = insert (int j) (registered (g_world S) - {int i})"
    using get_accepts [of j "close_mark i (close_removefd i S)" addr] assms(4-6) by auto
  have n: "finite ?R" "m_user_count (g_world S) = int (card ?R)" "int j \<noteq> g_listenfd S"
    using assms(1,6) by (auto simp: get_ok_def)
  have "insert (int j) (registered (g_world S) - {int i}) - {g_listenfd S} = insert (int j) (?R - {int i})"
    using n(3) by auto
  then have "card (registered (g_world S2) - {g_listenfd S}) = Suc (card (?R - {int i}))"
    using n(1) assms(6) by (simp add: S2(2))
  also have "\<dots> = card ?R" using card.remove [OF n(1) assms(3)] by simp
  finally show ?thesis using S2(1) n(2) by (intro exI [of _ S2]) (simp add: Let_def close_load_def)
qed

text \<open>C24: the books of the GET server. In every state it reaches from the one its \<open>main\<close> sets up, when each round of a worker
  and each handler of the loop runs without another one in between, the registered descriptors other than the listening
  one are the sockets of their connections, and the count of users is their number and never above \<open>MAX_FD\<close>: no connection is
  closed or counted twice. The program does not enforce this order, and \<open>close_conn\<close> in a worker can be interrupted.
  If in such a state, with fewer than \<open>MAX_FD\<close> users, the loop accepts a client on the descriptor the worker has just closed, before the worker
  overwrites \<open>m_sockfd\<close>, the new connection stays registered but has no socket, and no later \<open>close_conn\<close> ever closes it.
  If a client is accepted between the load and the store of \<open>m_user_count--\<close>, the count is one too low.\<close>

theorem get_server_books:
  assumes "get_main_start B conn_array w sa = Inr (Some S0, sa')" and "epoll w (gb_epoll B) = Map.empty" and "m_user_count w = 0"
    and "get_reach S0 S"
  shows "(\<forall>fd \<in> registered (g_world S) - {g_listenfd S}. 0 \<le> fd \<and> fd < int MAX_FD \<and> g_sockfd (g_users S (nat fd)) = fd) \<and>
    m_user_count (g_world S) = int (card (registered (g_world S) - {g_listenfd S})) \<and>
    m_user_count (g_world S) \<le> int MAX_FD \<and>
    (\<forall>i addr. i < MAX_FD \<and> int i \<in> registered (g_world S) - {g_listenfd S} \<and> m_user_count (g_world S) < int MAX_FD \<longrightarrow>
      (\<exists>S2. get_on_accept (Inr (int i, addr)) (close_removefd i S) = Inr S2 \<and>
        (let S3 = close_mark i S2; S4 = close_store (close_load S3) S3 in
           int i \<in> registered (g_world S4) \<and> g_sockfd (g_users S4 i) = -1 \<and> get_close i S4 = S4)) \<and>
      (\<forall>j. j < MAX_FD \<and> int j \<notin> registered (g_world S) \<longrightarrow>
        (\<exists>S2. get_on_accept (Inr (int j, addr)) (close_mark i (close_removefd i S)) = Inr S2 \<and>
          (let S3 = close_store (close_load (close_mark i (close_removefd i S))) S2 in
             m_user_count (g_world S3) = int (card (registered (g_world S3) - {g_listenfd S})) - 1))))"
proof -
  have ok: "get_ok S" using get_reach_ok [OF assms(4)] get_main_start_ok [OF assms(1-3)] by blast
  have "registered (g_world S) - {g_listenfd S} \<subseteq> int ` {..<MAX_FD}"
  proof
    fix fd assume "fd \<in> registered (g_world S) - {g_listenfd S}"
    with ok have "0 \<le> fd" "fd < int MAX_FD" by (auto simp: get_ok_def)
    then show "fd \<in> int ` {..<MAX_FD}" by (intro image_eqI [of _ _ "nat fd"]) auto
  qed
  then have "card (registered (g_world S) - {g_listenfd S}) \<le> card (int ` {..<MAX_FD})"
    by (intro card_mono) auto
  also have "\<dots> \<le> MAX_FD" using card_image_le [of "{..<MAX_FD}" int] by simp
  finally have "m_user_count (g_world S) \<le> int MAX_FD" using ok by (simp add: get_ok_def)
  with ok close_race_socket [OF ok] close_race_count [OF ok] show ?thesis unfolding get_ok_def by blast
qed

text \<open>The witness: a client is accepted, and its connection is closed by a hang-up.\<close>

definition demo_get_server :: "unit get_server" where
  "demo_get_server = get_server_start 3 4 (\<lambda>_. demo_get)
     \<lparr>m_thread_number = 8, m_max_requests = 10000, m_threads = True, m_workqueue = [], m_queuelocker = Free,
      m_queuestat = 0, m_stop = False\<rparr> (demo_world\<lparr>m_user_count := 0\<rparr>)"

definition demo_get_boot :: get_boot where
  "demo_get_boot = \<lparr>gb_sigaction = (\<lambda>_. True), gb_create = (\<lambda>_. 0), gb_detach = (\<lambda>_. 0), gb_socket = 4, gb_bind = 0,
     gb_listen = 0, gb_epoll = 3\<rparr>"

lemma demo_get_start:
  "get_main_start demo_get_boot (\<lambda>_. demo_get) (demo_world\<lparr>m_user_count := 0\<rparr>) sa =
     Inr (Some demo_get_server, sa(13 := (Ignored, True)))"
  by (simp add: get_main_start_def demo_get_boot_def addsig_def check_def get_threadpool_def threadpool_new_def
      demo_get_server_def eval_nat_numeral locker_new_def sem_new_def)

theorem get_server_books_witness:
  "\<exists>S1 S2. get_reach demo_get_server S1 \<and> m_user_count (g_world S1) = 1 \<and> registered (g_world S1) = {4, 7} \<and>
     get_reach demo_get_server S2 \<and> m_user_count (g_world S2) = 0 \<and> registered (g_world S2) = {4} \<and>
     m_user_count (g_world S1) \<le> int MAX_FD"
proof -
  let ?e1 = "\<lparr>ge_fd = 4, ge_mask = EPOLLIN, ge_accept = Inr (7, 0), ge_recv = [], ge_send = []\<rparr>"
  let ?e2 = "\<lparr>ge_fd = 7, ge_mask = EPOLLHUP, ge_accept = Inl 0, ge_recv = [], ge_send = []\<rparr>"
  have bound: "m_user_count (g_world S) \<le> int MAX_FD" if "get_reach demo_get_server S" for S
    by (rule get_server_books [OF demo_get_start _ _ that, THEN conjunct2, THEN conjunct2, THEN conjunct1])
      (simp_all add: demo_world_def)
  have r0: "registered (g_world demo_get_server) = {4}" "m_user_count (g_world demo_get_server) = 0"
    "g_listenfd demo_get_server = 4"
    by (auto simp: demo_get_server_def get_server_start_def registered_def addfd_def setnonblocking_def
        epoll_ctl_add_def Let_def demo_world_def)
  obtain h w where i: "get_init_conn 7 0 (g_users demo_get_server 7) (g_world demo_get_server) = (h, w)" by fastforce
  have new: "7 \<notin> registered (g_world demo_get_server)" using r0 by simp
  note h = get_init_conn_effect [OF i new]
  let ?S1 = "demo_get_server\<lparr>g_users := (g_users demo_get_server)(7 := h), g_world := w\<rparr>"
  have s1: "get_step demo_get_server ?S1"
    using r0 i new by (intro get_step.event [of ?e1])
      (simp_all add: get_event_ok_def get_handle_event_def get_on_accept_def slot_def MAX_FD_def)
  obtain h2 w2 where c: "get_close_conn True h w = (h2, w2)" by fastforce
  let ?S2 = "get_close 7 ?S1"
  have s2: "get_step ?S1 ?S2"
    using r0 h by (intro get_step.event [of ?e2])
      (simp_all add: get_event_ok_def get_handle_event_def slot_def MAX_FD_def EPOLLRDHUP_def EPOLLHUP_def EPOLLERR_def)
  have r1: "registered (g_world ?S1) = {4, 7}" "m_user_count (g_world ?S1) = 1" using h r0 by auto
  have r2: "registered (g_world ?S2) = {4}" "m_user_count (g_world ?S2) = 0"
    using h r0 by (auto simp: get_close_def get_close_conn_def close_parts removefd_def Let_def)
  have reach: "get_reach demo_get_server ?S1" "get_reach demo_get_server ?S2"
    using s1 s2 by (meson get_reach.intros)+
  have "m_user_count (g_world ?S1) \<le> int MAX_FD"
    using bound [OF reach(1)] .
  with reach r1 r2 show ?thesis by blast
qed

end
