(* ===== verification/ServerStart.thy ===== *)
theory ServerStart
  imports EventLoopRun UserTable AsyncLog Signals
begin

text \<open>
  The rest of \<open>src/main.cpp\<close>: the signals, which travel through a pipe into the event loop, and what \<open>main\<close> does
  before the loop, which puts the components together. What the system answers is the record \<open>boot\<close>.
\<close>

section \<open>main, before the loop\<close>

record ('m, 'd) boot =
  can_open :: "string \<Rightarrow> bool"
  start_tm :: tm
  argv :: "string list"
  mysql_init :: "nat \<Rightarrow> 'm option"
  mysql_real_connect :: "nat \<Rightarrow> 'm \<Rightarrow> 'm option"
  create :: "nat \<Rightarrow> int"
  detach :: "nat \<Rightarrow> int"
  mysql_error :: "'m option \<Rightarrow> 'd \<Rightarrow> string"
  store_result :: "'m option \<Rightarrow> 'd \<Rightarrow> string option list list option"
  sigaction_ok :: "int \<Rightarrow> bool"
  socket_fd :: int
  bind_result :: "int \<Rightarrow> int"
  listen_result :: int
  epoll_create_fd :: int
  socketpair_result :: int
  pair0 :: int
  pair1 :: int

text \<open>\<open>main\<close> returns before the loop, waits for a connection for ever, or enters the loop with so many worker threads
  running.\<close>

datatype ('m, 'd) main_outcome =
    Exits int
  | Blocked
  | Serves nat "('m, 'd) server" "'m connection_pool" log sigactions

definition main_start :: "('m, 'd) boot \<Rightarrow> ('m, 'd) os \<Rightarrow> (nat \<Rightarrow> 'm http_conn) \<Rightarrow> (nat \<Rightarrow> client_data) \<Rightarrow>
    sigactions \<Rightarrow> 'd world \<Rightarrow> ('m, 'd) main_outcome res" where
  "main_start B os conn_array timer_array sa w =
     andThen (log_init (can_open B) (start_tm B) ''ServerLog'' 8192 800000 500 log_new) (\<lambda>(_, L).
     if length (argv B) \<le> 1 then Inr (Exits 1)
     else
       andThen (atoi (argv B ! 1 @ [NUL]) 0) (\<lambda>port.
       andThen (addsig (sigaction_ok B 13) 13 Ignored True sa) (\<lambda>sa.
       andThen (pool_init (mysql_init B) (mysql_real_connect B)
                  ''localhost'' ''dbname'' ''dbPasswd'' ''mydatabase'' 3306 8 connection_pool_new) (\<lambda>connPool.
       case threadpool_new (create B) (detach B) 8 10000 of
         (_, Inl _) \<Rightarrow> Inr (Exits 1)
       | (threads, Inr T) \<Rightarrow>
           (case initmysql_result os (mysql_error B) (store_result B) connPool w of
              None \<Rightarrow> Inr Blocked
            | Some r \<Rightarrow>
                andThen r (\<lambda>(connPool, w).
                andThen (check (socket_fd B \<ge> 0)) (\<lambda>_.
                andThen (check (bind_result B port \<ge> 0)) (\<lambda>_.
                andThen (check (listen_result B \<ge> 0)) (\<lambda>_.
                andThen (check (epoll_create_fd B \<noteq> -1)) (\<lambda>_.
                andThen (check (socketpair_result B \<noteq> -1)) (\<lambda>_.
                andThen (addsig (sigaction_ok B 14) 14 Handled True sa) (\<lambda>sa.
                andThen (addsig (sigaction_ok B 15) 15 Handled True sa) (\<lambda>sa.
                  Inr (Serves threads (server_start (epoll_create_fd B) (socket_fd B) (pair0 B) (pair1 B)
                                 conn_array timer_array T w) connPool L sa))))))))))))))"


section \<open>Signals reach the loop\<close>

lemma read_signals_result:
  "timeout (read_signals sigs S) = (timeout S \<or> 14 \<in> set sigs) \<and>
   stop_server (read_signals sigs S) = (stop_server S \<or> 15 \<in> set sigs)"
  by (induction sigs arbitrary: S) (auto simp: on_sys_def)

lemma read_signals_timers: "timer_lst (read_signals sigs S) = timer_lst S"
  by (induction sigs arbitrary: S) (auto simp: on_sys_def)

text \<open>C27: a termination signal stops the server. When \<open>SIGTERM\<close> is among the signals delivered since the pipe was read, at
  most as many as the pipe and the buffer of \<open>recv\<close> hold, the round of the loop that reads the pipe ends
  the loop, whatever would come next. A tick that is due, from before or by a \<open>SIGALRM\<close> among the signals, still runs first:
  the connections whose timers have expired are closed, and exactly their timers leave the queue. If no tick is due the
  round does nothing but read the signals. The books are in order.\<close>

theorem sigterm_stops_server:
  assumes "server_ok S" and "pipe_read S \<noteq> listenfd S" and "\<not> stop_server S"
    and "15 \<in> set sigs" and "\<forall>s\<in>set sigs. 0 \<le> s \<and> s < 128" and "length sigs \<le> 1024" and "length sigs \<le> limit"
    and "e = \<lparr>ev_fd = pipe_read S, ev_mask = EPOLLIN, ev_accept = as, ev_signals = fst (recv_signals (deliver limit sigs [])),
      ev_recv = rs, ev_send = ws, ev_time = t\<rparr>"
  shows "\<exists>S'. main_loop (Events [e] now # rest) S = Inr S' \<and> stop_server S' \<and> server_ok S' \<and>
    (if timeout S \<or> 14 \<in> set sigs
     then \<exists>T fired. timer_handler now (read_signals sigs S) = Inr T \<and> S' = T\<lparr>timeout := False\<rparr> \<and> distinct fired \<and>
       set fired = {a \<in> set (m_pq (timer_lst S)). timer_key (store (timer_lst S)) a \<le> now} \<and>
       open_fds (timer_lst S') = open_fds (timer_lst S) - (\<lambda>a. int (watches (timer_lst S) a)) ` set fired \<and>
       (\<forall>a\<in>set fired. int (watches (timer_lst S) a) \<notin> registered (sys (ctx S')))
     else S' = read_signals sigs S)"
proof -
  have "deliver limit sigs [] = sigs" using deliver_result [OF assms(5), of limit "[]"] assms(7) by simp
  moreover have "sigs \<noteq> []" using assms(4) by auto
  ultimately have sg: "ev_signals e = Some sigs" using assms(6,8) by (simp add: recv_signals_def)
  let ?S = "read_signals sigs S"
  have m: "EPOLLIN AND (EPOLLRDHUP OR EPOLLHUP OR EPOLLERR) = 0" "EPOLLIN AND EPOLLIN \<noteq> 0"
    by (simp_all add: EPOLLIN_def EPOLLRDHUP_def EPOLLHUP_def EPOLLERR_def)
  have h: "handle_event e S = Inr ?S" using sg assms(2,8) m by (simp add: handle_event_def)
  have ok: "server_ok ?S" using read_signals_ok [OF assms(1)] by simp
  have st: "stop_server ?S" using read_signals_result assms(4) by blast
  have due: "timeout ?S \<longleftrightarrow> timeout S \<or> 14 \<in> set sigs" using read_signals_result by blast
  show ?thesis
  proof (cases "timeout ?S")
    case False
    then have "after_events now ?S = Inr ?S" by (simp add: after_events_def)
    then have "main_loop (Events [e] now # rest) S = Inr ?S" using h assms(3) st by (cases rest) auto
    with False due st ok show ?thesis by simp
  next
    case True
    from timer_handler_ok [OF ok, of now] obtain T fired where t: "timer_handler now ?S = Inr T" "server_ok T" "distinct fired"
      "set fired = {a \<in> set (m_pq (timer_lst S)). timer_key (store (timer_lst S)) a \<le> now}"
      "ctx T = alarmed (closed_all (map (watches (timer_lst S)) fired)
        ((ctx ?S)\<lparr>sys := emit (LogInfo ''timer tick'') (sys (ctx ?S))\<rparr>))"
      "open_fds (timer_lst T) = open_fds (timer_lst S) - (\<lambda>a. int (watches (timer_lst S) a)) ` set fired"
      by (auto simp: read_signals_timers)
    let ?T = "T\<lparr>timeout := False\<rparr>"
    have "stop_server T" using t(1) st by (auto simp: timer_handler_def)
    moreover have "after_events now ?S = Inr ?T" using True t(1) by (simp add: after_events_def)
    ultimately have "main_loop (Events [e] now # rest) S = Inr ?T" "stop_server ?T"
      using h assms(3) by (cases rest; auto)+
    moreover have "server_ok ?T" using t(2) by (simp add: server_ok_def)
    moreover have "\<forall>a\<in>set fired. int (watches (timer_lst S) a) \<notin> registered (sys (ctx ?T))"
      by (simp add: t(5) closed_all_effect image_image)
    ultimately show ?thesis using True due t(1,3,4,6)
      by (intro exI [of _ ?T]) (auto intro!: exI [of _ T] exI [of _ fired])
  qed
qed


theorem sigterm_stops_server_witness:
  "\<exists>S' T. main_loop [Events [\<lparr>ev_fd = 5, ev_mask = EPOLLIN, ev_accept = [],
       ev_signals = fst (recv_signals (deliver 4096 [14, 15] [])), ev_recv = [], ev_send = [], ev_time = 0\<rparr>] 20, EpollFails]
     demo_server = Inr S' \<and> stop_server S' \<and>
     timer_handler 20 (read_signals [14, 15] demo_server) = Inr T \<and> S' = T\<lparr>timeout := False\<rparr>"
proof -
  have "server_ok demo_server" unfolding demo_server_def by (rule server_start_ok) (simp_all add: demo_world_def)
  moreover have p: "pipe_read demo_server = 5" "pipe_read demo_server \<noteq> listenfd demo_server" "\<not> stop_server demo_server"
    by (simp_all add: demo_server_def server_start_def Let_def)
  moreover have s: "15 \<in> set [14, 15 :: int]" "\<forall>s\<in>set [14, 15 :: int]. 0 \<le> s \<and> s < 128" "length [14, 15 :: int] \<le> 1024"
    "length [14, 15 :: int] \<le> 4096" and due: "timeout demo_server \<or> 14 \<in> set [14, 15 :: int]" by simp_all
  note sigterm_stops_server [where now = 20 and rest = "[EpollFails]" and as = "[]" and rs = "[]" and ws = "[]" and t = 0,
      OF calculation(1) p(2,3) s refl, unfolded if_P [OF due] p(1)]
  then show ?thesis by blast
qed

section \<open>The components together\<close>

lemma pool_init_succeeds:
  assumes "\<forall>k < unat n. \<exists>h c. ini k = Some h \<and> conn k h = Some c"
  shows "\<exists>P. pool_init ini conn u usr pw dbn port n connection_pool_new = Inr P"
proof -
  define c where "c k = the (conn k (the (ini k)))" for k
  have c: "\<exists>h. ini (0 + k) = Some h \<and> conn (0 + k) h = Some (map c [0..<unat n] ! k)" if "k < unat n" for k
    using assms that by (auto simp: c_def)
  have "\<exists>q. init_loop ini conn (unat n) 0 p = Inr q \<and> lock q = lock p" for p
    using init_loop_result [of ini conn "unat n" 0 p] c
    by (intro exI [of _ "p\<lparr>connList := connList p @ map c [0..<unat n], FreeConn := FreeConn p + of_nat (unat n)\<rparr>"])
      (auto intro!: exI [of _ "map c [0..<unat n]"])
  then obtain q where "init_loop ini conn (unat n) 0
      (connection_pool_new\<lparr>url := u, Port := [char_of_int port], User := usr, PassWord := pw, DatabaseName := dbn,
        lock := Held, FreeConn := 0\<rparr>) = Inr q" "lock q = Held" by fastforce
  then show ?thesis by (simp add: pool_init_def Let_def connection_pool_new_def locker_new_def)
qed

lemma start_threads_succeeds:
  "\<forall>k < n. cr (i + k) = 0 \<and> de (i + k) = 0 \<Longrightarrow> start_threads cr de n i T = (i + n, Inr T)"
proof (induction n arbitrary: i)
  case (Suc n)
  from Suc.prems have "cr i = 0" "de i = 0" by (metis add_0_right zero_less_Suc)+
  moreover have "\<forall>k < n. cr (Suc i + k) = 0 \<and> de (Suc i + k) = 0"
    using Suc.prems by (metis Suc_less_eq add_Suc_right add_Suc)
  ultimately show ?case using Suc.IH [of "Suc i"] by simp
qed simp

text \<open>C26: when the system grants what \<open>main\<close> asks for, the server enters its loop with every component in order: the event
  loop's books hold, the pool has its eight free connections, eight workers run, the accounts of the
  database are the ones \<open>login\<close> will accept, and the signals are set.\<close>

theorem startup_ready:
  assumes "tm_ok (start_tm B)" and "can_open B (day_file [] ''ServerLog'' (start_tm B) 0)"
    and "argv B = [prog, port]" and "atoi (port @ [NUL]) 0 = Inr n"
    and "\<forall>k < 8. \<exists>h c. mysql_init B k = Some h \<and> mysql_real_connect B k h = Some c"
    and "\<forall>k < 8. create B k = 0 \<and> detach B k = 0"
    and "users w = Map.empty" and "epoll w = (\<lambda>_. Map.empty)" and "m_user_count w = 0"
    and "\<forall>con. mysql_query os con select_users (db w) = (0, d) \<and> store_result B con d = Some (map account_row accounts)"
    and "distinct (map fst accounts)" and "\<forall>sig. sigaction_ok B sig"
    and "0 \<le> socket_fd B" "0 \<le> bind_result B n" "0 \<le> listen_result B" "epoll_create_fd B \<noteq> -1" "socketpair_result B \<noteq> -1"
  shows "\<exists>S P L sa'. main_start B os conn_array timer_array sa w = Inr (Serves 8 S P L sa') \<and>
    m_thread_number (pool S) = 8 \<and> server_ok S \<and> \<not> stop_server S \<and> listenfd S = socket_fd B \<and> pipe_read S = pair0 B \<and>
    pool_good P \<and> length (connList P) = 8 \<and> FreeConn P = 8 \<and> CurConn P = 0 \<and>
    m_workqueue (pool S) = [] \<and> m_max_requests (pool S) = 10000 \<and> \<not> m_stop (pool S) \<and>
    users (sys (ctx S)) = map_of accounts \<and>
    m_is_async L \<and> m_fp L = Some (day_file [] ''ServerLog'' (start_tm B) 0) \<and>
    sa' 13 = (Ignored, True) \<and> sa' 14 = (Handled, True) \<and> sa' 15 = (Handled, True)"
proof -
  obtain q :: "string block_queue" where q: "block_queue_new [] 500 = Inr q" by (simp add: block_queue_new_def)
  have "log_init (can_open B) (start_tm B) ([] @ ''ServerLog'') 8192 800000 500 log_new =
      log_init (can_open B) (start_tm B) ([] @ ''ServerLog'') 8192 800000 0 (log_new\<lparr>m_is_async := True, m_log_queue := Some q\<rparr>)"
    using log_init_async [OF _ q] by simp
  then obtain L where L: "log_init (can_open B) (start_tm B) ''ServerLog'' 8192 800000 500 log_new = Inr (True, L)"
    "m_is_async L" "m_fp L = Some (day_file [] ''ServerLog'' (start_tm B) 0)"
    using log_init_result [where can_open = "can_open B" and dir = "[]" and name = "''ServerLog''", OF _ _ _ _ _ _ assms(1) _ assms(2),
        of 8192 800000 "log_new\<lparr>m_is_async := True, m_log_queue := Some q\<rparr>"] by auto
  have "\<forall>k < unat (8 :: 32 word). \<exists>h c. mysql_init B k = Some h \<and> mysql_real_connect B k h = Some c" using assms(5) by simp
  from pool_init_succeeds [OF this] obtain P0 where
    P0: "pool_init (mysql_init B) (mysql_real_connect B) ''localhost'' ''dbname'' ''dbPasswd'' ''mydatabase'' 3306 8
      connection_pool_new = Inr P0" by blast
  note f = pool_init_fields [OF P0]
  have good: "lock P0 = Free" "reserve P0 = length (connList P0)" "length (connList P0) = 8" using f by simp_all
  then obtain con cs where con: "connList P0 = con # cs" by (cases "connList P0") auto
  have "\<exists>T :: nat threadpool. threadpool_new (create B) (detach B) 8 10000 = (8, Inr T)"
    using assms(6) by (simp add: threadpool_new_def start_threads_succeeds [of 8 _ 0, simplified])
  then obtain T :: "nat threadpool" where T: "threadpool_new (create B) (detach B) 8 10000 = (8, Inr T)" by blast
  let ?P = "P0\<lparr>connList := cs @ [con]\<rparr>"
  let ?w = "w\<lparr>db := d, trace := trace w @ [Query select_users], users := users w ++ map_of (rev accounts)\<rparr>"
  have I: "initmysql_result os (mysql_error B) (store_result B) P0 w = Some (Inr (?P, ?w))"
    using assms(10) by (intro initmysql_result_loads [OF good(1,2) con]) blast+
  let ?S = "server_start (epoll_create_fd B) (socket_fd B) (pair0 B) (pair1 B) conn_array timer_array T ?w"
  let ?sa = "sa(13 := (Ignored, True), 14 := (Handled, True), 15 := (Handled, True))"
  have "main_start B os conn_array timer_array sa w = Inr (Serves 8 ?S ?P L ?sa)"
    using assms(3,4,12-) L(1) P0 T I by (simp add: main_start_def addsig_def check_def)
  moreover have "server_ok ?S" using assms(8,9) by (intro server_start_ok) simp_all
  moreover have "\<not> stop_server ?S" "listenfd ?S = socket_fd B" "pipe_read ?S = pair0 B" "pool ?S = T"
    "users (sys (ctx ?S)) = users ?w"
    by (simp_all add: server_start_def Let_def addfd_def setnonblocking_def epoll_ctl_add_def emit_def)
  moreover have "map_of (rev accounts) = map_of accounts"
    using assms(11) by (simp add: map_of_inject_set rev_map [symmetric])
  moreover have "pool_good ?P" "length (connList ?P) = 8" "FreeConn ?P = 8" "CurConn ?P = 0"
    using good f con by (simp_all add: pool_good_def)
  moreover have "m_thread_number T = 8" "m_workqueue T = []" "m_max_requests T = 10000" "\<not> m_stop T"
    using threadpool_new_fields [OF T] by simp_all
  ultimately show ?thesis
    using L(2,3) assms(7)
    by (intro exI [of _ ?S] exI [of _ ?P] exI [of _ L] exI [of _ ?sa]) simp
qed


definition demo_boot :: "(nat, unit) boot" where
  "demo_boot = \<lparr>can_open = (\<lambda>_. True), start_tm = demo_tm, argv = [''server'', ''9006''],
     mysql_init = (\<lambda>i. Some i), mysql_real_connect = (\<lambda>i c. Some (100 + c)), create = (\<lambda>_. 0), detach = (\<lambda>_. 0),
     mysql_error = (\<lambda>_ _. []), store_result = (\<lambda>_ _. Some [[Some ''ann'', Some ''1'']]), sigaction_ok = (\<lambda>_. True),
     socket_fd = 4, bind_result = (\<lambda>_. 0), listen_result = 0, epoll_create_fd = 3, socketpair_result = 0,
     pair0 = 5, pair1 = 6\<rparr>"

theorem startup_ready_witness:
  "\<exists>hs us S P L sa'. main_start demo_boot \<lparr>stat = (\<lambda>_. None), mmap_file = (\<lambda>_ _. MapFailed), mysql_query = (\<lambda>_ _ d. (0, d))\<rparr>
       hs us (\<lambda>_. (DefaultAction, False)) (demo_world\<lparr>m_user_count := 0, users := Map.empty\<rparr>) = Inr (Serves 8 S P L sa') \<and>
     m_thread_number (pool S) = 8 \<and> length (connList P) = 8 \<and> users (sys (ctx S)) = [''ann'' \<mapsto> ''1''] \<and> sa' 15 = (Handled, True)"
proof -
  let ?os = "\<lparr>stat = (\<lambda>_. None), mmap_file = (\<lambda>_ _. MapFailed), mysql_query = (\<lambda>_ _ d. (0, d))\<rparr> :: (nat, unit) os"
  have port: "atoi (''9006'' @ [NUL]) 0 = Inr 9006" by code_simp
  have "\<exists>S P L sa'. main_start demo_boot ?os (\<lambda>_. undefined) (\<lambda>_. undefined) (\<lambda>_. (DefaultAction, False)) (demo_world\<lparr>m_user_count := 0, users := Map.empty\<rparr>) =
      Inr (Serves 8 S P L sa') \<and>
    m_thread_number (pool S) = 8 \<and> server_ok S \<and> \<not> stop_server S \<and> listenfd S = socket_fd demo_boot \<and> pipe_read S = pair0 demo_boot \<and>
    pool_good P \<and> length (connList P) = 8 \<and> FreeConn P = 8 \<and> CurConn P = 0 \<and>
    m_workqueue (pool S) = [] \<and> m_max_requests (pool S) = 10000 \<and> \<not> m_stop (pool S) \<and>
    users (sys (ctx S)) = map_of [(''ann'', ''1'')] \<and>
    m_is_async L \<and> m_fp L = Some (day_file [] ''ServerLog'' (start_tm demo_boot) 0) \<and>
    sa' 13 = (Ignored, True) \<and> sa' 14 = (Handled, True) \<and> sa' 15 = (Handled, True)"
    by (rule startup_ready [where port = "''9006''" and prog = "''server''" and n = 9006 and d = "()"])
      (use port in \<open>simp_all add: demo_boot_def demo_world_def tm_ok_def demo_tm_def account_row_def\<close>)
  then show ?thesis by (intro exI [of _ "\<lambda>_. undefined"]) auto
qed

end
