(* ===== verification/Spec2Isabelle.thy ===== *)
theory Spec2Isabelle
  imports QueueWait WebBenchServer CgiServer UserTable LogFiles GetServer ServerStart
begin

text \<open>
  EasyWebServer, a collection of three small web servers for Linux in C++. Paths below are relative to the root of
  the repository.

  The main server is \<open>POST-Webserver/SimpleWebServer\<close>. One thread runs the event loop of \<open>src/main.cpp\<close>: it accepts
  connections, reads what arrives into the connection's buffer, hands the connection to a worker through
  \<open>inc/threadpool.h\<close>, writes the response when the socket takes it, and closes connections whose timer has run out. A
  worker parses the request (\<open>src/http/http_conn.cpp\<close>), for the forms with a database connection of
  \<open>src/MysqlPool/sql_connection_pool.cpp\<close>, formats the response and re-arms the socket. Timers are kept by
  \<open>inc/heap_timer.h\<close>, log lines go through \<open>src/log/log.cpp\<close> and the queue of \<open>inc/block_queue.h\<close> to a thread of their
  own. \<open>GET-WebServer\<close> is an earlier version without timers, log, forms and database. \<open>CGI-Learn\<close> is a server whose
  parent process hands connections to child processes, which run the program a request names.
  \<open>POST-Webserver/PressureTest/webbench-1.5\<close> is the load generator the main server is measured with.

  \<^bold>\<open>Reading the model.\<close> A C++ function is a definition of the same name (with the prefix of its class where names meet:
  \<open>bq_\<close> block queue, \<open>get_\<close> GET-only server, \<open>cgi_\<close>, \<open>pp_\<close> CGI server, \<open>log_\<close>; \<open>remove\<close>, \<open>read\<close> and the like get a longer name). An
  object is a record of its members, in their order; a member the constructor leaves indeterminate is a \<open>cell\<close>,
  and reading it before it is set is a fault. An operation that can leave the defined behaviour of C++, or that ends the
  process, returns \<open>'a res\<close>: \<open>Inl\<close> of a \<open>fault\<close> or \<open>Inr\<close> of result and new state, sequenced by \<open>andThen\<close>;
  \<open>post P m\<close> says that the result of \<open>m\<close> satisfies \<open>P\<close> if \<open>m\<close> does not fault; it is used in lemmas only. A theorem with
  \<open>= Inr\<close> in its conclusion also says that the code makes no access outside a buffer. What the system does (file system, sockets,
  MySQL client, clock, allocator) is an argument: the record \<open>os\<close> or \<open>files\<close>, the list of results of \<open>recv\<close>, \<open>accept\<close> or
  \<open>writev\<close>, the addresses \<open>new\<close> returns. What the server makes the system do is the trace of \<open>event\<close>s in \<open>world\<close>.

  \<^bold>\<open>Theories.\<close>

  \<^item> \<open>Prelude\<close>: faults, results, \<open>post\<close>, cells, checked \<open>int\<close> arithmetic, lemmas on lists. \<open>CString\<close>: \<open>char\<close> buffers and the
    functions of \<open>string.h\<close>, \<open>strings.h\<close> and \<open>stdlib.h\<close>, every access checked.
  \<^item> \<open>Locker\<close> (\<open>inc/locker.h\<close>): mutex, semaphore and condition variable. \<open>Signals\<close>: dispositions, the handler that writes a
    signal into a pipe, and \<open>assert\<close>, for the three \<open>main\<close> functions.
  \<^item> \<open>BlockQueue\<close> (\<open>inc/block_queue.h\<close>): every member function with its lock and its indices. \<open>contents\<close> is the abstract
    queue, and the operations refine it (\<open>block_queue_fifo\<close>); the locale \<open>bounded_queue\<close> is what a client may rely on.
    \<open>pop\<close> is cut where its thread can sleep: \<open>bq_pop\<close> up to the sleep, \<open>bq_pop_wake\<close> from there on; \<open>m_cond\<close> holds the sleeping
    threads. \<open>QueueWait\<close>: any number of threads that push and pop, step by step through these functions; no wake-up is
    lost.
  \<^item> \<open>StdHeap\<close>, \<open>HeapTimer\<close> (\<open>inc/heap_timer.h\<close>): the heap algorithms of \<open>std::priority_queue\<close>, their order and contents
    (locale \<open>min_queue\<close>), and the timer container over them, with timers as objects at addresses.
  \<^item> \<open>SqlPool\<close> (\<open>src/MysqlPool\<close>): the pool's operations, and the step relation of threads that take and give back
    connections: none is lost or held twice (\<open>pool_conserves_connections\<close>), and a thread gets one when there are enough.
  \<^item> \<open>ThreadPool\<close> (\<open>inc/threadpool.h\<close>): the queue, its semaphore and \<open>run\<close>, as interleavings of the event loop and any
    number of workers: every request is served exactly once, no wake-up is lost, and a worker has a database
    connection of its own while it serves (through the locale \<open>connection_source\<close>).
  \<^item> \<open>HttpConn\<close>, \<open>HttpParse\<close>, \<open>HttpRequest\<close>, \<open>HttpResponse\<close> (\<open>src/http/http_conn.cpp\<close>): the connection with \<open>init\<close>,
    \<open>close_conn\<close>, \<open>parse_line\<close> and \<open>read_once\<close>; the parsers of request line, headers and body; \<open>do_request\<close> and
    \<open>process_read\<close>; the response, \<open>write\<close> and \<open>process\<close>. \<open>HttpLine\<close>: what \<open>parse_line\<close> and \<open>read_once\<close> do.
    \<open>HttpStream\<close>: \<open>process_read\<close> and the cutting of a request into segments. \<open>HttpRoute\<close>: which file answers which URL,
    log-in and registration. \<open>HttpReply\<close>: what is sent. \<open>HttpServe\<close>: a whole GET request, from its text to the response.
    \<open>HttpFrame\<close>: what a request leaves alone. \<open>UserTable\<close>: the loading of the accounts.
  \<^item> \<open>EventLoop\<close>, \<open>EventLoopInv\<close>, \<open>EventLoopRun\<close> (\<open>src/main.cpp\<close>): the handlers, the invariant that users, epoll's
    interest list, timers and descriptors agree, and the states the loop reaches. \<open>EventLoopServe\<close>: a request on its way
    through the handlers and a worker. \<open>ServerStart\<close>: the signals in the loop, and \<open>main\<close> up to the loop.
  \<^item> \<open>AsyncLog\<close>, \<open>LogQueue\<close>, \<open>LogFiles\<close> (\<open>src/log/log.cpp\<close>, \<open>inc/log.h\<close>): the logger, its queue with threads that log and the
    thread that writes, and, for one thread that logs, the critical sections of both on the logger and its files: which file a
    line goes to. \<open>LogQueue\<close> looks at the calls of the queue alone, for any number of threads; in \<open>LogFiles\<close> every action is a
    function of \<open>AsyncLog\<close>.
  \<^item> \<open>GetConn\<close>, \<open>GetResponse\<close>, \<open>GetReply\<close>, \<open>GetServer\<close> (\<open>GET-WebServer\<close>): the connection, its responses and their properties, the
    loop and the workers, and \<open>close_conn\<close> in a worker statement by statement. Its enumerations, its helpers on descriptors, its
    semaphore and its mutex have the text of the main server's, whose definitions are used; its condition variable, which
    has a mutex of its own and which none of its code uses, is \<open>get_cond\<close> in \<open>Locker\<close>.
  \<^item> \<open>CgiConn\<close>, \<open>ProcessPool\<close> (\<open>CGI-Learn\<close>): the connection that runs a program, and the pool: creation, the parent's
    round robin and reaping, the children's notifications and requests. \<open>CgiServer\<close>: \<open>main\<close> and the life of the parent.
  \<^item> \<open>HttpReject\<close>: the requests the main server refuses, and what it sends then. \<open>Session\<close>: a round of a worker with the
    queue's semaphore and the database pool, a new client, and requests that follow each other on its connection.
  \<^item> \<open>WebBench\<close>, \<open>WebBenchRun\<close> (\<open>webbench.c\<close>, \<open>socket.c\<close>): the global variables as a record, the options and \<open>build_request\<close>;
    \<open>Socket\<close>, \<open>benchcore\<close>, \<open>bench\<close> and \<open>main\<close>, on the results of the calls into the system, each with whether the alarm has
    come. \<open>WebRequest\<close>: the request for a URL. \<open>WebBenchCount\<close>: the histories of a client as lists of exchanges, what it
    counts for them, and what the parent reads back from the pipe. \<open>WebBenchServer\<close>: these requests as the server sees them.
  \<^item> This theory: the main server as a whole. A client gets the files it asks for (\<open>client_served\<close>), and so does the load
    generator with HTTP/1.1 (\<open>webbench_served\<close>), but not with its defaults (\<open>webbench_refused\<close>).

  \<^bold>\<open>What is shown.\<close> Invariants of the books (users, timers, epoll; free and used database connections; queued and
  served requests; children and their pipes) in every reachable state; the functional behaviour of the parsers, of the
  routing and of the responses, errors included; that what \<open>write\<close> delivers is the response, whatever the socket takes;
  that reading a request does not depend on its segments; termination; and, where the code does not do what it means
  to, the exact circumstances (a body in two pieces, a response cut inside the header twice, a timer that outlives its
  connection, a full log queue, a worker of the GET server interrupted in \<open>close_conn\<close>, a load test that counts error pages).

  \<^bold>\<open>Bounds and fuel.\<close> The loops of \<open>parse_line\<close>, \<open>read_once\<close>, \<open>process_read\<close>, \<open>write\<close>, the child search and the CR LF search
  are total functions with a measure: the distance of an index from its end, the room left, or the results of the
  system still to come; those of \<open>webbench\<close> end with the results of the system, or with the text in the pipe, and are \<open>None\<close>
  when these run out while a call waits. \<open>del_timer\<close>, \<open>adjust_timer\<close> and \<open>tick\<close> run with the length of the queue as bound, and every round pops one
  element, so the bound is never met early. The event loops run on a finite list of results of \<open>epoll_wait\<close>, of any
  length. Buffers have the sizes of the source: 2048, 1024 and 200 in the servers, 1024 in the CGI server, 2048, 64 and 10 in
  \<open>build_request\<close>, the log's own argument for its lines. \<open>int\<close> is an \<open>int\<close> with checked arithmetic where the code adds or converts input; overflow is a
  fault.

  \<^bold>\<open>Not modelled.\<close> The usage text and the messages on the standard error output of \<open>webbench\<close>, and the rates it prints at the
  end, which are floating point. The calls that set up the
  listening socket (address, \<open>setsockopt\<close>) appear only through their results, and what happens when they fail; so do
  the initialisers of the pthread objects, which are taken to succeed. The
  closing of descriptors and deletions at the end of the servers' \<open>main\<close> functions are calls into the system. The CGI server's output to its
  terminal is left out. The C library's buffering of a log file is not visible: a file holds what has been written
  to it. A data race on a connection object between the loop and a worker is outside the models of the two servers, in
  which a worker's round is one step; only for \<open>close_conn\<close> of the GET server the interleavings with a new client are
  worked out (\<open>get_server_books\<close>). \<open>tp_step\<close> takes a connection from the pool in one step, while \<open>SqlPool\<close> has its parts apart. The counts of
  bytes of a response (\<open>after_write\<close>) are taken to fit their \<open>int\<close>.
\<close>

section \<open>A client of the server\<close>

text \<open>C1: a client gets the files it asks for. The idle server accepts it; then come GET requests with plain headers, one after
  the other, each in any pieces, and the socket takes each response in any pieces, at most one ending inside the
  header. Every request goes through the handler of its event, the queue and its semaphore, a worker with a
  connection from the database pool, and the handler of the writable socket, which epoll reports because the worker
  armed it. What is sent in the end are the headers with status 200 and the lengths of the files, each followed by its
  file, in the order of the requests. No step faults or waits, the books of the loop agree, the database pool has its
  connections back, and the client's connection is open just when the last request asked to keep it (as the others
  do).\<close>

theorem client_served:
  assumes "server_ok S" and "idle (pool S)" and "pool_good C" and "accepts_one e i S"
    and "\<forall>v \<in> set vs. visit_ok os (int i) v" and "vs \<noteq> []" and "\<forall>v \<in> set (butlast vs). v_keep v"
  shows "\<exists>S0 S' C'. handle_event e S = Inr S0 \<and> session os (map (\<lambda>v. (v_in v, v_out v)) vs) S0 C = returns (S', C') \<and>
    served i (concat (map v_response vs)) (v_keep (last vs)) S C S' C'"
proof -
  obtain S0 where 0: "handle_event e S = Inr S0" "waits_on i S0 C" "open_fds (timer_lst S0) = insert (int i) (open_fds (timer_lst S))"
    "sent_bytes (sys (ctx S0)) = sent_bytes (sys (ctx S))"
    using accepted_waits [OF assms(1-4)] by blast
  obtain S' C' where 1: "session os (map (\<lambda>v. (v_in v, v_out v)) vs) S0 C = returns (S', C')"
    "answered i (concat (map v_response vs)) (v_keep (last vs)) S0 C S' C'"
    using visits_served [OF 0(2) assms(5-7)] by blast
  have "int i \<notin> registered (sys (ctx S))" using assms(4) by (simp add: accepts_one_def)
  from answered_served [OF assms(1) this 0(3,4) 1(2)] 0(1) 1(1) show ?thesis by blast
qed

text \<open>The witness: on the started server a client asks for the first page twice and keeps the connection the first time.\<close>

definition demo_io :: "32 word \<Rightarrow> string \<Rightarrow> io_event" where
  "demo_io events req = \<lparr>ev_fd = 7, ev_mask = events, ev_accept = [], ev_signals = None,
     ev_recv = [Data (take 8 req), Data (drop 8 req), RecvAgain], ev_send = [Room 30, Room 1000], ev_time = 101\<rparr>"

definition demo_visit :: "string list \<Rightarrow> visit" where
  "demo_visit hs = \<lparr>v_in = demo_io EPOLLIN (get_request ''/'' hs), v_out = demo_io EPOLLOUT [], v_target = ''/'', v_headers = hs,
     v_file = ''abc''\<rparr>"

definition demo_db :: "unit connection_pool" where
  "demo_db = connection_pool_new\<lparr>connList := [()], FreeConn := 1, MaxConn := 1, reserve := 1\<rparr>"

lemma demo_idle: "server_ok demo_server" "idle (pool demo_server)" "pool_good demo_db"
  using demo_server_ok
  by (simp_all add: demo_server_def server_start_def Let_def idle_def demo_db_def pool_good_def connection_pool_new_def locker_new_def)

lemma demo_accepts: "accepts_one demo_accept 7 demo_server"
  using demo_registered by (simp add: accepts_one_def demo_accept_def MAX_FD_def heap_timer_new_def)
    (simp add: demo_server_def server_start_def Let_def demo_world_def addfd_def setnonblocking_def epoll_ctl_add_def)

lemma demo_nothing: "sent_bytes (sys (ctx demo_server)) = []" "open_fds (timer_lst demo_server) = {}"
  using demo_registered(2)
  by (simp_all add: demo_server_def server_start_def Let_def demo_world_def sent_bytes_def addfd_def setnonblocking_def
      epoll_ctl_add_def emit_def open_fds_def heap_timer_new_def)

theorem client_served_witness:
  "\<exists>S0 S' C'. handle_event demo_accept demo_server = Inr S0 \<and>
     session demo_os (map (\<lambda>hs. (demo_io EPOLLIN (get_request ''/'' hs), demo_io EPOLLOUT [])) [[''Connection: keep-alive''], [''Host: x'']])
       S0 demo_db = returns (S', C') \<and>
     sent_bytes (sys (ctx S')) = answer_header ''abc'' True @ ''abc'' @ answer_header ''abc'' False @ ''abc'' \<and>
     open_fds (timer_lst S') = {}"
proof -
  let ?vs = "[demo_visit [''Connection: keep-alive''], demo_visit [''Host: x'']]"
  have "\<forall>v \<in> set ?vs. visit_ok demo_os 7 v" by code_simp
  moreover have k: "v_keep (demo_visit [''Connection: keep-alive''])" "\<not> v_keep (demo_visit [''Host: x''])" by code_simp+
  ultimately obtain S0 S' C' where "handle_event demo_accept demo_server = Inr S0"
    "session demo_os (map (\<lambda>v. (v_in v, v_out v)) ?vs) S0 demo_db = returns (S', C')"
    "served 7 (concat (map v_response ?vs)) (v_keep (last ?vs)) demo_server demo_db S' C'"
    using client_served [OF demo_idle demo_accepts, of ?vs demo_os] by auto
  with k demo_nothing show ?thesis
    by (intro exI [of _ S0] exI [of _ S'] exI [of _ C']) (simp add: served_def v_response_def demo_visit_def)
qed

section \<open>The load generator against the server\<close>

text \<open>C38: \<open>webbench -2\<close> measures what it means to: for a URL of the server it sends a request that the
  server answers with the file, and closes; and a client that reads this answer to its end has counted one success and the
  bytes of header and file.\<close>

theorem webbench_served:
  assumes "server_ok S" and "idle (pool S)" and "pool_good C" and "accepts_one e i S"
    and "fits target h path" and "proxyhost B = None" and "wb_method B = METHOD_GET" and "http10 B = 2"
    and "brings e1 (int i) (get_request path (webbench_headers h))"
    and "takes_all e2 (int i) (answer_header file False) file" and "stands_for os path file"
    and "small B" and "\<not> timerexpired B" and "speed B < INT_MAX" and "bytes B + int (length (answer_header file False @ file)) \<le> INT_MAX"
  shows "\<exists>B' req S0 S' C'. build_request target B = Inr B' \<and> request_string B' = Inr req \<and>
    handle_event e S = Inr S0 \<and> session os [(e1, e2)] S0 C = returns (S', C') \<and>
    stream (ev_recv e1) = (req, True) \<and> served i (answer_header file False @ file) False S C S' C' \<and>
    counts_success req B' (answer_header file False @ file)"
proof -
  let ?req = "get_request path (webbench_headers h)" and ?r = "answer_header file False @ file"
  have v: "http10 (raise_version B) = 2"
    using assms(7,8) by (simp add: raise_version_def Let_def METHOD_GET_def METHOD_HEAD_def METHOD_OPTIONS_def METHOD_TRACE_def)
  obtain B' where B': "build_request target B = Inr B'" "request_string B' = Inr ?req" "speed B' = speed B" "failed B' = failed B"
    "bytes B' = bytes B" "timerexpired B' = timerexpired B"
    using fits_request [OF assms(5,6)] v assms(7) by (auto simp: get_text)
  have f: "plain_url path" "one_line h"
    using assms(5) by (auto simp: fits_def one_line_def)
  have "process_ready os (received ?req (init c)) (answer_header file False) file False" for c
    using file_ready [OF f(1) header_shapes(1) [OF f(2)] assms(11), of False] header_shapes(2) [OF f(2)] by simp
  from client_answered [OF assms(1-4,9,10) this] obtain S0 S' C' where "handle_event e S = Inr S0"
    "session os [(e1, e2)] S0 C = returns (S', C')" "served i ?r False S C S' C'" by blast
  moreover have "counts_success ?req B' ?r"
    using B'(3-6) assms(12-15) by (intro success_counted) (simp_all add: small_def)
  ultimately show ?thesis using B'(1,2) assms(9) by (auto simp: brings_def)
qed

theorem webbench_served_witness:
  "\<exists>B' req S0 S' C'. build_request ''http://localhost:9006/'' (webbench_start\<lparr>http10 := 2\<rparr>) = Inr B' \<and> request_string B' = Inr req \<and>
     handle_event demo_accept demo_server = Inr S0 \<and>
     session demo_os [(demo_io EPOLLIN (get_request ''/'' (webbench_headers ''localhost'')), demo_io EPOLLOUT [])] S0 demo_db =
       returns (S', C') \<and>
     sent_bytes (sys (ctx S')) = answer_header ''abc'' False @ ''abc'' \<and> counts_success req B' (answer_header ''abc'' False @ ''abc'')"
proof -
  let ?B = "webbench_start\<lparr>http10 := 2\<rparr>" and ?in = "demo_io EPOLLIN (get_request ''/'' (webbench_headers ''localhost''))"
  have "same_nocase ''http://'' ''http://''" "authority ''localhost'' '':9006''" "one_line ''http://localhost:9006/''" "plain_url ''/''"
    by code_simp+
  then have f: "fits ''http://localhost:9006/'' ''localhost'' ''/''"
    unfolding fits_def by (intro conjI exI [of _ "''http://''"] exI [of _ "'':9006''"]) (simp_all add: MAXHOSTNAMELEN_def)
  have e: "brings ?in 7 (get_request ''/'' (webbench_headers ''localhost''))"
    "takes_all (demo_io EPOLLOUT []) 7 (answer_header ''abc'' False) ''abc''" "stands_for demo_os ''/'' ''abc''" by code_simp+
  have B: "proxyhost ?B = None" "wb_method ?B = METHOD_GET" "http10 ?B = 2" "small ?B" "\<not> timerexpired ?B" "speed ?B < INT_MAX"
    "bytes ?B = 0" by (simp_all add: webbench_start_def small_def INT_MAX_def)
  have "length (answer_header ''abc'' False @ ''abc'') < 100" by code_simp
  then have "bytes ?B + int (length (answer_header ''abc'' False @ ''abc'')) \<le> INT_MAX" using B(7) by (simp add: INT_MAX_def)
  with webbench_served [OF demo_idle demo_accepts f B(1-3), of ?in "demo_io EPOLLOUT []" "''abc''" demo_os] e B(4-6) demo_nothing
  show ?thesis by (auto simp: served_def)
qed

text \<open>C39: with any other method than GET, and with HTTP/1.0, which is the default, \<open>webbench\<close> measures the server's page for a
  malformed request: the server refuses the request line, sends that page (whatever the URL names) and closes; and the
  client counts a success and the bytes of the page. (HTTP/0.9 is left out: there the client shuts its side down, and the
  server may see the end before the request. On the very first use of a connection object the pointer to the last file is
  indeterminate; here it has been set.)\<close>

theorem webbench_refused:
  assumes "server_ok S" and "idle (pool S)" and "pool_good C" and "accepts_one e i S"
    and "fits target h path" and "proxyhost B = None" and "0 < http10 (raise_version B)"
    and "wb_method B \<in> {METHOD_HEAD, METHOD_OPTIONS, METHOD_TRACE} \<or> http10 (raise_version B) \<noteq> 2"
    and "brings e1 (int i) (request_text (wb_method B) (http10 (raise_version B)) path (Some h) (force_reload B \<noteq> 0))"
    and "takes_all e2 (int i) bad_request_page []" and "m_file_address (user_conns S i) = Set None"
    and "small B" and "\<not> timerexpired B" and "speed B < INT_MAX" and "bytes B + int (length bad_request_page) \<le> INT_MAX"
  shows "\<exists>B' req S0 S' C'. build_request target B = Inr B' \<and> request_string B' = Inr req \<and>
    handle_event e S = Inr S0 \<and> session os [(e1, e2)] S0 C = returns (S', C') \<and>
    stream (ev_recv e1) = (req, True) \<and> served i bad_request_page False S C S' C' \<and> counts_success req B' bad_request_page"
proof -
  let ?req = "request_text (wb_method B) (http10 (raise_version B)) path (Some h) (force_reload B \<noteq> 0)"
  obtain B' where B': "build_request target B = Inr B'" "request_string B' = Inr ?req" "speed B' = speed B" "failed B' = failed B"
    "bytes B' = bytes B" "timerexpired B' = timerexpired B"
    using fits_request [OF assms(5,6)] by auto
  have f: "plain_url path" and l: "length ?req < READ_BUFFER_SIZE" using assms(5,9) by (simp_all add: fits_def brings_def)
  have "process_ready os (received ?req (init c)) bad_request_page [] False"
    if "m_file_address c = m_file_address (user_conns S i)" for c
    using other_refused [OF f assms(8) refl l] that assms(11) by simp
  from client_answered [OF assms(1-4,9,10) this] obtain S0 S' C' where "handle_event e S = Inr S0"
    "session os [(e1, e2)] S0 C = returns (S', C')" "served i bad_request_page False S C S' C'" by auto
  moreover have "counts_success ?req B' bad_request_page"
    using B'(3-6) assms(12-15) by (intro success_counted) (simp_all add: small_def)
  ultimately show ?thesis using B'(1,2) assms(9) by (auto simp: brings_def)
qed

text \<open>The witness: the default options, on a server whose connection objects have been used before.\<close>

definition demo_used :: "(unit, unit) server" where
  "demo_used = demo_server\<lparr>user_conns := (\<lambda>_. (demo_conn 0 [])\<lparr>m_file_address := Set None\<rparr>)\<rparr>"

theorem webbench_refused_witness:
  "\<exists>B' req S0 S' C'. build_request ''http://localhost/'' webbench_start = Inr B' \<and> request_string B' = Inr req \<and>
     handle_event demo_accept demo_used = Inr S0 \<and>
     session demo_os [(demo_io EPOLLIN (request_text METHOD_GET 1 ''/'' (Some ''localhost'') False), demo_io EPOLLOUT [])] S0 demo_db =
       returns (S', C') \<and>
     sent_bytes (sys (ctx S')) = bad_request_page \<and> counts_success req B' bad_request_page"
proof -
  let ?B = "webbench_start" and ?in = "demo_io EPOLLIN (request_text METHOD_GET 1 ''/'' (Some ''localhost'') False)"
  have "same_nocase ''http://'' ''http://''" "authority ''localhost'' []" "one_line ''http://localhost/''" "plain_url ''/''" by code_simp+
  then have f: "fits ''http://localhost/'' ''localhost'' ''/''"
    unfolding fits_def by (intro conjI exI [of _ "''http://''"] exI [of _ "[]"]) (simp_all add: MAXHOSTNAMELEN_def)
  have S: "server_ok demo_used" "idle (pool demo_used)" "accepts_one demo_accept 7 demo_used"
    "m_file_address (user_conns demo_used 7) = Set None"
    using demo_idle demo_accepts by (simp_all add: demo_used_def server_ok_def accepts_one_def)
  have e: "brings ?in 7 (request_text METHOD_GET 1 ''/'' (Some ''localhost'') False)"
    "takes_all (demo_io EPOLLOUT []) 7 bad_request_page []" by code_simp+
  have B: "proxyhost ?B = None" "wb_method ?B = METHOD_GET" "http10 (raise_version ?B) = 1" "small ?B" "\<not> timerexpired ?B"
    "speed ?B < INT_MAX" "bytes ?B = 0" "force_reload ?B = 0"
    by (simp_all add: webbench_start_def small_def INT_MAX_def raise_version_def Let_def METHOD_GET_def METHOD_HEAD_def
        METHOD_OPTIONS_def METHOD_TRACE_def)
  have "length bad_request_page < 1000" by code_simp
  then have "bytes ?B + int (length bad_request_page) \<le> INT_MAX" using B(7) by (simp add: INT_MAX_def)
  with webbench_refused [OF S(1,2) demo_idle(3) S(3) f B(1), of ?in "demo_io EPOLLOUT []" demo_os] e B S(4) demo_nothing
  show ?thesis by (auto simp: served_def demo_used_def)
qed

end
